(* ===== verification/Prelude.thy ===== *)
theory Prelude
  imports Main "HOL-Library.Word" "HOL-Library.Multiset"
begin

text \<open>
  Shared material of the SpoofDPI development: the Go types every component uses (bytes, fixed
  width integers, errors as values), the conversion between Go strings and byte slices, and the
  interfaces under which the concurrent components are analysed (a transition system with an
  invariant, one with a termination measure, and one that refines another).
\<close>

section \<open>Collections of rules\<close>

named_theorems wf_intros "introduction rules for well-formedness predicates"

section \<open>Go types\<close>

type_synonym byte = "8 word"
type_synonym bytes = "byte list"
type_synonym uint16 = "16 word"
type_synonym uint64 = "64 word"

text \<open>
  Go errors are values.  The constructors are the sentinel errors the program tests for or
  returns, \<open>errors.New\<close> (\<open>ErrString\<close>), \<open>fmt.Errorf("...: %w", err)\<close> (\<open>ErrWrap\<close>) and
  \<open>errors.Join\<close> (\<open>ErrJoin\<close>).  \<open>NeverReturns\<close> is not an error value of Go: it stands for a call that does not
  return, a read from a peer that neither sends nor closes.  No caller goes on after it.
\<close>

datatype go_error =
    EOF
  | ErrUnexpectedEOF
  | ErrInvalid
  | ErrSyntax
  | ErrRange
  | Canceled
  | DeadlineExceeded
  | ErrClosed
  | ErrTimeout
  | NeverReturns
  | ErrString string
  | ErrWrap string go_error
  | ErrJoin "go_error list"

type_synonym 'a result = "go_error + 'a"

text \<open>\<open>errors.Is\<close>: the error itself or one it wraps.\<close>

fun errors_Is :: "go_error \<Rightarrow> go_error \<Rightarrow> bool" where
  "errors_Is (ErrWrap m e) t = (ErrWrap m e = t \<or> errors_Is e t)"
| "errors_Is (ErrJoin es) t = (ErrJoin es = t \<or> (\<exists>e\<in>set es. errors_Is e t))"
| "errors_Is e t = (e = t)"

text \<open>\<open>errors.Join\<close> is nil when it is given no error.\<close>

definition errors_Join :: "go_error list \<Rightarrow> go_error option" where
  "errors_Join es = (if es = [] then None else Some (ErrJoin es))"

lemma errors_Join_None [simp]: "errors_Join es = None \<longleftrightarrow> es = []"
  by (simp add: errors_Join_def)

lemma errors_Join_Some: "es \<noteq> [] \<Longrightarrow> errors_Join es = Some (ErrJoin es)"
  by (simp add: errors_Join_def)

section \<open>Strings and byte slices\<close>

definition byte_of_char :: "char \<Rightarrow> byte" where
  "byte_of_char c = word_of_nat (of_char c)"

definition char_of_byte :: "byte \<Rightarrow> char" where
  "char_of_byte b = char_of (unat b)"

definition bytes_of_string :: "string \<Rightarrow> bytes" where
  "bytes_of_string s = map byte_of_char s"

definition string_of_bytes :: "bytes \<Rightarrow> string" where
  "string_of_bytes bs = map char_of_byte bs"

lemma unat_byte_of_char [simp]: "unat (byte_of_char c) = of_char c"
  by (simp add: byte_of_char_def unat_of_nat of_char_mod_256)

lemma char_of_byte_of_char [simp]: "char_of_byte (byte_of_char c) = c"
  by (simp add: char_of_byte_def)

lemma unat_byte_less: "unat (b :: byte) < 256"
  using unsigned_less [of b, where ?'a = nat] by simp

lemma byte_of_char_of_byte [simp]: "byte_of_char (char_of_byte b) = b"
  using unat_byte_less [of b]
  by (simp add: byte_of_char_def char_of_byte_def of_char_of take_bit_eq_mod)

lemma inj_char_of_byte: "char_of_byte a = char_of_byte b \<longleftrightarrow> a = b"
  by (metis byte_of_char_of_byte)

lemma string_of_bytes_of_string [simp]: "string_of_bytes (bytes_of_string s) = s"
  by (simp add: string_of_bytes_def bytes_of_string_def comp_def)

lemma bytes_of_string_of_bytes [simp]: "bytes_of_string (string_of_bytes bs) = bs"
  by (simp add: string_of_bytes_def bytes_of_string_def comp_def)

lemma string_of_bytes_simps [simp]:
  "string_of_bytes [] = []"
  "string_of_bytes (b # bs) = char_of_byte b # string_of_bytes bs"
  "string_of_bytes (bs @ cs) = string_of_bytes bs @ string_of_bytes cs"
  "length (string_of_bytes bs) = length bs"
  by (simp_all add: string_of_bytes_def)

lemma bytes_of_string_simps [simp]:
  "bytes_of_string [] = []"
  "bytes_of_string (c # cs) = byte_of_char c # bytes_of_string cs"
  "bytes_of_string (s @ t) = bytes_of_string s @ bytes_of_string t"
  "length (bytes_of_string s) = length s"
  by (simp_all add: bytes_of_string_def)

section \<open>Generic lemmas on lists\<close>

lemma take_Suc_eq_app: "i < length xs \<Longrightarrow> take (Suc i) xs = take i xs @ [xs ! i]"
  by (rule take_Suc_conv_app_nth)

lemma split_at_nth: "i < length xs \<Longrightarrow> xs = take i xs @ xs ! i # drop (Suc i) xs"
  by (rule id_take_nth_drop)

lemma concat_map_singleton [simp]: "concat (map (\<lambda>x. [x]) xs) = xs"
  by (induction xs) auto

lemma mset_remove1_insert: "r \<in> set xs \<Longrightarrow> mset xs = add_mset r (mset (remove1 r xs))"
  by simp

lemma length_remove1_Suc: "r \<in> set xs \<Longrightarrow> length xs = Suc (length (remove1 r xs))"
  using length_pos_if_in_set [of r xs] by (simp add: length_remove1)

lemma mset_remove1_le: "A + mset xs \<subseteq># B \<Longrightarrow> A + mset (remove1 r xs) \<subseteq># B"
  by (rule subset_mset.order_trans [of _ "A + mset xs"]) (auto simp: diff_subset_eq_self)

section \<open>Transition systems\<close>

text \<open>
  The concurrent components (goroutines that share a channel, a mutex or a connection) are step
  relations.  The locales below hold the arguments they share: an invariant of single steps
  holds along every run, a system whose steps decrease a measure has no infinite run and
  reaches a state in which no step is possible, and a refinement carries runs over to another system.
\<close>

locale invariant_system =
  fixes step :: "'s \<Rightarrow> 's \<Rightarrow> bool"
    and invar :: "'s \<Rightarrow> bool"
  assumes step_invar: "step s t \<Longrightarrow> invar s \<Longrightarrow> invar t"
begin

lemma run_invar: "step\<^sup>*\<^sup>* s t \<Longrightarrow> invar s \<Longrightarrow> invar t"
  by (induction rule: rtranclp_induct) (auto intro: step_invar)

end

locale measured_system = invariant_system step invar
  for step :: "'s \<Rightarrow> 's \<Rightarrow> bool" and invar :: "'s \<Rightarrow> bool" +
  fixes msr :: "'s \<Rightarrow> nat"
  assumes step_decreases: "step s t \<Longrightarrow> invar s \<Longrightarrow> msr t < msr s"
begin

lemma run_length: "(step ^^ n) s t \<Longrightarrow> invar s \<Longrightarrow> n + msr t \<le> msr s"
proof (induction n arbitrary: t)
  case 0
  then show ?case by simp
next
  case (Suc n)
  from Suc.prems(1) obtain u where u: "(step ^^ n) s u" and ut: "step u t"
    by auto
  from u have "step\<^sup>*\<^sup>* s u" by (rule relpowp_imp_rtranclp)
  then have "invar u" using Suc.prems(2) by (rule run_invar)
  with ut have "msr t < msr u" by (rule step_decreases)
  with Suc.IH [OF u Suc.prems(2)] show ?case by simp
qed

lemma reaches_final: "invar s \<Longrightarrow> \<exists>t. step\<^sup>*\<^sup>* s t \<and> (\<forall>u. \<not> step t u)"
proof (induction "msr s" arbitrary: s rule: less_induct)
  case less
  show ?case
  proof (cases "\<exists>u. step s u")
    case True
    then obtain u where u: "step s u" by blast
    have "msr u < msr s" "invar u"
      using u less.prems step_decreases step_invar by blast+
    then obtain t where "step\<^sup>*\<^sup>* u t" "\<forall>v. \<not> step t v"
      using less.hyps by blast
    with u show ?thesis by (blast intro: converse_rtranclp_into_rtranclp)
  next
    case False
    then show ?thesis by blast
  qed
qed

end

text \<open>
  A system refines another when a function of its state turns every step into a run of the other;
  then its runs are runs of the other, and what holds of those holds of it.
\<close>

locale refinement_map = invariant_system cstep invar
  for cstep :: "'c \<Rightarrow> 'c \<Rightarrow> bool" and invar :: "'c \<Rightarrow> bool" +
  fixes astep :: "'a \<Rightarrow> 'a \<Rightarrow> bool" and abstr :: "'c \<Rightarrow> 'a"
  assumes simulates: "cstep s t \<Longrightarrow> invar s \<Longrightarrow> astep\<^sup>*\<^sup>* (abstr s) (abstr t)"
begin

lemma run_refines: "cstep\<^sup>*\<^sup>* s t \<Longrightarrow> invar s \<Longrightarrow> astep\<^sup>*\<^sup>* (abstr s) (abstr t)"
proof (induction rule: rtranclp_induct)
  case base
  then show ?case by simp
next
  case (step t u)
  have "invar t" using step.hyps(1) step.prems by (rule run_invar)
  with step.hyps(2) have "astep\<^sup>*\<^sup>* (abstr t) (abstr u)" by (rule simulates)
  with step.IH [OF step.prems] show ?case by (rule rtranclp_trans)
qed

end

end
