(* ===== verification/Go_Strings.thy ===== *)
theory Go_Strings
  imports Prelude "HOL-Library.Sublist"
begin

unbundle bit_operations_syntax

text \<open>
  The functions of Go's packages \<open>strings\<close>, \<open>strconv\<close> and \<open>net\<close> (host and port strings) that
  the program calls, as executable definitions over \<open>string\<close>, and the lemmas the components use:
  splitting is inverted by joining, decimal printing is inverted by parsing, and
  \<open>JoinHostPort\<close> is inverted by \<open>SplitHostPort\<close>.
  White space is ASCII white space.
\<close>

section \<open>Package strings\<close>

definition strings_HasPrefix :: "string \<Rightarrow> string \<Rightarrow> bool" where
  "strings_HasPrefix s p \<longleftrightarrow> take (length p) s = p"

fun strings_Index :: "string \<Rightarrow> string \<Rightarrow> nat option" where
  "strings_Index [] sep = (if sep = [] then Some 0 else None)"
| "strings_Index (c # cs) sep =
     (if strings_HasPrefix (c # cs) sep then Some 0
      else map_option Suc (strings_Index cs sep))"

lemma strings_HasPrefix_append: "strings_HasPrefix s p \<longleftrightarrow> (\<exists>t. s = p @ t)"
  by (auto simp: strings_HasPrefix_def intro: exI [of _ "drop (length p) s"])
    (metis append_take_drop_id)

lemma strings_Index_Some:
  "strings_Index s sep = Some i \<Longrightarrow> \<exists>t. s = take i s @ sep @ t \<and> i + length sep \<le> length s"
proof (induction s arbitrary: i)
  case Nil
  then show ?case by (auto split: if_splits)
next
  case (Cons c cs)
  show ?case
  proof (cases "strings_HasPrefix (c # cs) sep")
    case True
    with Cons.prems obtain t where "c # cs = sep @ t" and "i = 0"
      by (auto simp: strings_HasPrefix_append)
    moreover from this have "length sep \<le> length (c # cs)" by simp
    ultimately show ?thesis by auto
  next
    case False
    with Cons.prems obtain j where j: "strings_Index cs sep = Some j" and i: "i = Suc j"
      by auto
    from Cons.IH [OF j] i show ?thesis by auto
  qed
qed

text \<open>
  \<open>strings.Split\<close> with a non-empty separator: the pieces between its non-overlapping
  occurrences, from the left.  With an empty separator Go splits after every character.
\<close>

function strings_Split :: "string \<Rightarrow> string \<Rightarrow> string list" where
  "strings_Split s sep =
     (if sep = [] then map (\<lambda>c. [c]) s
      else case strings_Index s sep of
        None \<Rightarrow> [s]
      | Some i \<Rightarrow> take i s # strings_Split (drop (i + length sep) s) sep)"
  by pat_completeness auto
termination
proof (relation "measure (\<lambda>(s, sep). length s)")
  show "wf (measure (\<lambda>(s :: string, sep :: string). length s))" by simp
next
  fix s sep :: string and i :: nat
  assume "sep \<noteq> []" and "strings_Index s sep = Some i"
  then have "0 < length sep" and "i + length sep \<le> length s"
    using strings_Index_Some by auto
  then show "((drop (i + length sep) s, sep), s, sep) \<in> measure (\<lambda>(s, sep). length s)"
    by (cases s) auto
qed

declare strings_Split.simps [simp del]

fun strings_Join :: "string list \<Rightarrow> string \<Rightarrow> string" where
  "strings_Join [] sep = []"
| "strings_Join [x] sep = x"
| "strings_Join (x # y # xs) sep = x @ sep @ strings_Join (y # xs) sep"

lemma strings_Split_nonempty: "sep \<noteq> [] \<Longrightarrow> strings_Split s sep \<noteq> []"
  by (subst strings_Split.simps) (auto split: option.splits)

lemma strings_Join_Cons: "xs \<noteq> [] \<Longrightarrow> strings_Join (x # xs) sep = x @ sep @ strings_Join xs sep"
  by (cases xs) auto

lemma strings_Join_Split: "sep \<noteq> [] \<Longrightarrow> strings_Join (strings_Split s sep) sep = s"
proof (induction s sep rule: strings_Split.induct)
  case (1 s sep)
  show ?case
  proof (cases "strings_Index s sep")
    case None
    with "1.prems" show ?thesis by (simp add: strings_Split.simps [of s])
  next
    case (Some i)
    then obtain t where t: "s = take i s @ sep @ t" and le: "i + length sep \<le> length s"
      using strings_Index_Some by blast
    then have drop: "drop (i + length sep) s = t"
      by (metis add.commute append_eq_conv_conj drop_drop le_add1 length_take min.absorb2 order_trans)
    with "1.IH" [OF "1.prems" Some] have "strings_Join (strings_Split t sep) sep = t"
      using "1.prems" by simp
    with Some drop t "1.prems" show ?thesis
      by (simp add: strings_Split.simps [of s] strings_Join_Cons strings_Split_nonempty)
  qed
qed

definition is_space :: "char \<Rightarrow> bool" where
  "is_space c \<longleftrightarrow> of_char c \<in> {9, 10, 11, 12, 13, 32 :: nat}"

definition strings_TrimSpace :: "string \<Rightarrow> string" where
  "strings_TrimSpace s = rev (dropWhile is_space (rev (dropWhile is_space s)))"

function strings_Fields :: "string \<Rightarrow> string list" where
  "strings_Fields s =
     (case dropWhile is_space s of
        [] \<Rightarrow> []
      | c # cs \<Rightarrow> takeWhile (\<lambda>x. \<not> is_space x) (c # cs) #
                 strings_Fields (dropWhile (\<lambda>x. \<not> is_space x) cs))"
  by pat_completeness auto
termination
proof (relation "measure length")
  show "wf (measure (length :: string \<Rightarrow> nat))" by simp
next
  fix s cs :: string and c :: char
  assume a: "dropWhile is_space s = c # cs"
  have "length (dropWhile (\<lambda>x. \<not> is_space x) cs) \<le> length cs"
    by (rule length_dropWhile_le)
  also have "length cs < length (dropWhile is_space s)" using a by simp
  also have "\<dots> \<le> length s" by (rule length_dropWhile_le)
  finally show "(dropWhile (\<lambda>x. \<not> is_space x) cs, s) \<in> measure length" by simp
qed

declare strings_Fields.simps [simp del]

section \<open>Package strconv\<close>

definition digit_char :: "nat \<Rightarrow> char" where
  "digit_char d = char_of (48 + d)"

fun format_nat :: "nat \<Rightarrow> string" where
  "format_nat n = (if n < 10 then [digit_char n] else format_nat (n div 10) @ [digit_char (n mod 10)])"

declare format_nat.simps [simp del]

text \<open>The verb \<open>%x\<close> of a number.\<close>

fun format_hex :: "nat \<Rightarrow> string" where
  "format_hex n =
     (if n < 16 then [''0123456789abcdef'' ! n] else format_hex (n div 16) @ [''0123456789abcdef'' ! (n mod 16)])"

declare format_hex.simps [simp del]

definition strconv_Itoa :: "int \<Rightarrow> string" where
  "strconv_Itoa i = (if i < 0 then CHR ''-'' # format_nat (nat (- i)) else format_nat (nat i))"

text \<open>\<open>lower\<close> of strconv: \<open>c | ('x' - 'X')\<close>, written on the code of the character.\<close>

definition lower_code :: "char \<Rightarrow> nat" where
  "lower_code c = of_char c OR 32"

text \<open>The digit a byte stands for, letters counting from ten; \<open>None\<close> for any other byte.\<close>

definition digit_val :: "char \<Rightarrow> nat option" where
  "digit_val c =
     (if 48 \<le> (of_char c :: nat) \<and> (of_char c :: nat) \<le> 57 then Some (of_char c - 48)
      else if 97 \<le> lower_code c \<and> lower_code c \<le> 122 then Some (lower_code c - 97 + 10)
      else None)"


text \<open>
  The loop of \<open>strconv.ParseUint\<close>.  Go keeps \<open>n\<close> in a \<open>uint64\<close> and compares it with a cutoff
  before multiplying; as \<open>n\<close> never exceeds \<open>maxVal\<close>, that is the test on natural numbers below.
  A range error is returned with \<open>maxVal\<close>, a syntax error with 0.
\<close>

fun parse_uint_loop :: "bool \<Rightarrow> nat \<Rightarrow> nat \<Rightarrow> nat \<Rightarrow> string \<Rightarrow> nat \<times> go_error option" where
  "parse_uint_loop base0 base maxVal n [] = (n, None)"
| "parse_uint_loop base0 base maxVal n (c # cs) =
     (if c = CHR ''_'' \<and> base0 then parse_uint_loop base0 base maxVal n cs
      else case digit_val c of
        None \<Rightarrow> (0, Some ErrSyntax)
      | Some d \<Rightarrow>
          if base \<le> d then (0, Some ErrSyntax)
          else if maxVal < n * base + d then (maxVal, Some ErrRange)
          else parse_uint_loop base0 base maxVal (n * base + d) cs)"

text \<open>\<open>underscoreOK\<close>: underscores separate digits, and one may follow a base prefix.\<close>

fun underscore_scan :: "bool \<Rightarrow> char \<Rightarrow> string \<Rightarrow> bool" where
  "underscore_scan hex i [] = (i \<noteq> CHR ''_'')"
| "underscore_scan hex i (c # cs) =
     (if (48 \<le> (of_char c :: nat) \<and> (of_char c :: nat) \<le> 57) \<or>
         (hex \<and> 97 \<le> lower_code c \<and> lower_code c \<le> 102)
      then underscore_scan hex (CHR ''0'') cs
      else if c = CHR ''_''
      then (if i \<noteq> CHR ''0'' then False else underscore_scan hex (CHR ''_'') cs)
      else if i = CHR ''_'' then False
      else underscore_scan hex (CHR ''!'') cs)"

definition underscoreOK :: "string \<Rightarrow> bool" where
  "underscoreOK s0 =
     (let s = (case s0 of c # cs \<Rightarrow> if c = CHR ''-'' \<or> c = CHR ''+'' then cs else s0 | [] \<Rightarrow> s0)
      in case s of
           z # p # cs \<Rightarrow>
             if z = CHR ''0'' \<and> lower_code p \<in> {98, 111, 120}
             then underscore_scan (lower_code p = 120) (CHR ''0'') cs
             else underscore_scan False (CHR ''^'') s
         | _ \<Rightarrow> underscore_scan False (CHR ''^'') s)"

text \<open>The base prefix that \<open>ParseUint\<close> recognises when it is called with base 0.\<close>

definition detect_base :: "string \<Rightarrow> nat \<times> string" where
  "detect_base s =
     (case s of
        [] \<Rightarrow> (10, s)
      | z # rest \<Rightarrow>
          if z \<noteq> CHR ''0'' then (10, s)
          else (case rest of
                  p # q # cs \<Rightarrow>
                    if lower_code p = 98 then (2, q # cs)
                    else if lower_code p = 111 then (8, q # cs)
                    else if lower_code p = 120 then (16, q # cs)
                    else (8, rest)
                | _ \<Rightarrow> (8, rest)))"

definition strconv_ParseUint :: "string \<Rightarrow> nat \<Rightarrow> nat \<Rightarrow> nat \<times> go_error option" where
  "strconv_ParseUint s base bitSize =
     (if s = [] then (0, Some ErrSyntax)
      else if base = 1 \<or> 36 < base then (0, Some (ErrString ''invalid base''))
      else if 64 < bitSize then (0, Some (ErrString ''invalid bit size''))
      else
        let maxVal = 2 ^ (if bitSize = 0 then 64 else bitSize) - 1;
            base0 = (base = 0);
            (b, digits) = (if base0 then detect_base s else (base, s))
        in case parse_uint_loop base0 b maxVal 0 digits of
             (n, Some e) \<Rightarrow> (n, Some e)
           | (n, None) \<Rightarrow>
               if base0 \<and> CHR ''_'' \<in> set digits \<and> \<not> underscoreOK s
               then (0, Some ErrSyntax) else (n, None))"

text \<open>\<open>strconv.Atoi\<close>: \<open>ParseInt(s, 10, 0)\<close> on a 64-bit platform.\<close>

definition strconv_Atoi :: "string \<Rightarrow> int \<times> go_error option" where
  "strconv_Atoi s0 =
     (case s0 of
        [] \<Rightarrow> (0, Some ErrSyntax)
      | c # cs \<Rightarrow>
          let neg = (c = CHR ''-'');
              s = (if c = CHR ''+'' \<or> neg then cs else s0);
              cutoff = (2 :: int) ^ 63
          in case strconv_ParseUint s 10 64 of
               (un, err) \<Rightarrow>
                 if err \<noteq> None \<and> err \<noteq> Some ErrRange then (0, err)
                 else if \<not> neg \<and> cutoff \<le> int un then (cutoff - 1, Some ErrRange)
                 else if neg \<and> cutoff < int un then (- cutoff, Some ErrRange)
                 else (if neg then - int un else int un, None))"

lemma parse_uint_loop_bound: "n \<le> m \<Longrightarrow> fst (parse_uint_loop z b m n cs) \<le> m"
  by (induction z b m n cs rule: parse_uint_loop.induct) (auto split: option.splits)

lemma ParseUint_bound:
  assumes "0 < k"
  shows "fst (strconv_ParseUint s base k) < 2 ^ k"
proof -
  have loop: "m < 2 ^ k" if "parse_uint_loop z b (2 ^ k - Suc 0) 0 ds = (m, e)" for z b ds m e
  proof -
    have "m \<le> 2 ^ k - 1"
      using parse_uint_loop_bound [of 0 "2 ^ k - Suc 0" z b ds] that by simp
    moreover have "(0 :: nat) < 2 ^ k" by simp
    ultimately show ?thesis by linarith
  qed
  show ?thesis
    using assms
    by (auto simp: strconv_ParseUint_def Let_def split: prod.splits option.splits dest: loop)
qed

lemma parse_uint_loop_append:
  "parse_uint_loop z b m n xs = (k, None) \<Longrightarrow>
   parse_uint_loop z b m n (xs @ ys) = parse_uint_loop z b m k ys"
  by (induction z b m n xs rule: parse_uint_loop.induct) (auto split: option.splits if_splits)

lemma of_char_digit_char: "d < 10 \<Longrightarrow> of_char (digit_char d) = 48 + d"
  by (simp add: digit_char_def)

lemma digit_val_digit_char: "d < 10 \<Longrightarrow> digit_val (digit_char d) = Some d"
  by (simp add: digit_val_def of_char_digit_char)

lemma digit_char_neq: "d < 10 \<Longrightarrow> (of_char c :: nat) < 48 \<or> 57 < (of_char c :: nat) \<Longrightarrow> digit_char d \<noteq> c"
  using of_char_digit_char [of d] by auto

lemma parse_format_nat: "n \<le> m \<Longrightarrow> parse_uint_loop False 10 m 0 (format_nat n) = (n, None)"
proof (induction n rule: format_nat.induct)
  case (1 n)
  show ?case
  proof (cases "n < 10")
    case True
    with "1.prems" show ?thesis
      by (simp add: format_nat.simps [of n] digit_val_digit_char)
  next
    case False
    with "1" have IH: "parse_uint_loop False 10 m 0 (format_nat (n div 10)) = (n div 10, None)"
      by simp
    from False "1.prems" show ?thesis
      by (simp add: format_nat.simps [of n] parse_uint_loop_append [OF IH] digit_val_digit_char)
  qed
qed

lemma parse_uint_loop_append_err:
  "parse_uint_loop z b m n xs = (k, Some e) \<Longrightarrow> parse_uint_loop z b m n (xs @ ys) = (k, Some e)"
  by (induction z b m n xs rule: parse_uint_loop.induct) (auto split: option.splits if_splits)

lemma parse_format_nat_big: "m < n \<Longrightarrow> parse_uint_loop False 10 m 0 (format_nat n) = (m, Some ErrRange)"
proof (induction n rule: format_nat.induct)
  case (1 n)
  show ?case
  proof (cases "n < 10")
    case True
    with "1.prems" show ?thesis by (simp add: format_nat.simps [of n] digit_val_digit_char)
  next
    case big: False
    show ?thesis
    proof (cases "m < n div 10")
      case True
      with big "1.IH" show ?thesis by (simp add: format_nat.simps [of n] parse_uint_loop_append_err)
    next
      case False
      then have "parse_uint_loop False 10 m 0 (format_nat (n div 10)) = (n div 10, None)" by (intro parse_format_nat) simp
      with big "1.prems" show ?thesis
        by (simp add: format_nat.simps [of n] parse_uint_loop_append digit_val_digit_char)
    qed
  qed
qed

lemma format_nat_nonempty: "format_nat n \<noteq> []"
  by (subst format_nat.simps) auto

lemma format_nat_chars: "c \<in> set (format_nat n) \<Longrightarrow> \<exists>d < 10. c = digit_char d"
proof (induction n rule: format_nat.induct)
  case (1 n)
  show ?case
  proof (cases "n < 10")
    case True
    with "1.prems" show ?thesis by (auto simp: format_nat.simps [of n])
  next
    case False
    with "1" show ?thesis
      by (auto simp: format_nat.simps [of n] intro: exI [of _ "n mod 10"])
  qed
qed

lemma Atoi_Itoa:
  assumes "- (2 ^ 63) \<le> i" and "i < 2 ^ 63"
  shows "strconv_Atoi (strconv_Itoa i) = (i, None)"
proof -
  have "nat \<bar>i\<bar> \<le> 2 ^ 64 - 1" using assms by simp
  then have p: "strconv_ParseUint (format_nat (nat \<bar>i\<bar>)) 10 64 = (nat \<bar>i\<bar>, None)"
    by (simp add: strconv_ParseUint_def Let_def format_nat_nonempty parse_format_nat)
  show ?thesis
  proof (cases "i < 0")
    case True
    with p assms show ?thesis by (simp add: strconv_Itoa_def strconv_Atoi_def Let_def)
  next
    case False
    obtain c cs where c: "format_nat (nat i) = c # cs"
      using format_nat_nonempty by (meson list.exhaust)
    then have "\<exists>d < 10. c = digit_char d"
      using format_nat_chars [of c "nat i"] by simp
    then have "c \<noteq> CHR ''-''" "c \<noteq> CHR ''+''"
      using digit_char_neq by (auto simp: of_char_def)
    with False p c assms show ?thesis
      by (simp add: strconv_Itoa_def strconv_Atoi_def Let_def)
  qed
qed

section \<open>Package net: host and port\<close>

definition net_JoinHostPort :: "string \<Rightarrow> string \<Rightarrow> string" where
  "net_JoinHostPort host port =
     (if CHR '':'' \<in> set host then ''['' @ host @ '']:'' @ port else host @ '':'' @ port)"

fun index_byte :: "char \<Rightarrow> string \<Rightarrow> nat option" where
  "index_byte c [] = None"
| "index_byte c (x # xs) = (if x = c then Some 0 else map_option Suc (index_byte c xs))"

definition last_index_byte :: "char \<Rightarrow> string \<Rightarrow> nat option" where
  "last_index_byte c s = map_option (\<lambda>i. length s - Suc i) (index_byte c (rev s))"

definition net_SplitHostPort :: "string \<Rightarrow> (string \<times> string) result" where
  "net_SplitHostPort hp =
     (case last_index_byte (CHR '':'') hp of
        None \<Rightarrow> Inl (ErrString ''missing port in address'')
      | Some i \<Rightarrow>
          (let finish = (\<lambda>host j k.
                 if CHR ''['' \<in> set (drop j hp) then Inl (ErrString ''unexpected '[' in address'')
                 else if CHR '']'' \<in> set (drop k hp) then Inl (ErrString ''unexpected ']' in address'')
                 else Inr (host, drop (Suc i) hp))
           in if hp ! 0 = CHR ''['' then
                (case index_byte (CHR '']'') hp of
                   None \<Rightarrow> Inl (ErrString ''missing ']' in address'')
                 | Some e \<Rightarrow>
                     if Suc e = length hp then Inl (ErrString ''missing port in address'')
                     else if Suc e = i then finish (take (e - 1) (drop 1 hp)) 1 (Suc e)
                     else if hp ! Suc e = CHR '':'' then Inl (ErrString ''too many colons in address'')
                     else Inl (ErrString ''missing port in address''))
              else if CHR '':'' \<in> set (take i hp) then Inl (ErrString ''too many colons in address'')
              else finish (take i hp) 0 0))"

lemma index_byte_append: "c \<notin> set xs \<Longrightarrow> index_byte c (xs @ c # ys) = Some (length xs)"
  by (induction xs) auto

lemma last_index_byte_append: "c \<notin> set ys \<Longrightarrow> last_index_byte c (xs @ c # ys) = Some (length xs)"
  by (simp add: last_index_byte_def index_byte_append)

text \<open>A host and a port without brackets, the port without a colon, survive joining and splitting.\<close>

lemma SplitHostPort_JoinHostPort:
  assumes "CHR ''['' \<notin> set host" "CHR '']'' \<notin> set host"
    and "CHR ''['' \<notin> set port" "CHR '']'' \<notin> set port" "CHR '':'' \<notin> set port"
  shows "net_SplitHostPort (net_JoinHostPort host port) = Inr (host, port)"
proof (cases "CHR '':'' \<in> set host")
  case True
  let ?hp = "''['' @ host @ '']:'' @ port"
  have "last_index_byte (CHR '':'') (''['' @ host @ '']'' @ CHR '':'' # port) = Some (length host + 2)"
    using last_index_byte_append [OF assms(5), of "''['' @ host @ '']''"] by simp
  moreover have "index_byte (CHR '']'') ?hp = Some (Suc (length host))"
    using index_byte_append [of "CHR '']''" "''['' @ host" "'':'' @ port"] assms(2) by simp
  ultimately show ?thesis
    using True assms by (simp add: net_SplitHostPort_def net_JoinHostPort_def Let_def)
next
  case False
  have "last_index_byte (CHR '':'') (host @ CHR '':'' # port) = Some (length host)"
    using assms(5) by (rule last_index_byte_append)
  moreover have "(host @ CHR '':'' # port) ! 0 \<noteq> CHR ''[''"
    using assms(1) by (cases host) auto
  ultimately show ?thesis
    using False assms by (simp add: net_SplitHostPort_def net_JoinHostPort_def Let_def)
qed

end
