(* ===== verification/Sort_Interface.thy ===== *)
theory Sort_Interface
  imports Prelude
begin

text \<open>
  Go's \<open>sort.Stable\<close> over \<open>sort.Interface\<close>.  A collection offers \<open>Len\<close>, \<open>Less(i, j)\<close> and
  \<open>Swap(i, j)\<close> on indices; \<open>sort_Stable\<close> is the insertion sort that \<open>sort.Stable\<close> runs on each
  block.  The locale \<open>sort_interface\<close> is the contract between the two: \<open>entries\<close> abstracts the
  collection to the list it stands for, \<open>Less\<close> compares and \<open>Swap\<close> exchanges elements of that list.
  Under it the in-place algorithm computes \<open>stable_sort\<close>.  The locale \<open>strict_weak_order\<close> holds what
  a comparison has to satisfy for the result to be sorted, and shows that a sorted list with the
  same elements in the same order within each class of equivalent elements is unique.  So
  the merge phase that \<open>sort.Stable\<close> adds above twenty elements, which is documented to give such
  a list, gives the list computed here.
\<close>

section \<open>Functional insertion sort\<close>

fun rins :: "('a \<Rightarrow> 'a \<Rightarrow> bool) \<Rightarrow> 'a \<Rightarrow> 'a list \<Rightarrow> 'a list" where
  "rins lt x [] = [x]"
| "rins lt x (y # ys) = (if lt x y then y # rins lt x ys else x # y # ys)"

definition stable_sort :: "('a \<Rightarrow> 'a \<Rightarrow> bool) \<Rightarrow> 'a list \<Rightarrow> 'a list" where
  "stable_sort lt xs = rev (fold (rins lt) xs [])"

definition eqv :: "('a \<Rightarrow> 'a \<Rightarrow> bool) \<Rightarrow> 'a \<Rightarrow> 'a \<Rightarrow> bool" where
  "eqv lt x y \<longleftrightarrow> \<not> lt x y \<and> \<not> lt y x"

definition sorted_by :: "('a \<Rightarrow> 'a \<Rightarrow> bool) \<Rightarrow> 'a list \<Rightarrow> bool" where
  "sorted_by lt xs \<longleftrightarrow> sorted_wrt (\<lambda>x y. \<not> lt y x) xs"

lemma mset_rins [simp]: "mset (rins lt x ys) = add_mset x (mset ys)"
  by (induction ys) auto

lemma set_rins [simp]: "set (rins lt x ys) = insert x (set ys)"
  by (metis mset_rins set_mset_add_mset_insert set_mset_mset)

lemma mset_fold_rins: "mset (fold (rins lt) xs ys) = mset xs + mset ys"
  by (induction xs arbitrary: ys) auto

lemma mset_stable_sort: "mset (stable_sort lt xs) = mset xs"
  by (simp add: stable_sort_def mset_fold_rins)

lemma set_stable_sort [simp]: "set (stable_sort lt xs) = set xs"
  by (metis mset_stable_sort set_mset_mset)

lemma length_stable_sort [simp]: "length (stable_sort lt xs) = length xs"
  by (metis mset_stable_sort size_mset)

lemma stable_sort_Nil_iff [simp]: "stable_sort lt xs = [] \<longleftrightarrow> xs = []"
  by (metis length_0_conv length_stable_sort)

lemma set_fold_rins: "set (fold (rins lt) xs ys) = set xs \<union> set ys"
  by (metis mset_fold_rins set_mset_mset set_mset_union)

text \<open>Sorting commutes with a projection the comparison factors through.\<close>

lemma rins_map: "rins lt (f x) (map f ys) = map f (rins (\<lambda>a b. lt (f a) (f b)) x ys)"
  by (induction ys) auto

lemma stable_sort_map: "stable_sort lt (map f xs) = map f (stable_sort (\<lambda>a b. lt (f a) (f b)) xs)"
proof -
  have "fold (rins lt) (map f xs) (map f ys) = map f (fold (rins (\<lambda>a b. lt (f a) (f b))) xs ys)" for ys
    by (induction xs arbitrary: ys) (auto simp: rins_map)
  from this [of "[]"] show ?thesis by (simp add: stable_sort_def rev_map)
qed

lemma stable_sort_short: "length xs < 2 \<Longrightarrow> stable_sort lt xs = xs"
  by (cases xs) (auto simp: stable_sort_def)

section \<open>Comparisons that sort\<close>

locale strict_weak_order =
  fixes ok :: "'a \<Rightarrow> bool"
    and lt :: "'a \<Rightarrow> 'a \<Rightarrow> bool"
  assumes lt_asym: "ok x \<Longrightarrow> ok y \<Longrightarrow> lt x y \<Longrightarrow> \<not> lt y x"
    and lt_cotrans: "ok x \<Longrightarrow> ok y \<Longrightarrow> ok z \<Longrightarrow> lt x z \<Longrightarrow> lt x y \<or> lt y z"
begin

lemma lt_irrefl: "ok x \<Longrightarrow> \<not> lt x x"
  using lt_asym by blast

lemma lt_trans: "ok x \<Longrightarrow> ok y \<Longrightarrow> ok z \<Longrightarrow> lt x y \<Longrightarrow> lt y z \<Longrightarrow> lt x z"
  using lt_asym lt_cotrans by blast

lemma eqv_refl: "ok x \<Longrightarrow> eqv lt x x"
  by (simp add: eqv_def lt_irrefl)

lemma sorted_rins:
  assumes "ok x" and "\<forall>y\<in>set ys. ok y" and "sorted_wrt (\<lambda>a b. \<not> lt a b) ys"
  shows "sorted_wrt (\<lambda>a b. \<not> lt a b) (rins lt x ys)"
  using assms(2,3)
proof (induction ys)
  case Nil
  then show ?case by simp
next
  case (Cons y ys)
  show ?case
  proof (cases "lt x y")
    case True
    then have "\<not> lt y x" using assms(1) Cons.prems(1) by (simp add: lt_asym)
    with True Cons show ?thesis by simp
  next
    case False
    then have "\<not> lt x b" if "b \<in> set ys" for b
      using that assms(1) Cons.prems lt_cotrans [of x y b] by auto
    with False Cons.prems show ?thesis by simp
  qed
qed

lemma sorted_stable_sort:
  assumes "\<forall>x\<in>set xs. ok x"
  shows "sorted_by lt (stable_sort lt xs)"
proof -
  have "sorted_wrt (\<lambda>a b. \<not> lt a b) (fold (rins lt) xs ys)"
    if "sorted_wrt (\<lambda>a b. \<not> lt a b) ys" "\<forall>y\<in>set ys. ok y" for ys
    using that assms by (induction xs arbitrary: ys) (auto simp: sorted_rins)
  from this [of "[]"] show ?thesis
    by (simp add: sorted_by_def stable_sort_def sorted_wrt_rev)
qed

lemma filter_rins:
  assumes "ok x" and "ok y" and "\<forall>z\<in>set ys. ok z"
  shows "filter (eqv lt x) (rins lt y ys) = filter (eqv lt x) (y # ys)"
  using assms(3)
proof (induction ys)
  case Nil
  then show ?case by simp
next
  case (Cons z zs)
  show ?case
  proof (cases "lt y z")
    case True
    then have "\<not> (eqv lt x y \<and> eqv lt x z)"
      using assms Cons.prems lt_cotrans [of y x z] by (auto simp: eqv_def)
    with True Cons show ?thesis by auto
  next
    case False
    then show ?thesis by simp
  qed
qed

lemma filter_stable_sort:
  assumes "ok x" and "\<forall>y\<in>set xs. ok y"
  shows "filter (eqv lt x) (stable_sort lt xs) = filter (eqv lt x) xs"
proof -
  have "filter (eqv lt x) (fold (rins lt) xs ys) = rev (filter (eqv lt x) xs) @ filter (eqv lt x) ys"
    if "\<forall>y\<in>set ys. ok y" for ys
    using that assms(2)
  proof (induction xs arbitrary: ys)
    case Nil
    then show ?case by simp
  next
    case (Cons a as)
    then show ?case using filter_rins [OF assms(1), of a ys] by simp
  qed
  from this [of "[]"] show ?thesis by (simp add: stable_sort_def rev_filter [symmetric])
qed

text \<open>The contract of a stable sort determines its result.\<close>

lemma stable_sort_unique:
  assumes "sorted_by lt ys" and "sorted_by lt zs"
    and "\<forall>x\<in>set ys \<union> set zs. ok x"
    and "\<And>x. ok x \<Longrightarrow> filter (eqv lt x) ys = filter (eqv lt x) zs"
  shows "ys = zs"
  using assms
proof (induction ys arbitrary: zs)
  case Nil
  show ?case
  proof (cases zs)
    case (Cons z zs')
    with Nil.prems(3) have "ok z" by simp
    with Nil.prems(4) [OF this] Cons show ?thesis by (simp add: eqv_refl)
  qed simp
next
  case (Cons y ys)
  have y: "ok y" and fy: "filter (eqv lt y) (y # ys) = filter (eqv lt y) zs"
    using Cons.prems(3,4) by auto
  then have "y \<in> set (filter (eqv lt y) zs)"
    by (metis eqv_refl filter.simps(2) list.set_intros(1))
  then have "y \<in> set zs" by simp
  then obtain z zs' where zs: "zs = z # zs'" by (cases zs) auto
  then have z: "ok z" and fz: "filter (eqv lt z) (y # ys) = filter (eqv lt z) zs"
    using Cons.prems(3,4) by auto
  then have "z \<in> set (filter (eqv lt z) (y # ys))"
    using zs by (metis eqv_refl filter.simps(2) list.set_intros(1))
  then have "z \<in> set (y # ys)" by (metis filter_is_subset subsetD)
  then have "\<not> lt z y"
    using Cons.prems(1) lt_irrefl [OF y] by (auto simp: sorted_by_def)
  moreover have "\<not> lt y z"
    using Cons.prems(2) \<open>y \<in> set zs\<close> zs lt_irrefl [OF z] by (auto simp: sorted_by_def)
  ultimately have "eqv lt y z" by (simp add: eqv_def)
  with fy zs y have yz: "y = z" by (simp add: eqv_refl)
  have "ys = zs'"
  proof (rule Cons.IH)
    show "sorted_by lt ys" "sorted_by lt zs'" "\<forall>x\<in>set ys \<union> set zs'. ok x"
      using Cons.prems(1-3) zs by (auto simp: sorted_by_def)
    show "filter (eqv lt x) ys = filter (eqv lt x) zs'" if "ok x" for x
      using Cons.prems(4) [OF that] zs yz by (simp split: if_splits)
  qed
  with yz zs show ?case by simp
qed

lemma stable_sort_eqI:
  assumes "\<forall>x\<in>set xs. ok x" and "mset ys = mset xs" and "sorted_by lt ys"
    and "\<And>x. ok x \<Longrightarrow> filter (eqv lt x) ys = filter (eqv lt x) xs"
  shows "ys = stable_sort lt xs"
proof (rule stable_sort_unique)
  have "set ys = set xs" using assms(2) by (metis set_mset_mset)
  with assms(1) show "\<forall>x\<in>set ys \<union> set (stable_sort lt xs). ok x" by simp
qed (use assms in \<open>auto simp: sorted_stable_sort filter_stable_sort\<close>)

lemma hd_stable_sort_minimal:
  assumes "\<forall>x\<in>set xs. ok x" and "y \<in> set xs"
  shows "\<not> lt y (hd (stable_sort lt xs))"
proof (cases "stable_sort lt xs")
  case Nil
  then have "set xs = {}" by (metis list.set(1) set_stable_sort)
  with assms(2) show ?thesis by simp
next
  case (Cons m ms)
  then have "m \<in> set xs" by (metis list.set_intros(1) set_stable_sort)
  then have "ok m" using assms(1) by blast
  from Cons assms(2) have "y = m \<or> y \<in> set ms" by (metis set_ConsD set_stable_sort)
  then show ?thesis
    using Cons sorted_stable_sort [OF assms(1)] lt_irrefl [OF \<open>ok m\<close>] by (auto simp: sorted_by_def)
qed

end

section \<open>The in-place algorithm over sort.Interface\<close>

text \<open>\<open>insertionSort\<close>: the inner loop moves element \<open>i\<close> down while it is less than its left neighbour.\<close>

fun sift :: "('s \<Rightarrow> nat \<Rightarrow> nat \<Rightarrow> bool) \<Rightarrow> ('s \<Rightarrow> nat \<Rightarrow> nat \<Rightarrow> 's) \<Rightarrow> 's \<Rightarrow> nat \<Rightarrow> 's" where
  "sift Less Swap s 0 = s"
| "sift Less Swap s (Suc j) =
     (if Less s (Suc j) j then sift Less Swap (Swap s (Suc j) j) j else s)"

definition sort_Stable :: "('s \<Rightarrow> nat) \<Rightarrow> ('s \<Rightarrow> nat \<Rightarrow> nat \<Rightarrow> bool) \<Rightarrow> ('s \<Rightarrow> nat \<Rightarrow> nat \<Rightarrow> 's) \<Rightarrow> 's \<Rightarrow> 's"
  where "sort_Stable Len Less Swap s = fold (\<lambda>i t. sift Less Swap t i) [1..<Len s] s"

locale sort_interface =
  fixes entries :: "'s \<Rightarrow> 'a list"
    and Len :: "'s \<Rightarrow> nat"
    and Less :: "'s \<Rightarrow> nat \<Rightarrow> nat \<Rightarrow> bool"
    and Swap :: "'s \<Rightarrow> nat \<Rightarrow> nat \<Rightarrow> 's"
    and lt :: "'a \<Rightarrow> 'a \<Rightarrow> bool"
    and invar :: "'s \<Rightarrow> bool"
  assumes Len_entries: "invar s \<Longrightarrow> Len s = length (entries s)"
    and Less_entries: "invar s \<Longrightarrow> i < length (entries s) \<Longrightarrow> j < length (entries s) \<Longrightarrow>
      Less s i j = lt (entries s ! i) (entries s ! j)"
    and Swap_entries: "invar s \<Longrightarrow> i < length (entries s) \<Longrightarrow> j < length (entries s) \<Longrightarrow>
      entries (Swap s i j) = (entries s)[i := entries s ! j, j := entries s ! i]"
    and Swap_invar: "invar s \<Longrightarrow> i < length (entries s) \<Longrightarrow> j < length (entries s) \<Longrightarrow> invar (Swap s i j)"
begin

lemma swap_neighbours:
  "Suc j < length xs \<Longrightarrow>
   xs[Suc j := xs ! j, j := xs ! Suc j] = take j xs @ xs ! Suc j # xs ! j # drop (Suc (Suc j)) xs"
  by (rule nth_equalityI)
    (auto simp: nth_append nth_list_update nth_Cons split: nat.splits intro!: arg_cong [of _ _ "(!) xs"])

lemma sift_entries:
  assumes "invar s" and "i < length (entries s)"
  shows "entries (sift Less Swap s i) =
           rev (rins lt (entries s ! i) (rev (take i (entries s)))) @ drop (Suc i) (entries s)
         \<and> invar (sift Less Swap s i)"
  using assms
proof (induction i arbitrary: s)
  case 0
  then show ?case by (simp add: Cons_nth_drop_Suc)
next
  case (Suc j)
  let ?xs = "entries s"
  have j: "Suc j < length ?xs" using Suc.prems(2) .
  then have tk: "rev (take (Suc j) ?xs) = ?xs ! j # rev (take j ?xs)"
    by (simp add: take_Suc_eq_app)
  have less: "Less s (Suc j) j = lt (?xs ! Suc j) (?xs ! j)"
    using Suc.prems j by (simp add: Less_entries)
  show ?case
  proof (cases "lt (?xs ! Suc j) (?xs ! j)")
    case True
    let ?t = "Swap s (Suc j) j"
    have et: "entries ?t = take j ?xs @ ?xs ! Suc j # ?xs ! j # drop (Suc (Suc j)) ?xs"
      using Suc.prems j by (simp add: Swap_entries swap_neighbours)
    have "invar ?t" using Suc.prems j by (simp add: Swap_invar)
    moreover have "j < length (entries ?t)" using et j by simp
    ultimately have "entries (sift Less Swap ?t j) =
        rev (rins lt (entries ?t ! j) (rev (take j (entries ?t)))) @ drop (Suc j) (entries ?t)
        \<and> invar (sift Less Swap ?t j)"
      by (rule Suc.IH)
    with True et tk less j show ?thesis by (simp add: nth_append min_def)
  next
    case False
    have "?xs = take j ?xs @ ?xs ! j # ?xs ! Suc j # drop (Suc (Suc j)) ?xs"
      using j by (simp add: Cons_nth_drop_Suc)
    with False less tk Suc.prems show ?thesis by simp
  qed
qed

lemma sort_prefix_entries:
  assumes "invar s" and "n \<le> length (entries s)" and "0 < n"
  shows "entries (fold (\<lambda>i t. sift Less Swap t i) [1..<n] s) =
           stable_sort lt (take n (entries s)) @ drop n (entries s)
         \<and> invar (fold (\<lambda>i t. sift Less Swap t i) [1..<n] s)"
  using assms(2,3)
proof (induction n)
  case 0
  then show ?case by simp
next
  case (Suc n)
  let ?xs = "entries s"
  show ?case
  proof (cases "n = 0")
    case True
    with Suc.prems assms(1) show ?thesis
      by (cases ?xs) (simp_all add: stable_sort_def)
  next
    case False
    let ?t = "fold (\<lambda>i t. sift Less Swap t i) [1..<n] s"
    from False Suc have et: "entries ?t = stable_sort lt (take n ?xs) @ drop n ?xs" and it: "invar ?t"
      by auto
    have n: "n < length ?xs" using Suc.prems by simp
    then have "n < length (entries ?t)" using et by simp
    from sift_entries [OF it this] et n
    have "entries (sift Less Swap ?t n) =
        rev (rins lt (?xs ! n) (rev (stable_sort lt (take n ?xs)))) @ drop (Suc n) ?xs
        \<and> invar (sift Less Swap ?t n)"
      by (simp add: nth_append min_def)
    moreover have "rev (rins lt (?xs ! n) (rev (stable_sort lt (take n ?xs)))) =
        stable_sort lt (take (Suc n) ?xs)"
      using n by (simp add: stable_sort_def take_Suc_eq_app)
    ultimately show ?thesis using False by simp
  qed
qed

lemma sort_Stable_entries:
  assumes "invar s"
  shows "entries (sort_Stable Len Less Swap s) = stable_sort lt (entries s)"
    and "invar (sort_Stable Len Less Swap s)"
proof -
  have "entries (sort_Stable Len Less Swap s) = stable_sort lt (entries s) \<and>
    invar (sort_Stable Len Less Swap s)"
  proof (cases "entries s = []")
    case True
    with assms show ?thesis by (simp add: sort_Stable_def Len_entries stable_sort_def)
  next
    case False
    with assms sort_prefix_entries [OF assms, of "length (entries s)"] show ?thesis
      by (simp add: sort_Stable_def Len_entries)
  qed
  then show "entries (sort_Stable Len Less Swap s) = stable_sort lt (entries s)"
    and "invar (sort_Stable Len Less Swap s)" by auto
qed

end

end
