(* ===== verification/Net_IP.thy ===== *)
theory Net_IP
  imports Go_Strings
begin

text \<open>
  IP addresses as the program uses them: \<open>net.IP\<close> (a byte slice of any length), \<open>net.IPAddr\<close>, and
  \<open>netip.Addr\<close> (invalid, four bytes, or sixteen bytes with a zone), with the methods of Go's
  \<open>net\<close> and \<open>net/netip\<close> packages that the sources call.  Prefix containment is stated on bits,
  most significant first.
\<close>

section \<open>Types\<close>

record net_IPAddr =
  IP :: bytes
  Zone :: string

datatype netip_Addr = NoAddr | Addr4 bytes | Addr16 bytes string

definition wf_Addr :: "netip_Addr \<Rightarrow> bool" where
  "wf_Addr a \<longleftrightarrow> (case a of NoAddr \<Rightarrow> True | Addr4 b \<Rightarrow> length b = 4 | Addr16 b z \<Rightarrow> length b = 16)"

section \<open>Bits of an address\<close>

definition byte_bits :: "byte \<Rightarrow> bool list" where
  "byte_bits b = map (bit b) [7, 6, 5, 4, 3, 2, 1, 0]"

definition addr_bits :: "bytes \<Rightarrow> bool list" where
  "addr_bits bs = concat (map byte_bits bs)"

lemma length_byte_bits [simp]: "length (byte_bits b) = 8"
  by (simp add: byte_bits_def)

lemma length_addr_bits [simp]: "length (addr_bits bs) = 8 * length bs"
  by (induction bs) (auto simp: addr_bits_def)

lemma addr_bits_Nil [simp]: "addr_bits [] = []"
  by (simp add: addr_bits_def)

lemma addr_bits_Cons [simp]: "addr_bits (b # bs) = byte_bits b @ addr_bits bs"
  by (simp add: addr_bits_def)

lemma byte_bits_inject [simp]: "byte_bits a = byte_bits b \<longleftrightarrow> a = b"
proof
  assume eq: "byte_bits a = byte_bits b"
  show "a = b"
  proof (rule bit_word_eqI)
    fix n assume "n < LENGTH(8)"
    then have "n = 0 \<or> n = 1 \<or> n = 2 \<or> n = 3 \<or> n = 4 \<or> n = 5 \<or> n = 6 \<or> n = 7" by auto
    then show "bit a n = bit b n" using eq by (auto simp: byte_bits_def)
  qed
qed simp

lemma addr_bits_inject: "length as = length bs \<Longrightarrow> addr_bits as = addr_bits bs \<longleftrightarrow> as = bs"
  by (induction as bs rule: list_induct2) auto

lemma take_addr_bits: "take (8 * k) (addr_bits bs) = addr_bits (take k bs)"
proof (induction k arbitrary: bs)
  case 0
  then show ?case by simp
next
  case (Suc k)
  show ?case
  proof (cases bs)
    case (Cons b bs')
    have "take (8 * Suc k) (addr_bits bs) = byte_bits b @ take (8 * k) (addr_bits bs')"
      using Cons by (simp add: take_Cons' algebra_simps)
    with Suc Cons show ?thesis by simp
  qed simp
qed

section \<open>net/netip\<close>

definition netip_AddrFromSlice :: "bytes \<Rightarrow> netip_Addr option" where
  "netip_AddrFromSlice b =
     (if length b = 4 then Some (Addr4 b) else if length b = 16 then Some (Addr16 b []) else None)"

text \<open>The address alone, with the zero \<open>Addr\<close> where \<open>AddrFromSlice\<close> reports failure.\<close>

definition addr_of_slice :: "bytes \<Rightarrow> netip_Addr" where
  "addr_of_slice b = (case netip_AddrFromSlice b of None \<Rightarrow> NoAddr | Some a \<Rightarrow> a)"

definition Addr_IsValid :: "netip_Addr \<Rightarrow> bool" where
  "Addr_IsValid a \<longleftrightarrow> a \<noteq> NoAddr"

definition mapped_prefix :: bytes where
  "mapped_prefix = replicate 10 0 @ [0xff, 0xff]"

fun Addr_Is4 :: "netip_Addr \<Rightarrow> bool" where
  "Addr_Is4 (Addr4 b) = True"
| "Addr_Is4 _ = False"

fun Addr_Is6 :: "netip_Addr \<Rightarrow> bool" where
  "Addr_Is6 (Addr16 b z) = True"
| "Addr_Is6 _ = False"

fun Addr_Is4In6 :: "netip_Addr \<Rightarrow> bool" where
  "Addr_Is4In6 (Addr16 b z) = (take 12 b = mapped_prefix)"
| "Addr_Is4In6 _ = False"

fun Addr_Unmap :: "netip_Addr \<Rightarrow> netip_Addr" where
  "Addr_Unmap (Addr16 b z) = (if take 12 b = mapped_prefix then Addr4 (drop 12 b) else Addr16 b z)"
| "Addr_Unmap a = a"

fun Addr_As16 :: "netip_Addr \<Rightarrow> bytes" where
  "Addr_As16 NoAddr = replicate 16 0"
| "Addr_As16 (Addr4 b) = mapped_prefix @ b"
| "Addr_As16 (Addr16 b z) = b"

fun Addr_AsSlice :: "netip_Addr \<Rightarrow> bytes" where
  "Addr_AsSlice NoAddr = []"
| "Addr_AsSlice (Addr4 b) = b"
| "Addr_AsSlice (Addr16 b z) = b"

text \<open>The classification methods look through an IPv4-mapped IPv6 address first.\<close>

definition Addr_IsLoopback :: "netip_Addr \<Rightarrow> bool" where
  "Addr_IsLoopback a =
     (case Addr_Unmap a of
        NoAddr \<Rightarrow> False
      | Addr4 b \<Rightarrow> b ! 0 = 127
      | Addr16 b z \<Rightarrow> b = replicate 15 0 @ [1])"

definition Addr_IsLinkLocalUnicast :: "netip_Addr \<Rightarrow> bool" where
  "Addr_IsLinkLocalUnicast a =
     (case Addr_Unmap a of
        NoAddr \<Rightarrow> False
      | Addr4 b \<Rightarrow> b ! 0 = 169 \<and> b ! 1 = 254
      | Addr16 b z \<Rightarrow> b ! 0 = 0xfe \<and> and (b ! 1) 0xc0 = 0x80)"

definition Addr_IsMulticast :: "netip_Addr \<Rightarrow> bool" where
  "Addr_IsMulticast a =
     (case Addr_Unmap a of
        NoAddr \<Rightarrow> False
      | Addr4 b \<Rightarrow> and (b ! 0) 0xf0 = 0xe0
      | Addr16 b z \<Rightarrow> b ! 0 = 0xff)"

text \<open>
  \<open>Prefix.Contains\<close> for a sixteen byte prefix: IPv4 addresses and addresses with a zone are in no
  such prefix.
\<close>

type_synonym netip_Prefix = "bytes \<times> nat"

definition Prefix_Contains :: "netip_Prefix \<Rightarrow> netip_Addr \<Rightarrow> bool" where
  "Prefix_Contains p a =
     (case a of
        Addr16 b z \<Rightarrow> z = [] \<and> take (snd p) (addr_bits b) = take (snd p) (addr_bits (fst p))
      | _ \<Rightarrow> False)"

lemma Prefix_Contains_bytes:
  assumes "length b = 16" and "length p = 16" and "k \<le> 16"
  shows "Prefix_Contains (p, 8 * k) (Addr16 b []) \<longleftrightarrow> take k b = take k p"
  using assms by (simp add: Prefix_Contains_def take_addr_bits addr_bits_inject)

lemma wf_addr_of_slice [simp, wf_intros]: "wf_Addr (addr_of_slice b)"
  by (simp add: wf_Addr_def addr_of_slice_def netip_AddrFromSlice_def)

lemma AddrFromSlice_Some:
  "netip_AddrFromSlice b = Some a \<Longrightarrow> wf_Addr a \<and> Addr_IsValid a \<and> Addr_AsSlice a = b"
  by (auto simp: netip_AddrFromSlice_def wf_Addr_def Addr_IsValid_def split: if_splits)

lemma wf_Addr_Unmap [simp, wf_intros]: "wf_Addr a \<Longrightarrow> wf_Addr (Addr_Unmap a)"
  by (cases a) (auto simp: wf_Addr_def)

lemma Unmap_IsValid [simp]: "Addr_IsValid (Addr_Unmap a) = Addr_IsValid a"
  by (cases a) (auto simp: Addr_IsValid_def)

lemma length_As16: "wf_Addr a \<Longrightarrow> length (Addr_As16 a) = 16"
  by (cases a) (auto simp: wf_Addr_def mapped_prefix_def)

section \<open>net.IP\<close>

definition IP_To4 :: "bytes \<Rightarrow> bytes option" where
  "IP_To4 ip =
     (if length ip = 4 then Some ip
      else if length ip = 16 \<and> take 12 ip = mapped_prefix then Some (drop 12 ip)
      else None)"

definition IP_Equal :: "bytes \<Rightarrow> bytes \<Rightarrow> bool" where
  "IP_Equal x y =
     (if length x = length y then x = y
      else if length x = 4 \<and> length y = 16 then y = mapped_prefix @ x
      else if length x = 16 \<and> length y = 4 then x = mapped_prefix @ y
      else False)"

definition IP_IsLoopback :: "bytes \<Rightarrow> bool" where
  "IP_IsLoopback ip =
     (case IP_To4 ip of
        Some ip4 \<Rightarrow> ip4 ! 0 = 127
      | None \<Rightarrow> IP_Equal ip (replicate 15 0 @ [1]))"

lemma length_IP_To4: "IP_To4 ip = Some b \<Longrightarrow> length b = 4"
  by (auto simp: IP_To4_def split: if_splits)

lemma length_mapped_prefix [simp]: "length mapped_prefix = 12"
  by (simp add: mapped_prefix_def)

text \<open>\<open>Equal\<close> is equality of the addresses in their sixteen byte form.\<close>

lemma IP_Equal_As16:
  assumes "length x = 4 \<or> length x = 16" and "length y = 4 \<or> length y = 16"
  shows "IP_Equal x y \<longleftrightarrow> Addr_As16 (addr_of_slice x) = Addr_As16 (addr_of_slice y)"
  using assms by (auto simp: IP_Equal_def addr_of_slice_def netip_AddrFromSlice_def)

end
