(* ===== verification/Addr_Select.thy ===== *)
theory Addr_Select
  imports Net_IP Sort_Interface "HOL-Library.Product_Lexorder"
begin

unbundle bit_operations_syntax

text \<open>
  Package \<open>dns/addrselect\<close>, file \<open>addrselect.go\<close>: RFC 6724 destination address selection.  The
  policy table and its longest-prefix classification, scopes, the common prefix length, source
  address discovery against the host's interfaces (\<open>net_env\<close> is what the operating system
  answers), the comparison \<open>Less\<close> with its ten rules and the sort.  The results: \<open>Less\<close> is the
  lexicographic order of a rank vector, hence a strict weak order, hence the sort returns the
  unique stable arrangement of the addresses by preference.
\<close>

section \<open>Policy table\<close>

record policyTableEntry =
  Prefix :: netip_Prefix
  Precedence :: byte
  Label :: byte

definition prefix16 :: "bytes \<Rightarrow> bytes" where
  "prefix16 bs = bs @ replicate (16 - length bs) 0"

definition rfc6724policyTable :: "policyTableEntry list" where
  "rfc6724policyTable =
    [\<lparr>Prefix = (replicate 15 0 @ [0x01], 128), Precedence = 50, Label = 0\<rparr>,
     \<lparr>Prefix = (prefix16 [0, 0, 0, 0, 0, 0, 0, 0, 0, 0, 0xff, 0xff], 96), Precedence = 35, Label = 4\<rparr>,
     \<lparr>Prefix = (prefix16 [], 96), Precedence = 1, Label = 3\<rparr>,
     \<lparr>Prefix = (prefix16 [0x20, 0x01], 32), Precedence = 5, Label = 5\<rparr>,
     \<lparr>Prefix = (prefix16 [0x20, 0x02], 16), Precedence = 30, Label = 2\<rparr>,
     \<lparr>Prefix = (prefix16 [0x3f, 0xfe], 16), Precedence = 1, Label = 12\<rparr>,
     \<lparr>Prefix = (prefix16 [0xfe, 0xc0], 10), Precedence = 1, Label = 11\<rparr>,
     \<lparr>Prefix = (prefix16 [0xfc], 7), Precedence = 3, Label = 13\<rparr>,
     \<lparr>Prefix = (prefix16 [], 0), Precedence = 40, Label = 1\<rparr>]"

definition emptyEntry :: policyTableEntry where
  "emptyEntry = \<lparr>Prefix = ([], 0), Precedence = 0, Label = 0\<rparr>"

fun first_containing :: "policyTableEntry list \<Rightarrow> netip_Addr \<Rightarrow> policyTableEntry" where
  "first_containing [] ip = emptyEntry"
| "first_containing (ent # t) ip =
     (if Prefix_Contains (Prefix ent) ip then ent else first_containing t ip)"

definition Classify :: "policyTableEntry list \<Rightarrow> netip_Addr \<Rightarrow> policyTableEntry" where
  "Classify t ip = first_containing t (if Addr_Is4 ip then Addr16 (Addr_As16 ip) [] else ip)"

section \<open>Scopes\<close>

definition scopeInterfaceLocal :: byte where "scopeInterfaceLocal = 0x1"
definition scopeLinkLocal :: byte where "scopeLinkLocal = 0x2"
definition scopeAdminLocal :: byte where "scopeAdminLocal = 0x4"
definition scopeSiteLocal :: byte where "scopeSiteLocal = 0x5"
definition scopeOrgLocal :: byte where "scopeOrgLocal = 0x8"
definition scopeGlobal :: byte where "scopeGlobal = 0xe"

definition classifyScope :: "netip_Addr \<Rightarrow> byte" where
  "classifyScope ip =
     (if Addr_IsLoopback ip \<or> Addr_IsLinkLocalUnicast ip then scopeLinkLocal
      else
        let ipv6 = (Addr_Is6 ip \<and> \<not> Addr_Is4In6 ip);
            ipv6AsBytes = Addr_As16 ip
        in if ipv6 \<and> Addr_IsMulticast ip then (ipv6AsBytes ! 1) AND 0xf
           else if ipv6 \<and> ipv6AsBytes ! 0 = 0xfe \<and> (ipv6AsBytes ! 1) AND 0xc0 = 0xc0 then scopeSiteLocal
           else scopeGlobal)"

section \<open>Common prefix length\<close>

definition LeadingZeros8 :: "byte \<Rightarrow> nat" where
  "LeadingZeros8 x = length (takeWhile Not (byte_bits x))"

text \<open>The loop: eight for each equal byte, then the leading zeros of the first difference.\<close>

fun cpl_loop :: "bytes \<Rightarrow> bytes \<Rightarrow> nat \<Rightarrow> nat" where
  "cpl_loop (a # as) (b # bs) cpl =
     (let diff = a XOR b
      in if diff = 0 then cpl_loop as bs (cpl + 8) else cpl + LeadingZeros8 diff)"
| "cpl_loop _ _ cpl = cpl"

definition commonPrefixLen :: "netip_Addr \<Rightarrow> bytes \<Rightarrow> nat" where
  "commonPrefixLen a b0 =
     (let b = (case IP_To4 b0 of Some b4 \<Rightarrow> b4 | None \<Rightarrow> b0);
          aAsSlice = Addr_AsSlice a
      in if length aAsSlice \<noteq> length b then 0
         else if 8 < length aAsSlice then cpl_loop (take 8 aAsSlice) (take 8 b) 0
         else cpl_loop aAsSlice b 0)"

section \<open>Attributes of an address\<close>

record srcInfo =
  src_Addr :: netip_Addr
  src_IsNative :: bool
  src_IsDeprecated :: bool
  src_IsHome :: bool

record ipAttr =
  attr_Scope :: byte
  attr_Precedence :: byte
  attr_Label :: byte
  attr_IsNative :: bool
  attr_IsDeprecated :: bool
  attr_IsHome :: bool

definition ipAttrOf :: "netip_Addr \<Rightarrow> ipAttr" where
  "ipAttrOf ip =
     (if \<not> Addr_IsValid ip
      then \<lparr>attr_Scope = 0, attr_Precedence = 0, attr_Label = 0,
            attr_IsNative = False, attr_IsDeprecated = False, attr_IsHome = False\<rparr>
      else
        let m = Classify rfc6724policyTable ip
        in \<lparr>attr_Scope = classifyScope ip, attr_Precedence = Precedence m, attr_Label = Label m,
            attr_IsNative = False, attr_IsDeprecated = False, attr_IsHome = False\<rparr>)"

section \<open>Source addresses\<close>

record net_Interface =
  if_Name :: string
  if_Flags :: uint64

datatype net_Addr = IPNet bytes | OtherAddr

record addrFlags =
  IsDeprecated :: bool
  IsHome :: bool

text \<open>
  What the operating system answers: the local address a UDP socket connected to a destination
  gets (\<open>None\<close> when the dial fails), the interfaces with their addresses, and the flags of the
  host's own IPv6 addresses (\<open>None\<close> where \<open>getAddrFlags\<close> returns nil).
\<close>

record net_env =
  dialUDP :: "bytes \<Rightarrow> string \<Rightarrow> bytes option"
  interfaces :: "(net_Interface \<times> net_Addr list) list"
  addrFlagsMap :: "(netip_Addr \<rightharpoonup> addrFlags) option"

definition isNative :: "net_Interface option \<Rightarrow> bool" where
  "isNative ifc =
     (case ifc of
        None \<Rightarrow> True
      | Some iface \<Rightarrow>
          if if_Flags iface AND 8 \<noteq> 0 then False
          else
            let name = if_Name iface
            in if strings_HasPrefix name ''tun'' \<or> strings_HasPrefix name ''tap'' \<or>
                  strings_HasPrefix name ''sit'' \<or> strings_HasPrefix name ''ip6tnl'' \<or>
                  strings_HasPrefix name ''he-ipv6''
               then False else True)"

fun add_iface_addr :: "net_Interface \<Rightarrow> net_Addr \<Rightarrow> (netip_Addr \<rightharpoonup> net_Interface) \<Rightarrow> (netip_Addr \<rightharpoonup> net_Interface)"
  where
  "add_iface_addr iface (IPNet ip) m =
     (case netip_AddrFromSlice ip of Some addr \<Rightarrow> m(Addr_Unmap addr \<mapsto> iface) | None \<Rightarrow> m)"
| "add_iface_addr iface OtherAddr m = m"

definition initInterfaces :: "(net_Interface \<times> net_Addr list) list \<Rightarrow> (netip_Addr \<rightharpoonup> net_Interface)" where
  "initInterfaces ifaces = fold (\<lambda>(iface, addrs). fold (add_iface_addr iface) addrs) ifaces Map.empty"

definition zeroSrc :: srcInfo where
  "zeroSrc = \<lparr>src_Addr = NoAddr, src_IsNative = False, src_IsDeprecated = False, src_IsHome = False\<rparr>"

text \<open>The body of the loop of \<open>defaultSrcAddrs\<close> for one destination.\<close>

definition srcInfoFor :: "net_env \<Rightarrow> net_IPAddr \<Rightarrow> srcInfo" where
  "srcInfoFor env a =
     (case dialUDP env (IP a) (Zone a) of
        None \<Rightarrow> zeroSrc
      | Some local \<Rightarrow>
          (case netip_AddrFromSlice local of
             None \<Rightarrow> zeroSrc
           | Some addr0 \<Rightarrow>
               let addr = Addr_Unmap addr0
               in \<lparr>src_Addr = addr,
                   src_IsNative =
                     (case initInterfaces (interfaces env) addr of
                        Some iface \<Rightarrow> isNative (Some iface)
                      | None \<Rightarrow> True),
                   src_IsDeprecated =
                     (case addrFlagsMap env of
                        None \<Rightarrow> False
                      | Some m \<Rightarrow> (case m addr of None \<Rightarrow> False | Some f \<Rightarrow> IsDeprecated f)),
                   src_IsHome =
                     (case addrFlagsMap env of
                        None \<Rightarrow> False
                      | Some m \<Rightarrow> (case m addr of None \<Rightarrow> False | Some f \<Rightarrow> IsHome f))\<rparr>))"

definition defaultSrcAddrs :: "net_env \<Rightarrow> net_IPAddr list \<Rightarrow> srcInfo list" where
  "defaultSrcAddrs env addrs = map (srcInfoFor env) addrs"

section \<open>The comparison\<close>

record byRFC6724 =
  by_addrs :: "net_IPAddr list"
  by_addrAttr :: "ipAttr list"
  by_srcs :: "srcInfo list"
  by_srcAttr :: "ipAttr list"

record rfc_entry =
  e_addr :: net_IPAddr
  e_addrAttr :: ipAttr
  e_src :: srcInfo
  e_srcAttr :: ipAttr

definition byRFC6724_Len :: "byRFC6724 \<Rightarrow> nat" where
  "byRFC6724_Len s = length (by_addrs s)"

definition swap_nth :: "'a list \<Rightarrow> nat \<Rightarrow> nat \<Rightarrow> 'a list" where
  "swap_nth xs i j = xs[i := xs ! j, j := xs ! i]"

definition byRFC6724_Swap :: "byRFC6724 \<Rightarrow> nat \<Rightarrow> nat \<Rightarrow> byRFC6724" where
  "byRFC6724_Swap s i j =
     \<lparr>by_addrs = swap_nth (by_addrs s) i j, by_addrAttr = swap_nth (by_addrAttr s) i j,
      by_srcs = swap_nth (by_srcs s) i j, by_srcAttr = swap_nth (by_srcAttr s) i j\<rparr>"

text \<open>The ten rules of RFC 6724 section 6 in the order of the code.\<close>

definition rfc6724_less :: "rfc_entry \<Rightarrow> rfc_entry \<Rightarrow> bool" where
  "rfc6724_less a b =
     (let DA = IP (e_addr a);
          DB = IP (e_addr b);
          SourceDA = src_Addr (e_src a);
          SourceDB = src_Addr (e_src b);
          attrDA = e_addrAttr a;
          attrDB = e_addrAttr b;
          attrSourceDA = e_srcAttr a;
          attrSourceDB = e_srcAttr b
      in
      if \<not> Addr_IsValid SourceDA \<and> \<not> Addr_IsValid SourceDB then False
      else if \<not> Addr_IsValid SourceDB then True
      else if \<not> Addr_IsValid SourceDA then False
      else if attr_Scope attrDA = attr_Scope attrSourceDA \<and> attr_Scope attrDB \<noteq> attr_Scope attrSourceDB then True
      else if attr_Scope attrDA \<noteq> attr_Scope attrSourceDA \<and> attr_Scope attrDB = attr_Scope attrSourceDB then False
      else if attr_IsDeprecated attrSourceDA \<and> \<not> attr_IsDeprecated attrSourceDB then False
      else if \<not> attr_IsDeprecated attrSourceDA \<and> attr_IsDeprecated attrSourceDB then True
      else if attr_IsHome attrSourceDA \<and> \<not> attr_IsHome attrSourceDB then True
      else if \<not> attr_IsHome attrSourceDA \<and> attr_IsHome attrSourceDB then False
      else if attr_Label attrSourceDA = attr_Label attrDA \<and> attr_Label attrSourceDB \<noteq> attr_Label attrDB then True
      else if attr_Label attrSourceDA \<noteq> attr_Label attrDA \<and> attr_Label attrSourceDB = attr_Label attrDB then False
      else if attr_Precedence attrDA > attr_Precedence attrDB then True
      else if attr_Precedence attrDA < attr_Precedence attrDB then False
      else if attr_IsNative attrSourceDA \<and> \<not> attr_IsNative attrSourceDB then True
      else if \<not> attr_IsNative attrSourceDA \<and> attr_IsNative attrSourceDB then False
      else if attr_Scope attrDA < attr_Scope attrDB then True
      else if attr_Scope attrDA > attr_Scope attrDB then False
      else if IP_To4 DA = None \<and> IP_To4 DB = None
        then
          let commonA = commonPrefixLen SourceDA DA;
              commonB = commonPrefixLen SourceDB DB
          in if commonA > commonB then True
             else if commonA < commonB then False
             else False
      else False)"

definition entry_at :: "byRFC6724 \<Rightarrow> nat \<Rightarrow> rfc_entry" where
  "entry_at s i =
     \<lparr>e_addr = by_addrs s ! i, e_addrAttr = by_addrAttr s ! i,
      e_src = by_srcs s ! i, e_srcAttr = by_srcAttr s ! i\<rparr>"

definition byRFC6724_Less :: "byRFC6724 \<Rightarrow> nat \<Rightarrow> nat \<Rightarrow> bool" where
  "byRFC6724_Less s i j = rfc6724_less (entry_at s i) (entry_at s j)"

section \<open>The sort\<close>

definition srcAttrOf :: "srcInfo \<Rightarrow> ipAttr" where
  "srcAttrOf si = (ipAttrOf (src_Addr si))
     \<lparr>attr_IsNative := src_IsNative si, attr_IsDeprecated := src_IsDeprecated si,
      attr_IsHome := src_IsHome si\<rparr>"

definition sortByRFC6724withSrcs :: "net_IPAddr list \<Rightarrow> srcInfo list \<Rightarrow> net_IPAddr list result" where
  "sortByRFC6724withSrcs as ss =
     (if length as \<noteq> length ss then Inl (ErrString ''internal error'')
      else Inr (by_addrs (sort_Stable byRFC6724_Len byRFC6724_Less byRFC6724_Swap
             \<lparr>by_addrs = as,
              by_addrAttr = map (\<lambda>v. ipAttrOf (addr_of_slice (IP v))) as,
              by_srcs = ss,
              by_srcAttr = map srcAttrOf ss\<rparr>)))"

definition SortByRFC6724 :: "(net_IPAddr list \<Rightarrow> srcInfo list) \<Rightarrow> net_IPAddr list \<Rightarrow> net_IPAddr list result" where
  "SortByRFC6724 srcAddrs as =
     (if length as < 2 then Inr as else sortByRFC6724withSrcs as (srcAddrs as))"

section \<open>Common prefixes on bits\<close>

text \<open>The reference: the number of leading bits two bit strings share.\<close>

fun lcp :: "bool list \<Rightarrow> bool list \<Rightarrow> nat" where
  "lcp (x # xs) (y # ys) = (if x = y then Suc (lcp xs ys) else 0)"
| "lcp _ _ = 0"

lemma lcp_append_same: "lcp (zs @ xs) (zs @ ys) = length zs + lcp xs ys"
  by (induction zs) auto

lemma lcp_append_diff: "length as = length bs \<Longrightarrow> as \<noteq> bs \<Longrightarrow> lcp (as @ xs) (bs @ ys) = lcp as bs"
  by (induction as bs rule: list_induct2) auto

lemma lcp_map: "lcp (map f ns) (map g ns) = length (takeWhile (\<lambda>n. f n = g n) ns)"
  by (induction ns) auto

lemma lcp_byte_bits: "lcp (byte_bits a) (byte_bits b) = LeadingZeros8 (a XOR b)"
  unfolding byte_bits_def LeadingZeros8_def lcp_map takeWhile_map
  by (simp add: bit_xor_iff comp_def del: list.map takeWhile.simps)

lemma xor_eq_0_iff_eq: "(a :: byte) XOR b = 0 \<longleftrightarrow> a = b"
  by (auto simp: bit_eq_iff bit_xor_iff)

lemma cpl_loop_lcp: "length as = length bs \<Longrightarrow> cpl_loop as bs n = n + lcp (addr_bits as) (addr_bits bs)"
proof (induction as bs arbitrary: n rule: list_induct2)
  case Nil
  then show ?case by simp
next
  case (Cons a as b bs)
  then show ?case
    by (auto simp: Let_def xor_eq_0_iff_eq lcp_append_same lcp_append_diff lcp_byte_bits)
qed

lemma lcp_le: "lcp xs ys \<le> length xs"
  by (induction xs ys rule: lcp.induct) auto

lemma commonPrefixLen_le: "commonPrefixLen a b \<le> 64"
proof -
  have "cpl_loop xs ys 0 \<le> 64" if "length xs = length ys" "length xs \<le> 8" for xs ys :: bytes
    using that lcp_le [of "addr_bits xs" "addr_bits ys"] by (simp add: cpl_loop_lcp)
  then show ?thesis by (auto simp: commonPrefixLen_def Let_def split: option.splits)
qed


section \<open>The precedence tells the address families apart\<close>

lemma prefix16_len: "length bs \<le> 16 \<Longrightarrow> length (prefix16 bs) = 16"
  by (simp add: prefix16_def)

lemma mapped_contains:
  "length b = 16 \<Longrightarrow> Prefix_Contains (prefix16 [0, 0, 0, 0, 0, 0, 0, 0, 0, 0, 0xff, 0xff], 96) (Addr16 b []) \<longleftrightarrow> take 12 b = mapped_prefix"
  using Prefix_Contains_bytes [of b "prefix16 [0, 0, 0, 0, 0, 0, 0, 0, 0, 0, 0xff, 0xff]" 12]
  by (simp add: prefix16_def mapped_prefix_def eval_nat_numeral)

lemma loop_contains:
  "length b = 16 \<Longrightarrow> Prefix_Contains (replicate 15 0 @ [1], 128) (Addr16 b []) \<longleftrightarrow> b = replicate 15 0 @ [1]"
  using Prefix_Contains_bytes [of b "replicate 15 0 @ [1]" 16]
  by simp

lemma mapped_prefix_nth: "mapped_prefix ! 10 \<noteq> 0"
  by (simp add: mapped_prefix_def nth_append)

lemma Precedence_v6:
  assumes "length b = 16"
  shows "Precedence (Classify rfc6724policyTable (Addr16 b [])) = 35 \<longleftrightarrow> take 12 b = mapped_prefix"
proof (cases "take 12 b = mapped_prefix")
  case True
  then have "take 12 b ! 10 \<noteq> 0" using mapped_prefix_nth by simp
  then have "b ! 10 \<noteq> 0" by simp
  then have "b \<noteq> replicate 15 0 @ [1]" by (auto simp: nth_append)
  with True assms show ?thesis
    by (simp add: Classify_def rfc6724policyTable_def mapped_contains loop_contains)
next
  case False
  with assms show ?thesis
    by (simp add: Classify_def rfc6724policyTable_def mapped_contains loop_contains emptyEntry_def)
qed

lemma Classify_Addr4: "length b = 4 \<Longrightarrow> Classify t (Addr4 b) = Classify t (Addr16 (mapped_prefix @ b) [])"
  by (simp add: Classify_def)

lemma Precedence_IPv4:
  "attr_Precedence (ipAttrOf (addr_of_slice ip)) = 35 \<longleftrightarrow> IP_To4 ip \<noteq> None"
  by (auto simp: ipAttrOf_def addr_of_slice_def netip_AddrFromSlice_def Addr_IsValid_def IP_To4_def
      Let_def Classify_Addr4 Precedence_v6)

section \<open>Less is a lexicographic comparison\<close>

text \<open>
  An entry is consistent when its attributes are those of its address, as
  \<open>sortByRFC6724withSrcs\<close> computes them.  Rule 9 compares prefix lengths only between two IPv6
  destinations; it is still part of a lexicographic order because entries that reach rule 9
  have equal precedence, and precedence 35 is that of the IPv4 addresses and of no other.
\<close>

definition entry_ok :: "rfc_entry \<Rightarrow> bool" where
  "entry_ok e \<longleftrightarrow> e_addrAttr e = ipAttrOf (addr_of_slice (IP (e_addr e)))"

definition rfc_rank :: "rfc_entry \<Rightarrow> nat \<times> nat \<times> nat \<times> nat \<times> nat \<times> nat \<times> nat \<times> nat \<times> nat" where
  "rfc_rank e =
     (if \<not> Addr_IsValid (src_Addr (e_src e)) then (1, 0, 0, 0, 0, 0, 0, 0, 0)
      else
        (0,
         of_bool (attr_Scope (e_addrAttr e) \<noteq> attr_Scope (e_srcAttr e)),
         of_bool (attr_IsDeprecated (e_srcAttr e)),
         of_bool (\<not> attr_IsHome (e_srcAttr e)),
         of_bool (attr_Label (e_srcAttr e) \<noteq> attr_Label (e_addrAttr e)),
         255 - unat (attr_Precedence (e_addrAttr e)),
         of_bool (\<not> attr_IsNative (e_srcAttr e)),
         unat (attr_Scope (e_addrAttr e)),
         (if IP_To4 (IP (e_addr e)) = None then 64 - commonPrefixLen (src_Addr (e_src e)) (IP (e_addr e))
          else 0)))"

lemma lex_step: "(x, y) < (x', y') \<longleftrightarrow> (if x < x' then True else if x' < x then False else y < y')"
  for x x' :: nat and y y' :: "'b :: linorder"
  by (auto simp: less_prod_def)

lemma byte_rank: "255 - unat (a :: byte) < 255 - unat b \<longleftrightarrow> b < a"
  using unat_byte_less [of a] unat_byte_less [of b] by (auto simp: word_less_nat_alt)

lemma of_bool_less: "(of_bool P :: nat) < of_bool Q \<longleftrightarrow> \<not> P \<and> Q"
  by auto

lemma rfc6724_less_rank:
  assumes "entry_ok a" and "entry_ok b"
  shows "rfc6724_less a b \<longleftrightarrow> rfc_rank a < rfc_rank b"
proof (cases "Addr_IsValid (src_Addr (e_src a)) \<and> Addr_IsValid (src_Addr (e_src b))")
  case False
  then show ?thesis by (auto simp: rfc6724_less_def rfc_rank_def Let_def lex_step)
next
  case True
  have p: "attr_Precedence (e_addrAttr x) = 35 \<longleftrightarrow> IP_To4 (IP (e_addr x)) \<noteq> None" if "entry_ok x" for x
    using that Precedence_IPv4 [of "IP (e_addr x)"] by (simp add: entry_ok_def)
  have fam: "IP_To4 (IP (e_addr a)) = None \<longleftrightarrow> IP_To4 (IP (e_addr b)) = None"
    if "\<not> attr_Precedence (e_addrAttr b) < attr_Precedence (e_addrAttr a)"
      "\<not> attr_Precedence (e_addrAttr a) < attr_Precedence (e_addrAttr b)"
    using that p [OF assms(1)] p [OF assms(2)] by (metis antisym_conv3)
  have c: "64 - commonPrefixLen x y < 64 - commonPrefixLen x' y' \<longleftrightarrow> commonPrefixLen x' y' < commonPrefixLen x y"
    for x y x' y'
    using commonPrefixLen_le [of x y] commonPrefixLen_le [of x' y'] by auto
  have flip: "(if P \<and> \<not> Q then False else if \<not> P \<and> Q then True else R) =
      (if \<not> P \<and> Q then True else if P \<and> \<not> Q then False else R)" for P Q R
    by auto
  have v: "Addr_IsValid (src_Addr (e_src a))" "Addr_IsValid (src_Addr (e_src b))" using True by auto
  show ?thesis
    unfolding rfc6724_less_def rfc_rank_def Let_def
    apply (simp only: v if_not_P if_P simp_thms lex_step less_irrefl if_False byte_rank of_bool_less
        word_less_nat_alt [symmetric] flip)
    apply (intro if_cong refl)
    apply (simp_all only: simp_thms conj_commute c fam if_False if_True)
    apply (simp add: c)
    done
qed

interpretation rfc: strict_weak_order entry_ok rfc6724_less
  by unfold_locales (auto simp: rfc6724_less_rank)

section \<open>The arrays behind sort.Interface\<close>

definition by_invar :: "byRFC6724 \<Rightarrow> bool" where
  "by_invar s \<longleftrightarrow> length (by_addrAttr s) = length (by_addrs s) \<and>
     length (by_srcs s) = length (by_addrs s) \<and> length (by_srcAttr s) = length (by_addrs s)"

definition by_entries :: "byRFC6724 \<Rightarrow> rfc_entry list" where
  "by_entries s = map (entry_at s) [0..<length (by_addrs s)]"

lemma length_Swap [simp]: "length (by_addrs (byRFC6724_Swap s i j)) = length (by_addrs s)"
  by (simp add: byRFC6724_Swap_def swap_nth_def)

lemma entry_at_Swap:
  assumes "by_invar s" and "i < length (by_addrs s)" and "j < length (by_addrs s)" and "k < length (by_addrs s)"
  shows "entry_at (byRFC6724_Swap s i j) k =
    (if k = j then entry_at s i else if k = i then entry_at s j else entry_at s k)"
  using assms by (auto simp: entry_at_def byRFC6724_Swap_def swap_nth_def by_invar_def nth_list_update)

interpretation by_sort: sort_interface by_entries byRFC6724_Len byRFC6724_Less byRFC6724_Swap rfc6724_less by_invar
proof unfold_locales
  fix s i j
  assume s: "by_invar s"
  show "byRFC6724_Len s = length (by_entries s)"
    by (simp add: byRFC6724_Len_def by_entries_def)
  assume i: "i < length (by_entries s)" and j: "j < length (by_entries s)"
  show "byRFC6724_Less s i j = rfc6724_less (by_entries s ! i) (by_entries s ! j)"
    using i j by (simp add: byRFC6724_Less_def by_entries_def)
  show "by_invar (byRFC6724_Swap s i j)"
    using s by (simp add: by_invar_def byRFC6724_Swap_def swap_nth_def)
  show "by_entries (byRFC6724_Swap s i j) = (by_entries s)[i := by_entries s ! j, j := by_entries s ! i]"
  proof (rule nth_equalityI)
    show "length (by_entries (byRFC6724_Swap s i j)) =
      length ((by_entries s)[i := by_entries s ! j, j := by_entries s ! i])"
      by (simp add: by_entries_def)
  next
    fix k assume "k < length (by_entries (byRFC6724_Swap s i j))"
    then have "k < length (by_addrs s)"
      by (simp add: by_entries_def)
    then show "by_entries (byRFC6724_Swap s i j) ! k =
      (by_entries s)[i := by_entries s ! j, j := by_entries s ! i] ! k"
      using s i j by (simp add: by_entries_def nth_list_update entry_at_Swap)
  qed
qed

section \<open>Destinations of one host\<close>

definition entry_of :: "net_env \<Rightarrow> net_IPAddr \<Rightarrow> rfc_entry" where
  "entry_of env a =
     \<lparr>e_addr = a, e_addrAttr = ipAttrOf (addr_of_slice (IP a)),
      e_src = srcInfoFor env a, e_srcAttr = srcAttrOf (srcInfoFor env a)\<rparr>"

definition prefers :: "net_env \<Rightarrow> net_IPAddr \<Rightarrow> net_IPAddr \<Rightarrow> bool" where
  "prefers env a b \<longleftrightarrow> rfc6724_less (entry_of env a) (entry_of env b)"

lemma entry_of_ok [simp]: "entry_ok (entry_of env a)"
  by (simp add: entry_ok_def entry_of_def)

interpretation pref: strict_weak_order "\<lambda>_. True" "prefers env" for env
  by unfold_locales
    (auto simp: prefers_def dest: rfc.lt_asym [OF entry_of_ok entry_of_ok]
       rfc.lt_cotrans [OF entry_of_ok entry_of_ok entry_of_ok])

lemma SortByRFC6724_eq: "SortByRFC6724 (defaultSrcAddrs env) as = Inr (stable_sort (prefers env) as)"
proof (cases "length as < 2")
  case True
  then show ?thesis by (simp add: SortByRFC6724_def stable_sort_short)
next
  case False
  let ?ss = "defaultSrcAddrs env as"
  let ?s = "\<lparr>by_addrs = as, by_addrAttr = map (\<lambda>v. ipAttrOf (addr_of_slice (IP v))) as,
    by_srcs = ?ss, by_srcAttr = map srcAttrOf ?ss\<rparr>"
  have inv: "by_invar ?s" by (simp add: by_invar_def defaultSrcAddrs_def)
  have ents: "by_entries ?s = map (entry_of env) as"
    by (rule nth_equalityI) (simp_all add: by_entries_def entry_at_def entry_of_def defaultSrcAddrs_def)
  have addrs: "by_addrs s = map e_addr (by_entries s)" for s
    by (rule nth_equalityI) (simp_all add: by_entries_def entry_at_def)
  have "by_addrs (sort_Stable byRFC6724_Len byRFC6724_Less byRFC6724_Swap ?s) =
    map e_addr (stable_sort rfc6724_less (map (entry_of env) as))"
    by (simp add: addrs by_sort.sort_Stable_entries(1) [OF inv] ents)
  also have "\<dots> = stable_sort (prefers env) as"
    by (simp add: stable_sort_map comp_def entry_of_def prefers_def [abs_def])
  finally show ?thesis
    using False by (simp add: SortByRFC6724_def sortByRFC6724withSrcs_def defaultSrcAddrs_def)
qed

lemma first_containing_sorted:
  assumes "sorted_wrt (\<lambda>e e'. snd (Prefix e') \<le> snd (Prefix e)) t"
    and "e \<in> set t" and "Prefix_Contains (Prefix e) ip"
  shows "first_containing t ip \<in> set t \<and> Prefix_Contains (Prefix (first_containing t ip)) ip \<and>
    snd (Prefix e) \<le> snd (Prefix (first_containing t ip))"
  using assms by (induction t) auto

lemma policyTable_sorted: "sorted_wrt (\<lambda>e e'. snd (Prefix e') \<le> snd (Prefix e)) rfc6724policyTable"
  by (simp add: rfc6724policyTable_def)

lemma policyTable_default: "\<exists>e\<in>set rfc6724policyTable. snd (Prefix e) = 0"
  by (simp add: rfc6724policyTable_def)

section \<open>Properties\<close>

text \<open>C8: Sorting the destination addresses of a host never panics; the result is a permutation of
  the addresses, ordered by RFC 6724 preference, in which addresses that are equally preferred
  keep the order in which the resolver delivered them; and it is the only such list.\<close>

theorem SortByRFC6724_correct:
  "(\<exists>ys. SortByRFC6724 (defaultSrcAddrs env) as = Inr ys) \<and>
   (SortByRFC6724 (defaultSrcAddrs env) as = Inr ys \<longleftrightarrow>
      mset ys = mset as \<and> sorted_by (prefers env) ys \<and>
      (\<forall>x. filter (eqv (prefers env) x) ys = filter (eqv (prefers env) x) as))"
  using pref.stable_sort_eqI [of as ys env]
  by (auto simp: SortByRFC6724_eq mset_stable_sort pref.sorted_stable_sort pref.filter_stable_sort)

definition demo_env :: net_env where
  "demo_env = \<lparr>dialUDP = (\<lambda>ip z. if length ip = 4 then Some [192, 168, 1, 2] else None),
     interfaces = [], addrFlagsMap = None\<rparr>"

lemma demo_prefers: "prefers demo_env \<lparr>IP = [1, 1, 1, 1], Zone = []\<rparr> \<lparr>IP = replicate 16 1, Zone = []\<rparr>"
  by (simp add: prefers_def rfc6724_less_def entry_of_def srcInfoFor_def demo_env_def zeroSrc_def
      netip_AddrFromSlice_def Addr_IsValid_def Let_def)

text \<open>C20: \<open>Less\<close> on the destinations of a host is the lexicographic order of their rank vectors: usable
  source, matching scope, source not deprecated, home source, matching label, precedence, native
  transport, smaller scope, and for IPv6 the longer common prefix.\<close>

theorem prefers_lexicographic:
  "prefers env a b \<longleftrightarrow> rfc_rank (entry_of env a) < rfc_rank (entry_of env b)"
  by (simp add: prefers_def rfc6724_less_rank)

text \<open>If any destination is reachable, the first address after sorting is reachable.\<close>

lemma reachable_destination_first:
  assumes "a \<in> set as" and "Addr_IsValid (src_Addr (srcInfoFor env a))"
    and "SortByRFC6724 (defaultSrcAddrs env) as = Inr ys"
  shows "Addr_IsValid (src_Addr (srcInfoFor env (hd ys)))"
proof -
  have "\<not> prefers env a (hd ys)"
    using assms(1,3) pref.hd_stable_sort_minimal [of as a env] by (simp add: SortByRFC6724_eq)
  moreover have "prefers env a c" if "\<not> Addr_IsValid (src_Addr (srcInfoFor env c))" for c
    using assms(2) that by (simp add: prefers_def rfc6724_less_def entry_of_def)
  ultimately show ?thesis by blast
qed

text \<open>The entry with the longest prefix that contains an address.\<close>

definition longest_match :: "policyTableEntry list \<Rightarrow> netip_Addr \<Rightarrow> policyTableEntry \<Rightarrow> bool" where
  "longest_match t ip e \<longleftrightarrow> e \<in> set t \<and> Prefix_Contains (Prefix e) ip \<and>
     (\<forall>e'\<in>set t. Prefix_Contains (Prefix e') ip \<longrightarrow> snd (Prefix e') \<le> snd (Prefix e))"

lemma first_containing_longest: "longest_match rfc6724policyTable (Addr16 b []) (first_containing rfc6724policyTable (Addr16 b []))"
proof -
  obtain d where d: "d \<in> set rfc6724policyTable" "snd (Prefix d) = 0"
    using policyTable_default by blast
  then have "Prefix_Contains (Prefix d) (Addr16 b [])" by (simp add: Prefix_Contains_def)
  with d(1) show ?thesis using first_containing_sorted [OF policyTable_sorted] by (auto simp: longest_match_def)
qed

lemma first_containing_none: "(\<And>p. \<not> Prefix_Contains p ip) \<Longrightarrow> first_containing t ip = emptyEntry"
  by (induction t) simp_all

lemma Classify_mapped:
  assumes "length b = 4"
  shows "Precedence (Classify rfc6724policyTable (Addr4 b)) = 35 \<and> Label (Classify rfc6724policyTable (Addr4 b)) = 4"
proof -
  have m: "length (mapped_prefix @ b) = 16" "take 12 (mapped_prefix @ b) = mapped_prefix" using assms by (simp_all add: mapped_prefix_def)
  have "(mapped_prefix @ b) ! 10 \<noteq> 0" by (simp add: mapped_prefix_def nth_append)
  moreover have "(replicate 15 0 @ [1]) ! 10 = (0 :: byte)" by (simp add: nth_append)
  ultimately have "mapped_prefix @ b \<noteq> replicate 15 0 @ [1]" by metis
  with m show ?thesis by (simp add: Classify_def rfc6724policyTable_def mapped_contains loop_contains)
qed

text \<open>C35: \<open>Classify\<close> on the RFC 6724 table, for every address.  An IPv6 address without a zone gets the entry with the
  longest prefix that contains it.  An IPv4 address gets the one with the longest prefix that
  contains its IPv4-mapped form, which is the entry with precedence 35 and label 4.  An
  address with a zone, which no prefix contains, and the invalid address get the empty entry.\<close>

theorem Classify_longest_prefix:
  assumes "wf_Addr ip"
  shows "case ip of
      Addr16 b z \<Rightarrow>
        (if z = [] then longest_match rfc6724policyTable ip (Classify rfc6724policyTable ip)
         else Classify rfc6724policyTable ip = emptyEntry)
    | Addr4 b \<Rightarrow>
        longest_match rfc6724policyTable (Addr16 (replicate 10 0 @ [0xff, 0xff] @ b) []) (Classify rfc6724policyTable ip) \<and>
        Precedence (Classify rfc6724policyTable ip) = 35 \<and> Label (Classify rfc6724policyTable ip) = 4
    | NoAddr \<Rightarrow> Classify rfc6724policyTable ip = emptyEntry"
proof (cases ip)
  case NoAddr
  then show ?thesis by (simp add: Classify_def first_containing_none Prefix_Contains_def)
next
  case (Addr4 b)
  with assms have "length b = 4" by (simp add: wf_Addr_def)
  moreover have "longest_match rfc6724policyTable (Addr16 (mapped_prefix @ b) []) (Classify rfc6724policyTable (Addr4 b))"
    using first_containing_longest by (simp add: Classify_def)
  ultimately show ?thesis using Addr4 Classify_mapped by (simp add: mapped_prefix_def)
next
  case (Addr16 b z)
  then show ?thesis using first_containing_longest by (simp add: Classify_def first_containing_none Prefix_Contains_def)
qed

theorem Classify_longest_prefix_witness:
  "longest_match rfc6724policyTable (Addr16 (replicate 16 0x20) []) (Classify rfc6724policyTable (Addr16 (replicate 16 0x20) [])) \<and>
   Precedence (Classify rfc6724policyTable (Addr4 [9, 9, 9, 9])) = 35 \<and>
   Classify rfc6724policyTable (Addr16 (replicate 16 0x20) ''eth0'') = emptyEntry"
  using Classify_longest_prefix [of "Addr16 (replicate 16 0x20) []"] Classify_longest_prefix [of "Addr4 [9, 9, 9, 9]"]
    Classify_longest_prefix [of "Addr16 (replicate 16 0x20) ''eth0''"]
  by (simp add: wf_Addr_def)

text \<open>\<open>commonPrefixLen\<close> counts the leading bits that the source address and the destination share:
  over the 32 bits of an IPv4 address, or over the first 64 bits of an IPv6 address; it is 0 when the
  address families differ.\<close>

lemma commonPrefixLen_bits:
  "commonPrefixLen a b =
     (let d = (case IP_To4 b of Some b4 \<Rightarrow> b4 | None \<Rightarrow> b)
      in if length (Addr_AsSlice a) \<noteq> length d then 0
         else lcp (addr_bits (take 8 (Addr_AsSlice a))) (addr_bits (take 8 d)))"
  by (auto simp: commonPrefixLen_def Let_def cpl_loop_lcp split: option.splits)

end
