(* ===== verification/Addr_Flags.thy ===== *)
theory Addr_Flags
  imports Addr_Select
begin

unbundle bit_operations_syntax

text \<open>
  Package \<open>dns/addrselect\<close>, files \<open>addrselect_linux.go\<close> and \<open>addrselect_stub.go\<close>: the flags of the
  host's own IPv6 addresses, read from \<open>/proc/net/if_inet6\<close> on Linux and absent elsewhere.  The
  argument of \<open>getAddrFlags\<close> is what opening and scanning the file delivers: \<open>None\<close> when it cannot
  be opened, its lines otherwise.
\<close>

section \<open>Parsing an address\<close>

fun parse_hex_bytes :: "nat \<Rightarrow> string \<Rightarrow> bytes result" where
  "parse_hex_bytes 0 s = Inr []"
| "parse_hex_bytes (Suc n) s =
     (case strconv_ParseUint (take 2 s) 16 8 of
        (b, Some err) \<Rightarrow> Inl err
      | (b, None) \<Rightarrow>
          (case parse_hex_bytes n (drop 2 s) of
             Inl err \<Rightarrow> Inl err
           | Inr bs \<Rightarrow> Inr (word_of_nat b # bs)))"

definition parseIPv6Hex :: "string \<Rightarrow> netip_Addr result" where
  "parseIPv6Hex s =
     (if length s \<noteq> 32 then Inl ErrInvalid
      else case parse_hex_bytes 16 s of
        Inl err \<Rightarrow> Inl err
      | Inr ip \<Rightarrow> Inr (Addr16 ip []))"

section \<open>Reading the flags\<close>

text \<open>One turn of the scan loop.\<close>

definition scan_if_inet6 :: "string \<Rightarrow> (netip_Addr \<rightharpoonup> addrFlags) \<Rightarrow> (netip_Addr \<rightharpoonup> addrFlags)" where
  "scan_if_inet6 line m =
     (let fields = strings_Fields line
      in if length fields < 6 then m
         else case strconv_ParseUint (fields ! 4) 16 64 of
           (n, Some err) \<Rightarrow> m
         | (n, None) \<Rightarrow>
             let flags = (word_of_nat n :: uint64);
                 isDeprecated = (flags AND 0x20 \<noteq> 0);
                 isHome = (flags AND 0x10 \<noteq> 0)
             in if isDeprecated \<or> isHome
                then (case parseIPv6Hex (fields ! 0) of
                        Inl err \<Rightarrow> m
                      | Inr ip \<Rightarrow> m(ip \<mapsto> \<lparr>IsDeprecated = isDeprecated, IsHome = isHome\<rparr>))
                else m)"

definition getAddrFlags :: "string list option \<Rightarrow> (netip_Addr \<rightharpoonup> addrFlags) option" where
  "getAddrFlags file = (case file of None \<Rightarrow> None | Some lines \<Rightarrow> Some (fold scan_if_inet6 lines Map.empty))"

definition getAddrFlags_stub :: "(netip_Addr \<rightharpoonup> addrFlags) option" where
  "getAddrFlags_stub = None"

section \<open>Lemmas\<close>

text \<open>The kernel's format: two lower case hexadecimal digits for each byte.\<close>

definition hex_char :: "nat \<Rightarrow> char" where
  "hex_char d = (if d < 10 then char_of (48 + d) else char_of (87 + d))"

definition hex_byte :: "byte \<Rightarrow> string" where
  "hex_byte b = [hex_char (unat b div 16), hex_char (unat b mod 16)]"

definition hex_bytes :: "bytes \<Rightarrow> string" where
  "hex_bytes bs = concat (map hex_byte bs)"

lemma digit_val_hex_char:
  assumes "d < 16"
  shows "digit_val (hex_char d) = Some d"
proof (cases "d < 10")
  case True
  then show ?thesis by (simp add: hex_char_def digit_val_def)
next
  case False
  with assms have "d = 10 \<or> d = 11 \<or> d = 12 \<or> d = 13 \<or> d = 14 \<or> d = 15" by auto
  then show ?thesis by (auto simp: hex_char_def digit_val_def lower_code_def)
qed

lemma ParseUint_hex_byte: "strconv_ParseUint (hex_byte b) 16 8 = (unat b, None)"
proof -
  have b: "unat b < 256" by (rule unat_byte_less)
  then have "unat b div 16 < 16" and "unat b mod 16 < 16" by auto
  with b show ?thesis
    by (simp add: strconv_ParseUint_def hex_byte_def digit_val_hex_char Let_def mult.commute)
qed

lemma parse_hex_bytes_hex: "length bs = n \<Longrightarrow> parse_hex_bytes n (hex_bytes bs) = Inr bs"
proof (induction bs arbitrary: n)
  case Nil
  then show ?case by simp
next
  case (Cons b bs)
  have "hex_bytes (b # bs) = hex_byte b @ hex_bytes bs" by (simp add: hex_bytes_def)
  moreover have "length (hex_byte b) = 2" by (simp add: hex_byte_def)
  ultimately show ?case
    using Cons by (auto simp: ParseUint_hex_byte)
qed

lemma length_hex_bytes: "length (hex_bytes bs) = 2 * length bs"
  by (induction bs) (auto simp: hex_bytes_def hex_byte_def)

lemma length_parse_hex_bytes: "parse_hex_bytes n s = Inr bs \<Longrightarrow> length bs = n"
  by (induction n s arbitrary: bs rule: parse_hex_bytes.induct)
    (auto split: prod.splits option.splits sum.splits)

lemma scan_if_inet6_keys:
  "scan_if_inet6 line m ip = Some f \<Longrightarrow> m ip = Some f \<or> wf_Addr ip \<and> Addr_Is6 ip \<and> (IsDeprecated f \<or> IsHome f)"
  by (auto simp: scan_if_inet6_def Let_def parseIPv6Hex_def wf_Addr_def
      dest: length_parse_hex_bytes split: if_splits prod.splits option.splits sum.splits)

lemma fold_scan_keys:
  "fold scan_if_inet6 lines m ip = Some f \<Longrightarrow>
   m ip = Some f \<or> wf_Addr ip \<and> Addr_Is6 ip \<and> (IsDeprecated f \<or> IsHome f)"
proof (induction lines arbitrary: m)
  case (Cons l ls)
  then have "scan_if_inet6 l m ip = Some f \<or> wf_Addr ip \<and> Addr_Is6 ip \<and> (IsDeprecated f \<or> IsHome f)"
    by auto
  then show ?case using scan_if_inet6_keys by blast
qed simp

section \<open>Properties\<close>

text \<open>\<open>parseIPv6Hex\<close> inverts the kernel's print format of an IPv6 address, and rejects every
  string that is not 32 characters long.\<close>

lemma parseIPv6Hex_roundtrip:
  "(length bs = 16 \<longrightarrow> parseIPv6Hex (hex_bytes bs) = Inr (Addr16 bs [])) \<and>
   (length s \<noteq> 32 \<longrightarrow> parseIPv6Hex s = Inl ErrInvalid)"
  by (simp add: parseIPv6Hex_def length_hex_bytes parse_hex_bytes_hex)

text \<open>A line of \<open>/proc/net/if_inet6\<close> with an address that is deprecated or a home address records
  exactly these two flags for the address, whatever earlier lines said about it.\<close>

lemma getAddrFlags_last_line:
  assumes "strings_Fields line = [hex_bytes bs, devno, plen, scp, fl, dev]"
    and "length bs = 16"
    and "strconv_ParseUint fl 16 64 = (n, None)"
    and "word_of_nat n AND (0x30 :: uint64) \<noteq> 0"
  shows "\<exists>m. getAddrFlags (Some (earlier @ [line])) = Some m \<and>
    m (Addr16 bs []) = Some \<lparr>IsDeprecated = (word_of_nat n AND (0x20 :: uint64) \<noteq> 0),
                            IsHome = (word_of_nat n AND (0x10 :: uint64) \<noteq> 0)\<rparr>"
proof -
  have "(word_of_nat n :: uint64) AND 0x30 = (word_of_nat n AND 0x20) OR (word_of_nat n AND 0x10)"
    by (simp add: bit.conj_disj_distrib [symmetric])
  with assms(4) have "(word_of_nat n :: uint64) AND 0x20 \<noteq> 0 \<or> (word_of_nat n :: uint64) AND 0x10 \<noteq> 0"
    by auto
  with assms(1-3) show ?thesis
    by (simp add: getAddrFlags_def scan_if_inet6_def Let_def parseIPv6Hex_def length_hex_bytes
        parse_hex_bytes_hex)
qed

lemma demo_hex: "hex_bytes (replicate 16 0xfe) = ''fefefefefefefefefefefefefefefefe''"
proof -
  have "hex_byte 0xfe = ''fe''"
    by (simp add: hex_byte_def hex_char_def char_of_def bit_iff_odd)
  then show ?thesis by (simp add: hex_bytes_def eval_nat_numeral)
qed

end
