(* ===== verification/Go_IO.thy ===== *)
theory Go_IO
  imports Go_Strings
begin

text \<open>
  Readers and writers.  A reader is the bytes it will still deliver and the error that ends the
  stream after them (\<open>EOF\<close>, a reset, a timeout), or \<open>NeverReturns\<close> when the peer then stays silent and
  a read blocks.  A sink is the write side of a TCP connection: the
  segments written so far, in order, the number of bytes it still accepts before a write
  fails (\<open>None\<close>: no write fails), and whether a write has failed.  \<open>ReadString\<close>, \<open>ReadFull\<close> and \<open>Write\<close> are the
  operations of \<open>bufio\<close>, \<open>io\<close> and \<open>net.TCPConn\<close> the program uses.
\<close>

record reader =
  rd_data :: bytes
  rd_end :: go_error

definition LF :: byte where "LF = 10"
definition CR :: byte where "CR = 13"

text \<open>The \<open>ReadString\<close> method of \<open>bufio.Reader\<close> with a line feed as delimiter: the data read, the error, the rest.\<close>

definition br_ReadString :: "reader \<Rightarrow> bytes \<times> go_error option \<times> reader" where
  "br_ReadString r =
     (case dropWhile (\<lambda>b. b \<noteq> LF) (rd_data r) of
        [] \<Rightarrow> (rd_data r, Some (rd_end r), r\<lparr>rd_data := []\<rparr>)
      | d # rest \<Rightarrow> (takeWhile (\<lambda>b. b \<noteq> LF) (rd_data r) @ [d], None, r\<lparr>rd_data := rest\<rparr>))"

text \<open>\<open>io.ReadFull\<close> into a buffer of length \<open>n\<close>.\<close>

definition io_ReadFull :: "nat \<Rightarrow> reader \<Rightarrow> bytes result \<times> reader" where
  "io_ReadFull n r =
     (if n \<le> length (rd_data r) then (Inr (take n (rd_data r)), r\<lparr>rd_data := drop n (rd_data r)\<rparr>)
      else if rd_data r \<noteq> [] \<and> rd_end r = EOF then (Inl ErrUnexpectedEOF, r\<lparr>rd_data := []\<rparr>)
      else (Inl (rd_end r), r\<lparr>rd_data := []\<rparr>))"

record sink =
  sk_segments :: "bytes list"
  sk_budget :: "nat option"
  sk_failed :: bool

definition sink_bytes :: "sink \<Rightarrow> bytes" where
  "sink_bytes k = concat (sk_segments k)"

text \<open>The \<open>Write\<close> method of \<open>net.TCPConn\<close>: the number of bytes written, the error, the connection afterwards.\<close>

definition conn_Write :: "sink \<Rightarrow> bytes \<Rightarrow> nat \<times> go_error option \<times> sink" where
  "conn_Write k c =
     (case sk_budget k of
        None \<Rightarrow> (length c, None, k\<lparr>sk_segments := sk_segments k @ [c]\<rparr>)
      | Some b \<Rightarrow>
          if length c \<le> b
          then (length c, None, k\<lparr>sk_segments := sk_segments k @ [c], sk_budget := Some (b - length c)\<rparr>)
          else (b, Some (ErrString ''write''),
                k\<lparr>sk_segments := sk_segments k @ [take b c], sk_budget := Some 0, sk_failed := True\<rparr>))"

definition open_sink :: sink where
  "open_sink = \<lparr>sk_segments = [], sk_budget = None, sk_failed = False\<rparr>"

lemma ReadString_ok:
  assumes "br_ReadString r = (line, None, r')"
  shows "rd_data r = line @ rd_data r'" and "line \<noteq> []" and "last line = LF"
    and "LF \<notin> set (butlast line)" and "rd_end r' = rd_end r"
    and "length (rd_data r') < length (rd_data r)"
proof -
  from assms obtain d where dw: "dropWhile (\<lambda>b. b \<noteq> LF) (rd_data r) = d # rd_data r'"
    and line: "line = takeWhile (\<lambda>b. b \<noteq> LF) (rd_data r) @ [d]" and e: "rd_end r' = rd_end r"
    by (auto simp: br_ReadString_def split: list.splits)
  have d: "d = LF" using dw by (metis (mono_tags) dropWhile_eq_Cons_conv)
  show *: "rd_data r = line @ rd_data r'"
    using dw line takeWhile_dropWhile_id [of "\<lambda>b. b \<noteq> LF" "rd_data r"] by simp
  have "0 < length line" using line by simp
  with * show "length (rd_data r') < length (rd_data r)" by (metis length_append less_add_same_cancel2)
  show "line \<noteq> []" "last line = LF" "rd_end r' = rd_end r" using line d e by auto
  show "LF \<notin> set (butlast line)" using line by (auto dest: set_takeWhileD)
qed

lemma ReadString_err:
  "br_ReadString r = (line, Some e, r') \<Longrightarrow>
   LF \<notin> set (rd_data r) \<and> e = rd_end r \<and> line = rd_data r \<and> rd_data r' = []"
  by (auto simp: br_ReadString_def dropWhile_eq_Nil_conv split: list.splits)

lemma ReadString_line:
  "LF \<notin> set xs \<Longrightarrow> rd_data r = xs @ LF # ys \<Longrightarrow>
   br_ReadString r = (xs @ [LF], None, r\<lparr>rd_data := ys\<rparr>)"
  by (auto simp: br_ReadString_def dropWhile_append3 takeWhile_tail dropWhile_append)

lemma ReadFull_ok:
  "io_ReadFull n r = (Inr bs, r') \<longleftrightarrow>
   n \<le> length (rd_data r) \<and> bs = take n (rd_data r) \<and> r' = r\<lparr>rd_data := drop n (rd_data r)\<rparr>"
  by (auto simp: io_ReadFull_def)

lemma ReadFull_err:
  "io_ReadFull n r = (Inl e, r') \<Longrightarrow>
   length (rd_data r) < n \<and> r' = r\<lparr>rd_data := []\<rparr> \<and>
   e = (if rd_data r \<noteq> [] \<and> rd_end r = EOF then ErrUnexpectedEOF else rd_end r)"
  by (auto simp: io_ReadFull_def split: if_splits)

text \<open>A write appends what it accepts; it is complete exactly when it reports no error.\<close>

lemma conn_Write_spec:
  assumes "conn_Write k c = (n, err, k')"
  shows "n \<le> length c" and "sk_segments k' = sk_segments k @ [take n c]"
    and "err = None \<longleftrightarrow> n = length c" and "sk_failed k' \<longleftrightarrow> sk_failed k \<or> err \<noteq> None"
  using assms by (auto simp: conn_Write_def split: option.splits if_splits)

lemma conn_Write_ok: "conn_Write k c = (n, None, k') \<Longrightarrow> sk_segments k' = sk_segments k @ [c]"
  by (auto simp: conn_Write_def split: option.splits if_splits)

lemma conn_Write_open: "sk_budget k = None \<Longrightarrow>
  conn_Write k c = (length c, None, k\<lparr>sk_segments := sk_segments k @ [c]\<rparr>)"
  by (simp add: conn_Write_def)

end
