(* ===== verification/Tls_Packet.thy ===== *)
theory Tls_Packet
  imports Go_IO
begin

text \<open>
  Package \<open>packet\<close>, file \<open>https.go\<close>: reading one TLS record from the client and recognising a
  ClientHello.  Lengths are 16-bit words, as in the code, so that the sum that sizes the buffer
  is shown not to wrap.
\<close>

definition TLSMaxPayloadLen :: uint16 where "TLSMaxPayloadLen = 16384"
definition TLSHeaderLen :: nat where "TLSHeaderLen = 5"
definition TLSHandshake :: byte where "TLSHandshake = 0x16"

record TLSHeader =
  Type :: byte
  ProtoVersion :: uint16
  PayloadLen :: uint16

record TLSMessage =
  Header :: TLSHeader
  Raw :: bytes
  RawHeader :: bytes
  RawPayload :: bytes

definition BigEndian_Uint16 :: "byte \<Rightarrow> byte \<Rightarrow> uint16" where
  "BigEndian_Uint16 hi lo = push_bit 8 (ucast hi) OR ucast lo"

definition parse_header :: "bytes \<Rightarrow> TLSHeader" where
  "parse_header h =
     \<lparr>Type = h ! 0, ProtoVersion = BigEndian_Uint16 (h ! 1) (h ! 2),
      PayloadLen = BigEndian_Uint16 (h ! 3) (h ! 4)\<rparr>"

definition invalid_header :: "TLSHeader \<Rightarrow> go_error" where
  "invalid_header header =
     ErrString (''invalid TLS header. Type: '' @ format_hex (unat (Type header)) @
       '', ProtoVersion: '' @ format_hex (unat (ProtoVersion header)) @
       '', PayloadLen: '' @ format_hex (unat (PayloadLen header)))"

definition ReadTLSMessage :: "reader \<Rightarrow> TLSMessage result \<times> reader" where
  "ReadTLSMessage r =
     (case io_ReadFull TLSHeaderLen r of
        (Inl err, r1) \<Rightarrow> (Inl err, r1)
      | (Inr rawHeader, r1) \<Rightarrow>
          let header = parse_header rawHeader
          in if PayloadLen header > TLSMaxPayloadLen then (Inl (invalid_header header), r1)
             else
               let rawLen = unat (PayloadLen header + word_of_nat TLSHeaderLen)
               in case io_ReadFull (rawLen - TLSHeaderLen) r1 of
                    (Inl err, r2) \<Rightarrow> (Inl err, r2)
                  | (Inr payload, r2) \<Rightarrow>
                      let raw = rawHeader @ payload
                      in (Inr \<lparr>Header = header, Raw = raw, RawHeader = take TLSHeaderLen raw,
                               RawPayload = drop TLSHeaderLen raw\<rparr>, r2))"

definition IsClientHello :: "TLSMessage \<Rightarrow> bool" where
  "IsClientHello m \<longleftrightarrow>
     TLSHeaderLen < length (Raw m) \<and> Type (Header m) = TLSHandshake \<and> Raw m ! 5 = 0x01"

section \<open>Lemmas\<close>

lemma unat_ucast_byte: "unat (ucast (b :: byte) :: uint16) = unat b"
  using unat_byte_less [of b] by (simp add: unsigned_ucast_eq take_bit_nat_eq_self)

lemma unat_BigEndian: "unat (BigEndian_Uint16 hi lo) = unat hi * 256 + unat lo"
proof -
  have "(push_bit 8 (ucast hi) :: uint16) AND ucast lo = 0"
    by (rule bit_word_eqI) (auto simp: bit_and_iff bit_push_bit_iff bit_unsigned_iff dest: bit_imp_le_length)
  then have "BigEndian_Uint16 hi lo = push_bit 8 (ucast hi) + ucast lo"
    unfolding BigEndian_Uint16_def by (rule disjunctive_add_eq_or [symmetric])
  then show ?thesis
    using unat_byte_less [of hi] unat_byte_less [of lo]
    by (simp add: push_bit_eq_mult unat_word_ariths unat_ucast_byte)
qed

text \<open>The guard on the payload length keeps the 16-bit sum that sizes the buffer from wrapping.\<close>

lemma rawLen_no_wrap:
  "\<not> n > TLSMaxPayloadLen \<Longrightarrow> unat (n + word_of_nat TLSHeaderLen) = unat n + TLSHeaderLen"
  by (simp add: TLSMaxPayloadLen_def TLSHeaderLen_def word_less_nat_alt unat_word_ariths not_less)

definition message_of :: "bytes \<Rightarrow> TLSMessage" where
  "message_of raw = \<lparr>Header = parse_header (take TLSHeaderLen raw), Raw = raw,
     RawHeader = take TLSHeaderLen raw, RawPayload = drop TLSHeaderLen raw\<rparr>"

definition recordLen :: "bytes \<Rightarrow> nat" where
  "recordLen d = TLSHeaderLen + unat (PayloadLen (parse_header (take TLSHeaderLen d)))"

lemma ReadTLSMessage_eq:
  "ReadTLSMessage r =
     (let d = rd_data r; n = recordLen d
      in if length d < TLSHeaderLen then
           (Inl (if d \<noteq> [] \<and> rd_end r = EOF then ErrUnexpectedEOF else rd_end r), r\<lparr>rd_data := []\<rparr>)
         else if 16384 + TLSHeaderLen < n then
           (Inl (invalid_header (parse_header (take TLSHeaderLen d))), r\<lparr>rd_data := drop TLSHeaderLen d\<rparr>)
         else if length d < n then
           (Inl (if TLSHeaderLen < length d \<and> rd_end r = EOF then ErrUnexpectedEOF else rd_end r), r\<lparr>rd_data := []\<rparr>)
         else (Inr (message_of (take n d)), r\<lparr>rd_data := drop n d\<rparr>))"
proof (cases "length (rd_data r) < TLSHeaderLen")
  case True
  then show ?thesis by (auto simp: ReadTLSMessage_def io_ReadFull_def Let_def)
next
  case False
  let ?d = "rd_data r" and ?h = "parse_header (take TLSHeaderLen (rd_data r))"
  have big: "PayloadLen ?h > TLSMaxPayloadLen \<longleftrightarrow> 16384 + TLSHeaderLen < recordLen ?d"
    by (auto simp: recordLen_def TLSMaxPayloadLen_def word_less_nat_alt)
  have "message_of (take (recordLen ?d) ?d) =
    \<lparr>Header = ?h, Raw = take TLSHeaderLen ?d @ take (recordLen ?d - TLSHeaderLen) (drop TLSHeaderLen ?d),
     RawHeader = take TLSHeaderLen ?d, RawPayload = take (recordLen ?d - TLSHeaderLen) (drop TLSHeaderLen ?d)\<rparr>"
    by (simp add: message_of_def recordLen_def take_add min_def)
  with False big rawLen_no_wrap [of "PayloadLen ?h"] show ?thesis
    by (auto simp: ReadTLSMessage_def io_ReadFull_def Let_def recordLen_def message_of_def ac_simps)
qed

section \<open>Properties\<close>

text \<open>C23: \<open>ReadTLSMessage\<close> on every input: it needs the five header bytes, refuses a declared payload
  of more than 16384 bytes, needs the whole payload, and otherwise returns exactly the record's bytes
  and leaves the rest of the stream unread.  The 16-bit buffer size never wraps.\<close>

theorem ReadTLSMessage_behaviour:
  "ReadTLSMessage r =
     (let d = rd_data r; n = recordLen d
      in if length d < 5 then
           (Inl (if d \<noteq> [] \<and> rd_end r = EOF then ErrUnexpectedEOF else rd_end r), r\<lparr>rd_data := []\<rparr>)
         else if 16384 + 5 < n then
           (Inl (invalid_header (parse_header (take 5 d))), r\<lparr>rd_data := drop 5 d\<rparr>)
         else if length d < n then
           (Inl (if 5 < length d \<and> rd_end r = EOF then ErrUnexpectedEOF else rd_end r), r\<lparr>rd_data := []\<rparr>)
         else (Inr (message_of (take n d)), r\<lparr>rd_data := drop n d\<rparr>))"
  by (rule ReadTLSMessage_eq [unfolded TLSHeaderLen_def])

definition tls_record :: "byte \<Rightarrow> byte \<Rightarrow> byte \<Rightarrow> bytes \<Rightarrow> bytes" where
  "tls_record t vhi vlo payload =
     [t, vhi, vlo, word_of_nat (length payload div 256), word_of_nat (length payload mod 256)] @ payload"

lemma recordLen_tls_record:
  assumes "length payload \<le> 16384"
  shows "recordLen (tls_record t vhi vlo payload @ rest) = 5 + length payload"
proof -
  have "length payload div 256 < 256" using assms by (simp add: less_mult_imp_div_less)
  then have "unat (word_of_nat (length payload div 256) :: byte) = length payload div 256"
    and "unat (word_of_nat (length payload mod 256) :: byte) = length payload mod 256"
    by (simp_all add: unat_of_nat)
  then show ?thesis
    by (simp add: recordLen_def tls_record_def parse_header_def TLSHeaderLen_def unat_BigEndian)
qed

lemma ReadTLS_record:
  assumes "length payload \<le> 16384" and "rd_data r = tls_record t vhi vlo payload @ rest"
  shows "ReadTLSMessage r = (Inr (message_of (tls_record t vhi vlo payload)), r\<lparr>rd_data := rest\<rparr>)"
proof -
  have "length (tls_record t vhi vlo payload) = 5 + length payload" by (simp add: tls_record_def)
  with assms show ?thesis by (simp add: ReadTLSMessage_eq recordLen_tls_record TLSHeaderLen_def)
qed

lemma IsClientHello_record:
  "IsClientHello (message_of (tls_record t vhi vlo payload)) \<longleftrightarrow> payload \<noteq> [] \<and> t = 0x16 \<and> hd payload = 1"
  by (cases payload)
    (auto simp: IsClientHello_def message_of_def tls_record_def parse_header_def TLSHeaderLen_def TLSHandshake_def)

lemma invalid_header_returns [simp]: "invalid_header h \<noteq> NeverReturns"
  by (simp add: invalid_header_def)

text \<open>It blocks only on a peer that stays silent.\<close>

lemma ReadTLS_blocks: "ReadTLSMessage r = (Inl NeverReturns, r') \<Longrightarrow> rd_end r = NeverReturns"
  by (auto simp: ReadTLSMessage_eq Let_def split: if_splits)

lemma ReadTLS_split:
  assumes "ReadTLSMessage r = (Inr m, r')"
  shows "rd_data r = Raw m @ rd_data r'" and "rd_end r' = rd_end r"
  using assms by (auto simp: ReadTLSMessage_eq Let_def message_of_def split: if_splits)

text \<open>A TLS record with a payload of at most 16384 bytes is read back whole, whatever follows it on
  the stream, and a handshake record that starts with byte 1 is recognised as a ClientHello.\<close>

lemma ReadTLSMessage_roundtrip:
  assumes "length payload \<le> 16384"
  shows "ReadTLSMessage \<lparr>rd_data = tls_record t vhi vlo payload @ rest, rd_end = e\<rparr> =
      (Inr (message_of (tls_record t vhi vlo payload)), \<lparr>rd_data = rest, rd_end = e\<rparr>)
    \<and> (IsClientHello (message_of (tls_record t vhi vlo payload)) \<longleftrightarrow>
        payload \<noteq> [] \<and> t = 0x16 \<and> hd payload = 1)"
  using ReadTLS_record [OF assms, of "\<lparr>rd_data = tls_record t vhi vlo payload @ rest, rd_end = e\<rparr>"]
  by (simp add: IsClientHello_record)

end
