(* ===== verification/Http_Packet.thy ===== *)
theory Http_Packet
  imports Go_IO
begin

text \<open>
  Package \<open>packet\<close>, file \<open>http.go\<close>: reading the request of a proxy client and rewriting it for the
  origin server.  \<open>http.ReadRequest\<close> is a parameter of the model, a function from the header text
  to the fields of the request the code uses; every statement holds for any such function.
\<close>

section \<open>Types\<close>

record http_Request =
  req_Host :: string
  req_Method :: string
  req_Proto :: string
  req_Path :: string
  req_RawQuery :: string
  req_RawFragment :: string

type_synonym http_ReadRequest = "string \<Rightarrow> http_Request result"

record HttpRequest =
  raw :: bytes
  hr_method :: string
  hr_domain :: string
  hr_port :: string
  hr_path :: string
  hr_version :: string

definition validMethod :: "string list" where
  "validMethod =
     [''DELETE'', ''GET'', ''HEAD'', ''POST'', ''PUT'', ''CONNECT'', ''OPTIONS'', ''TRACE'', ''COPY'',
      ''LOCK'', ''MKCOL'', ''MOVE'', ''PROPFIND'', ''PROPPATCH'', ''SEARCH'', ''UNLOCK'', ''BIND'',
      ''REBIND'', ''UNBIND'', ''ACL'', ''REPORT'', ''MKACTIVITY'', ''CHECKOUT'', ''MERGE'', ''M-SEARCH'',
      ''NOTIFY'', ''SUBSCRIBE'', ''UNSUBSCRIBE'', ''PATCH'', ''PURGE'', ''MKCALENDAR'', ''LINK'', ''UNLINK'']"

definition IsValidMethod :: "HttpRequest \<Rightarrow> bool" where
  "IsValidMethod p \<longleftrightarrow> hr_method p \<in> set validMethod"

definition IsConnectMethod :: "HttpRequest \<Rightarrow> bool" where
  "IsConnectMethod p \<longleftrightarrow> hr_method p = ''CONNECT''"

section \<open>Reading a request\<close>

definition maxHeaderSize :: nat where
  "maxHeaderSize = 64 * 1024"

text \<open>The loop that collects the header lines up to and including the blank one.\<close>

function read_headers :: "reader \<Rightarrow> bytes \<Rightarrow> bytes result \<times> reader" where
  "read_headers r headerBuf =
     (case br_ReadString r of
        (line, Some err, r') \<Rightarrow> (Inl err, r')
      | (line, None, r') \<Rightarrow>
          if maxHeaderSize < length headerBuf + length line
          then (Inl (ErrString ''headers too large''), r')
          else if line = [CR, LF] \<or> line = [LF] then (Inr (headerBuf @ line), r')
          else read_headers r' (headerBuf @ line))"
  by pat_completeness auto
termination
  by (relation "measure (\<lambda>(r, headerBuf). length (rd_data r))") (auto dest: ReadString_ok(6) [OF sym])

declare read_headers.simps [simp del]

definition request_of :: "bytes \<Rightarrow> http_Request \<Rightarrow> HttpRequest" where
  "request_of rawHeaders request =
     (let (domain, port) =
            (case net_SplitHostPort (req_Host request) of
               Inr (d, pt) \<Rightarrow> (d, pt)
             | Inl err \<Rightarrow> (req_Host request, []));
          path0 = req_Path request;
          path1 = (if req_RawQuery request \<noteq> [] then path0 @ ''?'' @ req_RawQuery request else path0);
          path2 = (if req_RawFragment request \<noteq> [] then path1 @ ''#'' @ req_RawFragment request else path1);
          path3 = (if path2 = [] then ''/'' else path2)
      in \<lparr>raw = rawHeaders, hr_method = req_Method request, hr_domain = domain, hr_port = port,
          hr_path = path3, hr_version = req_Proto request\<rparr>)"

definition ReadHttpRequest :: "http_ReadRequest \<Rightarrow> reader \<Rightarrow> HttpRequest result \<times> reader" where
  "ReadHttpRequest http_ReadRequest r =
     (case read_headers r [] of
        (Inl err, r') \<Rightarrow> (Inl err, r')
      | (Inr rawHeaders, r') \<Rightarrow>
          (case http_ReadRequest (string_of_bytes rawHeaders) of
             Inl err \<Rightarrow> (Inl err, r')
           | Inr request \<Rightarrow> (Inr (request_of rawHeaders request), r')))"

section \<open>Rewriting a request\<close>

definition crlf :: string where
  "crlf = [CHR 0x0D, CHR 0x0A]"

definition request_line :: "HttpRequest \<Rightarrow> string" where
  "request_line p = hr_method p @ '' '' @ hr_path p @ '' '' @ hr_version p"

definition Tidy :: "HttpRequest \<Rightarrow> HttpRequest" where
  "Tidy p =
     (let s = string_of_bytes (raw p);
          head = (case strings_Index s (crlf @ crlf) of None \<Rightarrow> s | Some headersEnd \<Rightarrow> take headersEnd s);
          meta0 = strings_Split head crlf;
          meta1 = (if length meta0 = 0 then [[]] else meta0);
          meta = meta1[0 := request_line p];
          kept = filter (\<lambda>m. \<not> strings_HasPrefix m ''Proxy-Connection'') meta;
          buf = concat (map (\<lambda>m. m @ crlf) kept) @ crlf
      in p\<lparr>raw := bytes_of_string buf\<rparr>)"

section \<open>Lemmas on reading\<close>

lemma read_headers_ok:
  "read_headers r buf = (Inr h, r') \<Longrightarrow>
   \<exists>ls l. h = buf @ concat ls @ l \<and> (l = [CR, LF] \<or> l = [LF]) \<and>
     (\<forall>x\<in>set ls. x \<noteq> [CR, LF] \<and> x \<noteq> [LF] \<and> x \<noteq> [] \<and> last x = LF \<and> LF \<notin> set (butlast x)) \<and>
     rd_data r = concat ls @ l @ rd_data r' \<and> rd_end r' = rd_end r \<and> length h \<le> maxHeaderSize"
proof (induction r buf arbitrary: h rule: read_headers.induct)
  case (1 r buf)
  obtain line e r1 where rs: "br_ReadString r = (line, e, r1)" by (metis prod_cases3)
  with "1.prems" have e: "e = None" by (cases e) (auto simp: read_headers.simps [of r])
  note line = ReadString_ok [OF rs [unfolded e]]
  from "1.prems" rs e have small: "\<not> maxHeaderSize < length buf + length line"
    by (auto simp: read_headers.simps [of r] split: if_splits)
  show ?case
  proof (cases "line = [CR, LF] \<or> line = [LF]")
    case True
    with "1.prems" rs e small have "h = buf @ line" "r' = r1"
      by (auto simp: read_headers.simps [of r])
    with True small line(1,5) show ?thesis by (intro exI [of _ "[]"] exI [of _ line]) auto
  next
    case False
    with "1.prems" rs e small have rec: "read_headers r1 (buf @ line) = (Inr h, r')"
      by (simp add: read_headers.simps [of r])
    from "1.IH" [OF rs [symmetric] refl e small False rec] obtain ls l where
      "h = (buf @ line) @ concat ls @ l" "l = [CR, LF] \<or> l = [LF]"
      "\<forall>x\<in>set ls. x \<noteq> [CR, LF] \<and> x \<noteq> [LF] \<and> x \<noteq> [] \<and> last x = LF \<and> LF \<notin> set (butlast x)"
      "rd_data r1 = concat ls @ l @ rd_data r'" "rd_end r' = rd_end r1" "length h \<le> maxHeaderSize"
      by auto
    with False line show ?thesis
      by (intro exI [of _ "line # ls"] exI [of _ l]) auto
  qed
qed

section \<open>Lemmas on CRLF-separated text\<close>

definition no_crlf :: "string \<Rightarrow> bool" where
  "no_crlf l \<longleftrightarrow> strings_Index l crlf = None"

lemma no_crlf_Cons: "no_crlf (c # cs) \<longleftrightarrow> \<not> strings_HasPrefix (c # cs) crlf \<and> no_crlf cs"
  by (simp add: no_crlf_def)

lemma HasPrefix_crlf_Cons:
  "strings_HasPrefix (c # cs) crlf \<longleftrightarrow> c = CHR 0x0D \<and> cs \<noteq> [] \<and> hd cs = CHR 0x0A"
  by (cases cs) (auto simp: strings_HasPrefix_def crlf_def)

lemma HasPrefix_crlf_app: "strings_HasPrefix s (crlf @ t) \<Longrightarrow> strings_HasPrefix s crlf"
  by (auto simp: strings_HasPrefix_append)

lemma no_prefix_before_crlf:
  assumes "no_crlf (c # cs)"
  shows "\<not> strings_HasPrefix (c # cs @ crlf @ t) crlf"
proof -
  have "hd (crlf @ t) = CHR 0x0D" by (simp add: crlf_def)
  with assms show ?thesis by (cases cs) (auto simp: no_crlf_Cons HasPrefix_crlf_Cons)
qed

lemma Index_crlf: "no_crlf l \<Longrightarrow> strings_Index (l @ crlf @ t) crlf = Some (length l)"
proof (induction l)
  case Nil
  then show ?case by (simp add: crlf_def strings_HasPrefix_def)
next
  case (Cons c cs)
  then show ?case using no_prefix_before_crlf [of c cs t] by (simp add: no_crlf_Cons)
qed

lemma Index_crlfcrlf_found: "no_crlf l \<Longrightarrow> strings_Index (l @ crlf @ crlf @ t) (crlf @ crlf) = Some (length l)"
proof (induction l)
  case Nil
  then show ?case by (simp add: crlf_def strings_HasPrefix_def)
next
  case (Cons c cs)
  then show ?case
    using no_prefix_before_crlf [of c cs "crlf @ t"] HasPrefix_crlf_app [of "c # cs @ crlf @ crlf @ t" crlf]
    by (auto simp: no_crlf_Cons)
qed

lemma Index_crlfcrlf_skip:
  assumes "\<not> strings_HasPrefix t crlf"
  shows "no_crlf l \<Longrightarrow>
    strings_Index (l @ crlf @ t) (crlf @ crlf) = map_option (\<lambda>i. length l + 2 + i) (strings_Index t (crlf @ crlf))"
proof (induction l)
  case Nil
  have "\<not> strings_HasPrefix (CHR 0x0D # CHR 0x0A # t) (crlf @ crlf)"
    using assms by (auto simp: crlf_def strings_HasPrefix_def)
  moreover have "\<not> strings_HasPrefix (CHR 0x0A # t) (crlf @ crlf)"
    by (simp add: crlf_def strings_HasPrefix_def)
  moreover have e: "crlf @ t = CHR 0x0D # CHR 0x0A # t" by (simp add: crlf_def)
  ultimately show ?case unfolding append_Nil e by (simp add: option.map_comp comp_def)
next
  case (Cons c cs)
  then show ?case
    using no_prefix_before_crlf [of c cs t] HasPrefix_crlf_app [of "c # cs @ crlf @ t" crlf]
    by (auto simp: no_crlf_Cons option.map_comp comp_def)
qed

text \<open>An HTTP head: its lines, each ended by CRLF, and a blank line.\<close>

definition http_head :: "string list \<Rightarrow> string" where
  "http_head ls = concat (map (\<lambda>l. l @ crlf) ls) @ crlf"

definition wf_line :: "string \<Rightarrow> bool" where
  "wf_line l \<longleftrightarrow> l \<noteq> [] \<and> no_crlf l"

lemma wf_line_not_crlf: "wf_line l \<Longrightarrow> \<not> strings_HasPrefix (l @ crlf @ t) crlf"
  using no_prefix_before_crlf by (cases l) (auto simp: wf_line_def)

lemma Index_http_head:
  assumes "\<forall>l\<in>set (l0 # ls). wf_line l"
  shows "strings_Index (http_head (l0 # ls)) (crlf @ crlf) = Some (length (strings_Join (l0 # ls) crlf))
    \<and> take (length (strings_Join (l0 # ls) crlf)) (http_head (l0 # ls)) = strings_Join (l0 # ls) crlf"
  using assms
proof (induction ls arbitrary: l0)
  case Nil
  then show ?case
    using Index_crlfcrlf_found [of l0 "[]"] by (simp add: http_head_def wf_line_def)
next
  case (Cons l1 ls)
  have IH: "strings_Index (http_head (l1 # ls)) (crlf @ crlf) = Some (length (strings_Join (l1 # ls) crlf))"
    "take (length (strings_Join (l1 # ls) crlf)) (http_head (l1 # ls)) = strings_Join (l1 # ls) crlf"
    using Cons by auto
  have "\<not> strings_HasPrefix (http_head (l1 # ls)) crlf"
    using Cons.prems wf_line_not_crlf [of l1] by (simp add: http_head_def)
  from Index_crlfcrlf_skip [OF this, of l0] IH Cons.prems show ?case
    by (simp add: http_head_def wf_line_def crlf_def)
qed

lemma Split_Join_crlf:
  assumes "\<forall>l\<in>set (l0 # ls). no_crlf l"
  shows "strings_Split (strings_Join (l0 # ls) crlf) crlf = l0 # ls"
  using assms
proof (induction ls arbitrary: l0)
  case Nil
  have "crlf \<noteq> []" by (simp add: crlf_def)
  with Nil show ?case by (simp add: strings_Split.simps [of l0] no_crlf_def)
next
  case (Cons l1 ls)
  have c: "crlf \<noteq> []" by (simp add: crlf_def)
  have "strings_Index (l0 @ crlf @ strings_Join (l1 # ls) crlf) crlf = Some (length l0)"
    using Cons.prems by (simp add: Index_crlf)
  then have "strings_Split (l0 @ crlf @ strings_Join (l1 # ls) crlf) crlf =
    l0 # strings_Split (strings_Join (l1 # ls) crlf) crlf"
    using c by (simp add: strings_Split.simps [of "l0 @ crlf @ strings_Join (l1 # ls) crlf"])
  with Cons show ?case by simp
qed

lemma Tidy_http_head:
  assumes "string_of_bytes (raw p) = http_head (l0 # ls)" and "\<forall>l\<in>set (l0 # ls). wf_line l"
  shows "string_of_bytes (raw (Tidy p)) =
    http_head (filter (\<lambda>m. \<not> strings_HasPrefix m ''Proxy-Connection'') (request_line p # ls))"
proof -
  have "strings_Split (strings_Join (l0 # ls) crlf) crlf = l0 # ls"
    using assms(2) by (intro Split_Join_crlf) (auto simp: wf_line_def)
  with assms(1) Index_http_head [OF assms(2)] show ?thesis
    by (simp add: Tidy_def Let_def http_head_def)
qed

lemma Tidy_fields [simp]:
  "hr_method (Tidy p) = hr_method p" "hr_domain (Tidy p) = hr_domain p" "hr_port (Tidy p) = hr_port p"
  "hr_path (Tidy p) = hr_path p" "hr_version (Tidy p) = hr_version p"
  by (simp_all add: Tidy_def Let_def)

lemma request_line_Tidy [simp]: "request_line (Tidy p) = request_line p"
  by (simp add: request_line_def)

text \<open>Without a carriage return there is a single line, which the request line replaces.\<close>

lemma Index_no_CR: "CHR 0x0D \<notin> set s \<Longrightarrow> strings_Index s (crlf @ t) = None"
  by (induction s) (auto simp: crlf_def strings_HasPrefix_def)

lemma Tidy_no_CR:
  assumes "CHR 0x0D \<notin> set (string_of_bytes (raw p))"
  shows "string_of_bytes (raw (Tidy p)) =
    http_head (filter (\<lambda>m. \<not> strings_HasPrefix m ''Proxy-Connection'') [request_line p])"
proof -
  have "crlf \<noteq> []" by (simp add: crlf_def)
  with Index_no_CR [OF assms, of crlf] Index_no_CR [OF assms, of "[]"] show ?thesis
    by (simp add: Tidy_def Let_def http_head_def strings_Split.simps [of "string_of_bytes (raw p)"])
qed

lemma read_headers_lines:
  assumes "\<forall>x\<in>set ls. x \<noteq> [CR] \<and> x \<noteq> [] \<and> LF \<notin> set x" and "l = [CR, LF] \<or> l = [LF]"
    and "length buf + length (concat (map (\<lambda>x. x @ [LF]) ls) @ l) \<le> maxHeaderSize"
    and "rd_data r = concat (map (\<lambda>x. x @ [LF]) ls) @ l @ rest"
  shows "read_headers r buf =
    (Inr (buf @ concat (map (\<lambda>x. x @ [LF]) ls) @ l), r\<lparr>rd_data := rest\<rparr>)"
  using assms
proof (induction ls arbitrary: r buf)
  case Nil
  have "LF \<noteq> CR" by (simp add: LF_def CR_def)
  with Nil have "br_ReadString r = (l, None, r\<lparr>rd_data := rest\<rparr>)"
    using ReadString_line [of "butlast l" r rest] by auto
  with Nil show ?case by (auto simp: read_headers.simps [of r])
next
  case (Cons x xs)
  let ?t = "concat (map (\<lambda>x. x @ [LF]) xs) @ l @ rest"
  have "br_ReadString r = (x @ [LF], None, r\<lparr>rd_data := ?t\<rparr>)"
    using Cons.prems ReadString_line [of x r ?t] by simp
  moreover have "read_headers (r\<lparr>rd_data := ?t\<rparr>) (buf @ x @ [LF]) =
    (Inr ((buf @ x @ [LF]) @ concat (map (\<lambda>x. x @ [LF]) xs) @ l), (r\<lparr>rd_data := ?t\<rparr>)\<lparr>rd_data := rest\<rparr>)"
    using Cons.prems by (intro Cons.IH) auto
  moreover have "x @ [LF] \<noteq> [CR, LF]" "x @ [LF] \<noteq> [LF]" using Cons.prems(1) by auto
  ultimately show ?case
    using Cons.prems(3) by (simp add: read_headers.simps [of r])
qed

text \<open>A successful \<open>ReadHttpRequest\<close> has consumed exactly the request head, at most 64 KiB that end
  with a blank line; every byte after it (a TLS ClientHello, a request body) is still to be read.\<close>

text \<open>It waits only for a client that stays silent, and for one that does so within the first line.\<close>

lemma read_headers_blocks: "read_headers r buf = (Inl NeverReturns, r') \<Longrightarrow> rd_end r = NeverReturns"
proof (induction r buf rule: read_headers.induct)
  case (1 r buf)
  obtain line e r1 where rs: "br_ReadString r = (line, e, r1)" by (metis prod_cases3)
  show ?case
  proof (cases e)
    case None
    with "1.prems" rs have rec: "read_headers r1 (buf @ line) = (Inl NeverReturns, r')"
      and "\<not> maxHeaderSize < length buf + length line" "\<not> (line = [CR, LF] \<or> line = [LF])"
      by (auto simp: read_headers.simps [of r] split: if_splits)
    with "1.IH" [OF rs [symmetric] refl None] ReadString_ok(5) [OF rs [unfolded None]] show ?thesis by simp
  next
    case (Some err)
    with "1.prems" rs ReadString_err [of r line err r1] show ?thesis by (simp add: read_headers.simps [of r])
  qed
qed

lemma ReadHttpRequest_blocks:
  assumes "ReadHttpRequest rr r = (Inl NeverReturns, r')" and "\<forall>head. rr head \<noteq> Inl NeverReturns"
  shows "rd_end r = NeverReturns"
  using assms by (auto simp: ReadHttpRequest_def split: prod.splits sum.splits dest: read_headers_blocks)

lemma ReadHttpRequest_silent:
  assumes "LF \<notin> set (rd_data r)"
  shows "ReadHttpRequest rr r = (Inl (rd_end r), r\<lparr>rd_data := []\<rparr>)"
proof -
  have "dropWhile (\<lambda>b. b \<noteq> LF) (rd_data r) = []" using assms by (auto simp: dropWhile_eq_Nil_conv)
  then have "br_ReadString r = (rd_data r, Some (rd_end r), r\<lparr>rd_data := []\<rparr>)" by (simp only: br_ReadString_def list.case)
  then show ?thesis by (simp add: ReadHttpRequest_def read_headers.simps [of r])
qed

lemma ReadHttpRequest_head:
  assumes "ReadHttpRequest rr r = (Inr p, r')"
  shows "rd_data r = raw p @ rd_data r' \<and> rd_end r' = rd_end r \<and> length (raw p) \<le> 64 * 1024 \<and>
    (\<exists>ls l. raw p = concat ls @ l \<and> (l = [CR, LF] \<or> l = [LF]) \<and> (\<forall>x\<in>set ls. x \<noteq> [CR, LF] \<and> x \<noteq> [LF]))"
proof -
  from assms obtain h req where h: "read_headers r [] = (Inr h, r')" and p: "p = request_of h req"
    by (auto simp: ReadHttpRequest_def split: prod.splits sum.splits)
  from p have "raw p = h" by (auto simp: request_of_def Let_def split: prod.splits)
  then obtain ls l where "raw p = [] @ concat ls @ l" "l = [CR, LF] \<or> l = [LF]"
    "\<forall>x\<in>set ls. x \<noteq> [CR, LF] \<and> x \<noteq> [LF]"
    and r: "rd_data r = concat ls @ l @ rd_data r'" "rd_end r' = rd_end r" "length (raw p) \<le> maxHeaderSize"
    using read_headers_ok [OF h] by blast
  then have "\<exists>ls l. raw p = concat ls @ l \<and> (l = [CR, LF] \<or> l = [LF]) \<and> (\<forall>x\<in>set ls. x \<noteq> [CR, LF] \<and> x \<noteq> [LF])"
    by (metis append_Nil)
  moreover have "rd_data r = raw p @ rd_data r'"
    using \<open>raw p = [] @ concat ls @ l\<close> r(1) by simp
  ultimately show ?thesis using r(2,3) by (simp add: maxHeaderSize_def)
qed

section \<open>Properties\<close>

definition demo_req :: http_Request where
  "demo_req = \<lparr>req_Host = ''a:443'', req_Method = ''CONNECT'', req_Proto = ''HTTP/1.1'',
     req_Path = [], req_RawQuery = [], req_RawFragment = []\<rparr>"

definition demo_rr :: http_ReadRequest where
  "demo_rr s = Inr demo_req"

lemma demo_head:
  "read_headers \<lparr>rd_data = [71, 13, 10, 13, 10] @ rest, rd_end = e\<rparr> [] = (Inr [71, 13, 10, 13, 10], \<lparr>rd_data = rest, rd_end = e\<rparr>)"
  using read_headers_lines [of "[[71, 13]]" "[CR, LF]" "[]" "\<lparr>rd_data = [71, 13, 10, 13, 10] @ rest, rd_end = e\<rparr>" rest]
  by (simp add: LF_def CR_def maxHeaderSize_def)

lemma demo_read:
  "ReadHttpRequest demo_rr \<lparr>rd_data = [71, 13, 10, 13, 10] @ rest, rd_end = e\<rparr> =
   (Inr \<lparr>raw = [71, 13, 10, 13, 10], hr_method = ''CONNECT'', hr_domain = ''a'', hr_port = ''443'',
         hr_path = ''/'', hr_version = ''HTTP/1.1''\<rparr>, \<lparr>rd_data = rest, rd_end = e\<rparr>)"
proof -
  have "net_SplitHostPort ''a:443'' = Inr (''a'', ''443'')"
    using SplitHostPort_JoinHostPort [of "''a''" "''443''"] by (simp add: net_JoinHostPort_def)
  then show ?thesis using demo_head [of rest e] by (simp add: ReadHttpRequest_def demo_rr_def demo_req_def request_of_def)
qed

text \<open>C21: Every request head of at most 64 KiB is accepted: whatever non-blank lines it has, ended by a
  line feed with or without a carriage return, and whatever follows it, the head is handed to the
  parser and the rest of the stream is left unread.  (Assumed of \<open>http.ReadRequest\<close>, a parameter: it accepts
  that head.)\<close>

theorem ReadHttpRequest_accepts_head:
  assumes "\<forall>x\<in>set ls. x \<noteq> [CR] \<and> x \<noteq> [] \<and> LF \<notin> set x" and "l = [CR, LF] \<or> l = [LF]"
    and "h = concat (map (\<lambda>x. x @ [LF]) ls) @ l" and "length h \<le> 64 * 1024"
    and "rr (string_of_bytes h) = Inr req"
  shows "ReadHttpRequest rr \<lparr>rd_data = h @ rest, rd_end = e\<rparr> =
    (Inr (request_of h req), \<lparr>rd_data = rest, rd_end = e\<rparr>)"
  using assms read_headers_lines [of ls l "[]" "\<lparr>rd_data = h @ rest, rd_end = e\<rparr>" rest]
  by (simp add: ReadHttpRequest_def maxHeaderSize_def)

theorem ReadHttpRequest_accepts_head_witness:
  "ReadHttpRequest demo_rr \<lparr>rd_data = [71, 10, 10] @ [22], rd_end = EOF\<rparr> =
    (Inr (request_of [71, 10, 10] demo_req), \<lparr>rd_data = [22], rd_end = EOF\<rparr>)"
  using ReadHttpRequest_accepts_head [of "[[71]]" "[LF]" "[71, 10, 10]" demo_rr demo_req "[22]" EOF]
  by (simp add: LF_def CR_def demo_rr_def)

text \<open>C22: \<open>Tidy\<close> on a request head with CRLF line ends keeps every header line in order, except those
  that start with \<open>Proxy-Connection\<close>, and puts the origin-form request line first.\<close>

theorem Tidy_rewrites_head:
  assumes "string_of_bytes (raw p) = http_head (l0 # ls)" and "\<forall>l\<in>set (l0 # ls). wf_line l"
    and "\<not> strings_HasPrefix (request_line p) ''Proxy-Connection''"
  shows "string_of_bytes (raw (Tidy p)) =
    http_head (request_line p # filter (\<lambda>m. \<not> strings_HasPrefix m ''Proxy-Connection'') ls)"
  using Tidy_http_head [OF assms(1,2)] assms(3) by simp

definition demo_request :: "string \<Rightarrow> HttpRequest" where
  "demo_request s = \<lparr>raw = bytes_of_string s, hr_method = ''GET'', hr_domain = ''a'', hr_port = [],
     hr_path = ''/'', hr_version = ''HTTP/1.1''\<rparr>"

lemma demo_request_line: "request_line (demo_request s) = ''GET / HTTP/1.1''"
  by (simp add: request_line_def demo_request_def)

theorem Tidy_rewrites_head_witness:
  "string_of_bytes (raw (Tidy (demo_request
     (http_head [''GET http://a/ HTTP/1.1'', ''Host: a'', ''Proxy-Connection: close''])))) =
   http_head [''GET / HTTP/1.1'', ''Host: a'']"
proof -
  let ?p = "demo_request (http_head [''GET http://a/ HTTP/1.1'', ''Host: a'', ''Proxy-Connection: close''])"
  have r: "string_of_bytes (raw ?p) =
      http_head (''GET http://a/ HTTP/1.1'' # [''Host: a'', ''Proxy-Connection: close''])"
    by (simp add: demo_request_def)
  have w: "\<forall>l\<in>set (''GET http://a/ HTTP/1.1'' # [''Host: a'', ''Proxy-Connection: close'']). wf_line l"
    by (simp add: wf_line_def no_crlf_def crlf_def strings_HasPrefix_def)
  show ?thesis
    using Tidy_rewrites_head [OF r w] by (simp add: demo_request_line strings_HasPrefix_def)
qed

text \<open>\<open>Tidy\<close> is idempotent on such heads.\<close>

lemma Tidy_idempotent:
  assumes "string_of_bytes (raw p) = http_head (l0 # ls)" and "\<forall>l\<in>set (l0 # ls). wf_line l"
    and "\<not> strings_HasPrefix (request_line p) ''Proxy-Connection''" and "no_crlf (request_line p)"
  shows "Tidy (Tidy p) = Tidy p"
proof -
  let ?ks = "filter (\<lambda>m. \<not> strings_HasPrefix m ''Proxy-Connection'') ls"
  have h: "string_of_bytes (raw (Tidy p)) = http_head (request_line p # ?ks)"
    using Tidy_http_head [OF assms(1,2)] assms(3) by simp
  moreover have "\<forall>l\<in>set (request_line p # ?ks). wf_line l"
    using assms(2,4) by (auto simp: wf_line_def request_line_def)
  ultimately have "string_of_bytes (raw (Tidy (Tidy p))) = string_of_bytes (raw (Tidy p))"
    using Tidy_http_head [of "Tidy p"] assms(3) by (simp add: filter_filter [symmetric])
  then have "raw (Tidy (Tidy p)) = raw (Tidy p)"
    by (metis bytes_of_string_of_bytes)
  then show ?thesis by (simp add: HttpRequest.equality)
qed

text \<open>C40: \<open>ReadHttpRequest\<close> also accepts heads whose lines end with a bare line feed, but \<open>Tidy\<close> then
  finds no CRLF to split at and replaces the whole head by the request line: all header fields,
  the \<open>Host\<close> field included, are dropped from the request that is forwarded.\<close>

theorem Tidy_drops_headers_without_CR:
  assumes "CHR 0x0D \<notin> set (string_of_bytes (raw p))"
    and "\<not> strings_HasPrefix (request_line p) ''Proxy-Connection''"
  shows "string_of_bytes (raw (Tidy p)) = request_line p @ crlf @ crlf"
  using Tidy_no_CR [OF assms(1)] assms(2) by (simp add: http_head_def)

theorem Tidy_drops_headers_without_CR_witness:
  "string_of_bytes (raw (Tidy (demo_request
     (''GET http://a/ HTTP/1.1'' @ [CHR 0x0A] @ ''Host: a'' @ [CHR 0x0A, CHR 0x0A])))) =
   ''GET / HTTP/1.1'' @ crlf @ crlf"
  using Tidy_drops_headers_without_CR
    [of "demo_request (''GET http://a/ HTTP/1.1'' @ [CHR 0x0A] @ ''Host: a'' @ [CHR 0x0A, CHR 0x0A])"]
  by (simp add: demo_request_line strings_HasPrefix_def) (simp add: demo_request_def)

text \<open>The 64 KiB limit on the head is tested only after a complete line has been read: a line of any
  length is read to its end and buffered before the request is refused.\<close>

lemma long_line_read_before_limit:
  assumes "64 * 1024 \<le> n"
  shows "ReadHttpRequest rr \<lparr>rd_data = replicate n 97 @ LF # rest, rd_end = e\<rparr> =
    (Inl (ErrString ''headers too large''), \<lparr>rd_data = rest, rd_end = e\<rparr>)"
proof -
  have "LF \<notin> set (replicate n (97 :: byte))" by (simp add: LF_def)
  from ReadString_line [OF this, of "\<lparr>rd_data = replicate n 97 @ LF # rest, rd_end = e\<rparr>" rest] assms
  show ?thesis
    by (simp add: ReadHttpRequest_def read_headers.simps [of "\<lparr>rd_data = replicate n 97 @ LF # rest, rd_end = e\<rparr>"]
        maxHeaderSize_def)
qed

end
