(* ===== verification/Dns_Resolver.thy ===== *)
theory Dns_Resolver
  imports Addr_Flags
begin

text \<open>
  Package \<open>dns/resolver\<close>, file \<open>resolver.go\<close>: one query for each record type, run in
  parallel, and the collection of their answers.  The DNS library (\<open>github.com/miekg/dns\<close>) is
  not part of the sources: a reply is the record \<open>dns_Msg\<close> with the fields the code reads,
  \<open>dns.Fqdn\<close> and the exchange with the server are parameters.  The goroutines of
  \<open>lookupAllTypes\<close>, the channel and the select loop of \<open>processResults\<close> are the step relation
  \<open>lookup_step\<close>.
\<close>

section \<open>Messages\<close>

datatype dns_RR = RR_A bytes | RR_AAAA bytes | RR_other

record dns_Msg =
  Answer :: "dns_RR list"
  Truncated :: bool
  Rcode :: nat

record dns_Query =
  Qname :: string
  Qtype :: uint16
  RecursionDesired :: bool

type_synonym exchangeFunc = "dns_Query \<Rightarrow> dns_Msg option result"

definition TypeA :: uint16 where "TypeA = 1"
definition TypeAAAA :: uint16 where "TypeAAAA = 28"

record DNSResult =
  res_msg :: "dns_Msg option"
  res_err :: "go_error option"

definition recordTypeIDToName :: "uint16 \<Rightarrow> string" where
  "recordTypeIDToName qid =
     (if qid = TypeA then ''A'' else if qid = TypeAAAA then ''AAAA'' else format_nat (unat qid))"

fun addr_of_RR :: "dns_RR \<Rightarrow> net_IPAddr list" where
  "addr_of_RR (RR_A ip) = [\<lparr>IP = ip, Zone = []\<rparr>]"
| "addr_of_RR (RR_AAAA ip) = [\<lparr>IP = ip, Zone = []\<rparr>]"
| "addr_of_RR RR_other = []"

definition parseAddrsFromMsg :: "dns_Msg option \<Rightarrow> net_IPAddr list" where
  "parseAddrsFromMsg msg = (case msg of None \<Rightarrow> [] | Some m \<Rightarrow> concat (map addr_of_RR (Answer m)))"

definition newMsg :: "(string \<Rightarrow> string) \<Rightarrow> string \<Rightarrow> uint16 \<Rightarrow> dns_Query" where
  "newMsg fqdn host qType = \<lparr>Qname = fqdn host, Qtype = qType, RecursionDesired = True\<rparr>"

definition lookupType :: "(string \<Rightarrow> string) \<Rightarrow> string \<Rightarrow> uint16 \<Rightarrow> exchangeFunc \<Rightarrow> DNSResult" where
  "lookupType fqdn host queryType exchange =
     (case exchange (newMsg fqdn host queryType) of
        Inl err \<Rightarrow> \<lparr>res_msg = None,
                   res_err = Some (ErrWrap (recordTypeIDToName queryType @ '' '' @ host) err)\<rparr>
      | Inr resp \<Rightarrow> \<lparr>res_msg = resp, res_err = None\<rparr>)"

text \<open>
  \<open>sortAddrs\<close> sorts in place.  The panic of \<open>sortByRFC6724withSrcs\<close> is the first branch;
  \<open>sortAddrs_eq\<close> below shows that it is never taken.
\<close>

definition sortAddrs :: "net_env \<Rightarrow> net_IPAddr list \<Rightarrow> net_IPAddr list" where
  "sortAddrs env as = (case SortByRFC6724 (defaultSrcAddrs env) as of Inl panic \<Rightarrow> as | Inr ys \<Rightarrow> ys)"

section \<open>Collecting the answers\<close>

type_synonym resolve_result = "net_IPAddr list \<times> go_error option"

text \<open>The accumulators \<open>addrs\<close> and \<open>errs\<close> after one more result from the channel.\<close>

definition process_recv :: "DNSResult \<Rightarrow> net_IPAddr list \<times> go_error list \<Rightarrow> net_IPAddr list \<times> go_error list" where
  "process_recv res acc =
     (case res_err res of
        Some err \<Rightarrow> (fst acc, snd acc @ [err])
      | None \<Rightarrow> (fst acc @ parseAddrsFromMsg (res_msg res), snd acc))"

definition sorted_addrs :: "net_env \<Rightarrow> net_IPAddr list \<Rightarrow> net_IPAddr list" where
  "sorted_addrs env as = (if 1 < length as then sortAddrs env as else as)"

definition process_closed :: "net_env \<Rightarrow> net_IPAddr list \<times> go_error list \<Rightarrow> resolve_result" where
  "process_closed env acc =
     (if fst acc = [] then ([], errors_Join (snd acc)) else (sorted_addrs env (fst acc), None))"

definition process_ctx :: "net_env \<Rightarrow> go_error \<Rightarrow> net_IPAddr list \<times> go_error list \<Rightarrow> resolve_result" where
  "process_ctx env ctxErr acc =
     (if fst acc \<noteq> [] then (sorted_addrs env (fst acc), None) else ([], Some ctxErr))"

record lookup_state =
  lk_running :: "DNSResult list"
  lk_cap :: nat
  lk_chan :: "DNSResult list"
  lk_closed :: bool
  lk_ctx :: "go_error option"
  lk_acc :: "net_IPAddr list \<times> go_error list"
  lk_ret :: "resolve_result option"

definition lookup_init :: "(string \<Rightarrow> string) \<Rightarrow> string \<Rightarrow> uint16 list \<Rightarrow> exchangeFunc \<Rightarrow> lookup_state" where
  "lookup_init fqdn host qTypes exchange =
     \<lparr>lk_running = map (\<lambda>q. lookupType fqdn host q exchange) qTypes, lk_cap = length qTypes, lk_chan = [],
      lk_closed = False, lk_ctx = None, lk_acc = ([], []), lk_ret = None\<rparr>"

text \<open>
  \<open>lk_running\<close> holds, for each query goroutine that has not finished, the result it will deliver:
  \<open>exchange\<close> gives the outcome of each call in the run at hand, whatever it is (an answer, a
  timeout, the context's error).  \<open>lk_cap\<close> is the capacity of the channel.
  \<open>send\<close> and \<open>give_up\<close> are the two branches of its select (the second only when the context is
  done), \<open>close_chan\<close> is the goroutine that waits for all of them.  The last three rules are the
  branches of the select in \<open>processResults\<close>.
\<close>

inductive lookup_step :: "net_env \<Rightarrow> lookup_state \<Rightarrow> lookup_state \<Rightarrow> bool" for env where
  send: "r \<in> set (lk_running s) \<Longrightarrow> length (lk_chan s) < lk_cap s \<Longrightarrow>
    lookup_step env s (s\<lparr>lk_running := remove1 r (lk_running s), lk_chan := lk_chan s @ [r]\<rparr>)"
| give_up: "r \<in> set (lk_running s) \<Longrightarrow> lk_ctx s \<noteq> None \<Longrightarrow>
    lookup_step env s (s\<lparr>lk_running := remove1 r (lk_running s)\<rparr>)"
| close_chan: "lk_running s = [] \<Longrightarrow> \<not> lk_closed s \<Longrightarrow> lookup_step env s (s\<lparr>lk_closed := True\<rparr>)"
| recv: "lk_ret s = None \<Longrightarrow> lk_chan s = r # rs \<Longrightarrow>
    lookup_step env s (s\<lparr>lk_chan := rs, lk_acc := process_recv r (lk_acc s)\<rparr>)"
| recv_closed: "lk_ret s = None \<Longrightarrow> lk_chan s = [] \<Longrightarrow> lk_closed s \<Longrightarrow>
    lookup_step env s (s\<lparr>lk_ret := Some (process_closed env (lk_acc s))\<rparr>)"
| ctx_done: "lk_ret s = None \<Longrightarrow> lk_ctx s = Some e \<Longrightarrow>
    lookup_step env s (s\<lparr>lk_ret := Some (process_ctx env e (lk_acc s))\<rparr>)"

text \<open>The context is cancelled or its deadline passes at any moment, once.\<close>

inductive lookup_cancel :: "lookup_state \<Rightarrow> lookup_state \<Rightarrow> bool" where
  cancel: "lk_ctx s = None \<Longrightarrow> e \<in> {Canceled, DeadlineExceeded} \<Longrightarrow> lookup_cancel s (s\<lparr>lk_ctx := Some e\<rparr>)"

definition lookup_any :: "net_env \<Rightarrow> lookup_state \<Rightarrow> lookup_state \<Rightarrow> bool" where
  "lookup_any env s t \<longleftrightarrow> lookup_step env s t \<or> lookup_cancel s t"

inductive_cases lookup_stepE [elim]: "lookup_step env s t"
inductive_cases lookup_cancelE [elim]: "lookup_cancel s t"

section \<open>Lemmas\<close>

lemma sortAddrs_eq: "sortAddrs env as = stable_sort (prefers env) as"
  by (simp add: sortAddrs_def SortByRFC6724_eq)

lemma sorted_addrs_eq: "sorted_addrs env as = stable_sort (prefers env) as"
  by (simp add: sorted_addrs_def sortAddrs_eq stable_sort_short)

lemma process_closed_eq:
  "process_closed env acc =
     (stable_sort (prefers env) (fst acc), if fst acc = [] then errors_Join (snd acc) else None)"
  by (simp add: process_closed_def sorted_addrs_eq stable_sort_short)

lemma process_ctx_eq:
  "process_ctx env e acc = (stable_sort (prefers env) (fst acc), if fst acc = [] then Some e else None)"
  by (simp add: process_ctx_def sorted_addrs_eq stable_sort_short)

text \<open>What a list of results amounts to, in the order of receipt.\<close>

definition result_addrs :: "DNSResult \<Rightarrow> net_IPAddr list" where
  "result_addrs r = (if res_err r = None then parseAddrsFromMsg (res_msg r) else [])"

definition result_errs :: "DNSResult \<Rightarrow> go_error list" where
  "result_errs r = (case res_err r of None \<Rightarrow> [] | Some e \<Rightarrow> [e])"

definition gather :: "DNSResult list \<Rightarrow> net_IPAddr list \<times> go_error list" where
  "gather rs = (concat (map result_addrs rs), concat (map result_errs rs))"

lemma process_recv_gather: "process_recv r (gather rs) = gather (rs @ [r])"
  by (auto simp: process_recv_def gather_def result_addrs_def result_errs_def split: option.splits)

text \<open>
  The invariant: the results received, in the channel and still running are, together, results of
  the queries, and all of them as long as the context lives; the accumulators are those of the
  received ones.
\<close>

definition lookup_inv_at :: "net_env \<Rightarrow> DNSResult list \<Rightarrow> DNSResult list \<Rightarrow> lookup_state \<Rightarrow> bool" where
  "lookup_inv_at env results rcvd s \<longleftrightarrow>
     lk_acc s = gather rcvd \<and> lk_cap s = length results \<and>
     mset rcvd + mset (lk_chan s) + mset (lk_running s) \<subseteq># mset results \<and>
     (lk_ctx s = None \<longrightarrow> mset rcvd + mset (lk_chan s) + mset (lk_running s) = mset results) \<and>
     (lk_closed s \<longrightarrow> lk_running s = []) \<and>
     (\<forall>v. lk_ret s = Some v \<longrightarrow>
        v = process_closed env (lk_acc s) \<and> (lk_ctx s = None \<longrightarrow> mset rcvd = mset results) \<or>
        (\<exists>e. lk_ctx s = Some e \<and> v = process_ctx env e (lk_acc s)))"

definition lookup_inv :: "net_env \<Rightarrow> DNSResult list \<Rightarrow> lookup_state \<Rightarrow> bool" where
  "lookup_inv env results s \<longleftrightarrow> (\<exists>rcvd. lookup_inv_at env results rcvd s)"

lemma lookup_inv_init:
  "lookup_inv env (map (\<lambda>q. lookupType fqdn host q exchange) qTypes) (lookup_init fqdn host qTypes exchange)"
  unfolding lookup_inv_def
  by (rule exI [of _ "[]"]) (simp add: lookup_inv_at_def lookup_init_def gather_def)

lemma lookup_step_inv_at:
  assumes "lookup_step env s t" and inv: "lookup_inv_at env results rcvd s"
  shows "\<exists>rcvd'. lookup_inv_at env results rcvd' t"
  using assms(1)
proof cases
  case (send r)
  note m = mset_remove1_insert [OF send(2)]
  have "lookup_inv_at env results rcvd t"
    using inv send by (auto simp: lookup_inv_at_def m simp del: mset_remove1)
  then show ?thesis ..
next
  case (give_up r)
  with inv have "lookup_inv_at env results rcvd t"
    by (auto simp: lookup_inv_at_def simp del: mset_remove1 intro: mset_remove1_le)
  then show ?thesis ..
next
  case close_chan
  with inv have "lookup_inv_at env results rcvd t" by (auto simp: lookup_inv_at_def)
  then show ?thesis ..
next
  case (recv r rs)
  with inv have "lookup_inv_at env results (rcvd @ [r]) t"
    by (auto simp: lookup_inv_at_def process_recv_gather)
  then show ?thesis ..
next
  case recv_closed
  with inv have "lookup_inv_at env results rcvd t" by (auto simp: lookup_inv_at_def)
  then show ?thesis ..
next
  case (ctx_done e)
  with inv have "lookup_inv_at env results rcvd t" by (auto simp: lookup_inv_at_def)
  then show ?thesis ..
qed

lemma lookup_any_inv: "lookup_any env s t \<Longrightarrow> lookup_inv env results s \<Longrightarrow> lookup_inv env results t"
proof -
  assume "lookup_any env s t" and "lookup_inv env results s"
  moreover have "lookup_inv_at env results rcvd t" if "lookup_cancel s t" "lookup_inv_at env results rcvd s" for rcvd
    using that by (auto simp: lookup_inv_at_def elim!: lookup_cancelE)
  ultimately show ?thesis
    unfolding lookup_any_def lookup_inv_def using lookup_step_inv_at by blast
qed

interpretation lookup: invariant_system "lookup_any env" "lookup_inv env results" for env results
  by unfold_locales (rule lookup_any_inv)

definition lookup_msr :: "lookup_state \<Rightarrow> nat" where
  "lookup_msr s = 2 * length (lk_running s) + length (lk_chan s) + of_bool (\<not> lk_closed s) +
     of_bool (lk_ret s = None)"

interpretation lookup_prog: measured_system "lookup_step env" "\<lambda>_. True" lookup_msr for env
proof unfold_locales
  fix s t
  assume "lookup_step env s t"
  then show "lookup_msr t < lookup_msr s"
  proof cases
    case (send r)
    with length_remove1_Suc [OF send(2)] show ?thesis by (simp add: lookup_msr_def del: length_remove1)
  next
    case (give_up r)
    with length_remove1_Suc [OF give_up(2)] show ?thesis by (simp add: lookup_msr_def del: length_remove1)
  qed (auto simp: lookup_msr_def)
qed simp

lemma lookup_inv_capacity:
  assumes "lookup_inv env results s" and "lk_running s \<noteq> []"
  shows "length (lk_chan s) < lk_cap s"
proof -
  from assms(1) obtain rcvd where "lookup_inv_at env results rcvd s"
    by (auto simp: lookup_inv_def)
  then have cap: "lk_cap s = length results"
    and "mset rcvd + mset (lk_chan s) + mset (lk_running s) \<subseteq># mset results"
    by (simp_all add: lookup_inv_at_def)
  then have "length rcvd + length (lk_chan s) + length (lk_running s) \<le> length results"
    by (metis size_mset size_mset_mono size_union)
  with assms(2) cap show ?thesis by (cases "lk_running s") auto
qed

lemma lookup_inv_msr:
  assumes "lookup_inv env results s"
  shows "lookup_msr s \<le> 2 * length results + 2"
proof -
  from assms obtain rcvd where "mset rcvd + mset (lk_chan s) + mset (lk_running s) \<subseteq># mset results"
    by (auto simp: lookup_inv_def lookup_inv_at_def)
  then have "length rcvd + length (lk_chan s) + length (lk_running s) \<le> length results"
    by (metis size_mset size_mset_mono size_union)
  then show ?thesis by (simp add: lookup_msr_def of_bool_def)
qed

lemma lookup_progress:
  assumes "lookup_inv env results s" and "lk_ret s = None \<or> lk_running s \<noteq> [] \<or> \<not> lk_closed s"
  shows "\<exists>t. lookup_step env s t"
proof (cases "lk_running s")
  case Nil
  show ?thesis
  proof (cases "lk_closed s")
    case False
    with Nil show ?thesis by (blast intro: lookup_step.close_chan)
  next
    case True
    with assms Nil have "lk_ret s = None" by simp
    with True show ?thesis
      by (cases "lk_chan s") (blast intro: lookup_step.recv lookup_step.recv_closed)+
  qed
next
  case (Cons r rs)
  then have "r \<in> set (lk_running s)" by simp
  moreover have "length (lk_chan s) < lk_cap s"
    using Cons by (intro lookup_inv_capacity [OF assms(1)]) simp
  ultimately show ?thesis by (blast intro: lookup_step.send)
qed

text \<open>A returned value, read off the invariant.\<close>

definition lookup_outcome :: "net_env \<Rightarrow> go_error option \<Rightarrow> DNSResult list \<Rightarrow> resolve_result" where
  "lookup_outcome env ctx rcvd =
     (let as = concat (map result_addrs rcvd)
      in (stable_sort (prefers env) as,
          if as \<noteq> [] then None
          else case ctx of None \<Rightarrow> errors_Join (concat (map result_errs rcvd)) | Some e \<Rightarrow> Some e))"

lemma process_closed_gather: "process_closed env (gather rs) = lookup_outcome env None rs"
  unfolding process_closed_eq gather_def lookup_outcome_def Let_def fst_conv snd_conv option.case
  by simp

lemma process_ctx_gather: "process_ctx env e (gather rs) = lookup_outcome env (Some e) rs"
  unfolding process_ctx_eq gather_def lookup_outcome_def Let_def fst_conv snd_conv option.case
  by simp

lemma lookup_inv_returned:
  assumes "lookup_inv env results s" and "lk_ret s = Some v"
  shows "\<exists>rcvd. mset rcvd \<subseteq># mset results \<and> (lk_ctx s = None \<longrightarrow> mset rcvd = mset results) \<and>
    (\<exists>ctx. v = lookup_outcome env ctx rcvd \<and> (lk_ctx s = None \<longrightarrow> ctx = None))"
proof -
  from assms(1) obtain rcvd where I: "lookup_inv_at env results rcvd s"
    by (auto simp: lookup_inv_def)
  then have sub: "mset rcvd + mset (lk_chan s) + mset (lk_running s) \<subseteq># mset results"
    and acc: "lk_acc s = gather rcvd"
    by (simp_all add: lookup_inv_at_def)
  have "mset rcvd \<subseteq># mset rcvd + mset (lk_chan s) + mset (lk_running s)"
    by (simp add: add.assoc)
  then have "mset rcvd \<subseteq># mset results" using sub by (rule subset_mset.order_trans)
  moreover have
    "v = process_closed env (gather rcvd) \<and> (lk_ctx s = None \<longrightarrow> mset rcvd = mset results) \<or>
     (\<exists>e. lk_ctx s = Some e \<and> v = process_ctx env e (gather rcvd))"
    using I assms(2) acc by (simp add: lookup_inv_at_def)
  ultimately show ?thesis
    by (intro exI [of _ rcvd])
       (auto simp: process_closed_gather process_ctx_gather)
qed

text \<open>The addresses and the errors of the queries, type by type.\<close>

definition answers_of :: "(string \<Rightarrow> string) \<Rightarrow> string \<Rightarrow> uint16 list \<Rightarrow> exchangeFunc \<Rightarrow> net_IPAddr list" where
  "answers_of fqdn host qTypes exchange =
     concat (map (\<lambda>q. case exchange (newMsg fqdn host q) of Inl err \<Rightarrow> [] | Inr resp \<Rightarrow> parseAddrsFromMsg resp) qTypes)"

definition errors_of :: "(string \<Rightarrow> string) \<Rightarrow> string \<Rightarrow> uint16 list \<Rightarrow> exchangeFunc \<Rightarrow> go_error list" where
  "errors_of fqdn host qTypes exchange =
     concat (map (\<lambda>q. case exchange (newMsg fqdn host q) of
       Inl err \<Rightarrow> [ErrWrap (recordTypeIDToName q @ '' '' @ host) err] | Inr resp \<Rightarrow> []) qTypes)"

lemma answers_of_results:
  "answers_of fqdn host qTypes exchange =
     concat (map result_addrs (map (\<lambda>q. lookupType fqdn host q exchange) qTypes))"
  by (induction qTypes) (auto simp: answers_of_def result_addrs_def lookupType_def split: sum.splits)

lemma errors_of_results:
  "errors_of fqdn host qTypes exchange =
     concat (map result_errs (map (\<lambda>q. lookupType fqdn host q exchange) qTypes))"
  by (induction qTypes) (auto simp: errors_of_def result_errs_def lookupType_def split: sum.splits)

lemma mset_concat_map_eq: "mset rs = mset rs' \<Longrightarrow> mset (concat (map f rs)) = mset (concat (map f rs'))"
  by (simp add: mset_concat mset_map flip: sum_mset_sum_list)

lemma mset_concat_map_mono:
  assumes "mset rs \<subseteq># mset rs'"
  shows "mset (concat (map f rs)) \<subseteq># mset (concat (map f rs'))"
proof -
  obtain us where "mset us = mset rs' - mset rs" using ex_mset by blast
  then have "mset (rs @ us) = mset rs'" using assms by simp
  then have "mset (concat (map f (rs @ us))) = mset (concat (map f rs'))"
    by (rule mset_concat_map_eq)
  then show ?thesis by (metis concat_append map_append mset_append mset_subset_eq_add_left)
qed

lemma lookup_outcome_no_both: "lookup_outcome env ctx rs = (as, Some e) \<Longrightarrow> as = []"
  by (auto simp: lookup_outcome_def Let_def split: if_splits)

text \<open>A concrete lookup, of one record type, answered with one address while the context lives.\<close>

definition demo_exchange :: exchangeFunc where
  "demo_exchange q = Inr (Some \<lparr>Answer = [RR_other, RR_A [9, 9, 9, 9]], Truncated = False, Rcode = 0\<rparr>)"

definition demo_lookup :: lookup_state where
  "demo_lookup = lookup_init (\<lambda>h. h @ ''.'') ''a.tr'' [TypeA] demo_exchange"

lemma demo_lookup_run:
  "\<exists>s. (lookup_any env)\<^sup>*\<^sup>* demo_lookup s \<and> lk_ctx s = None \<and>
     lk_ret s = Some ([\<lparr>IP = [9, 9, 9, 9], Zone = []\<rparr>], None)"
proof -
  let ?r = "lookupType (\<lambda>h. h @ ''.'') ''a.tr'' TypeA demo_exchange"
  let ?s1 = "demo_lookup\<lparr>lk_running := [], lk_chan := [?r]\<rparr>"
  let ?s2 = "?s1\<lparr>lk_closed := True\<rparr>"
  let ?s3 = "?s2\<lparr>lk_chan := [], lk_acc := process_recv ?r (lk_acc ?s2)\<rparr>"
  let ?s4 = "?s3\<lparr>lk_ret := Some (process_closed env (lk_acc ?s3))\<rparr>"
  have "lookup_any env demo_lookup ?s1" "lookup_any env ?s1 ?s2" "lookup_any env ?s2 ?s3" "lookup_any env ?s3 ?s4"
    using lookup_step.send [of ?r demo_lookup env] lookup_step.close_chan [of ?s1 env]
      lookup_step.recv [of ?s2 ?r "[]" env] lookup_step.recv_closed [of ?s3 env]
    by (simp_all add: lookup_any_def demo_lookup_def lookup_init_def)
  then have "(lookup_any env)\<^sup>*\<^sup>* demo_lookup ?s4"
    by (meson converse_rtranclp_into_rtranclp rtranclp.rtrancl_refl)
  moreover have "lk_ret ?s4 = Some ([\<lparr>IP = [9, 9, 9, 9], Zone = []\<rparr>], None)"
    by (simp add: process_recv_def lookupType_def demo_exchange_def parseAddrsFromMsg_def
        process_closed_def sorted_addrs_def demo_lookup_def lookup_init_def)
  moreover have "lk_ctx ?s4 = None" by (simp add: demo_lookup_def lookup_init_def)
  ultimately show ?thesis by blast
qed

section \<open>Properties\<close>

text \<open>C16: whatever the order in which the goroutines of \<open>lookupAllTypes\<close> finish and whenever the
  context ends, a result of \<open>processResults\<close> holds only addresses of the answers, at most as often
  as the answers hold them, in RFC 6724 order, and never with an error; as long as the context
  lives it holds all of them, and an empty result carries exactly the errors of the queries that
  failed, joined.\<close>

theorem lookupAllTypes_collects:
  assumes "(lookup_any env)\<^sup>*\<^sup>* (lookup_init fqdn host qTypes exchange) s"
    and "lk_ret s = Some (addrs, err)"
  shows "mset addrs \<subseteq># mset (answers_of fqdn host qTypes exchange) \<and>
    sorted_by (prefers env) addrs \<and> (addrs \<noteq> [] \<longrightarrow> err = None) \<and>
    (lk_ctx s = None \<longrightarrow>
       mset addrs = mset (answers_of fqdn host qTypes exchange) \<and>
       (addrs = [] \<longrightarrow> (\<exists>es. mset es = mset (errors_of fqdn host qTypes exchange) \<and> err = errors_Join es)))"
proof -
  let ?results = "map (\<lambda>q. lookupType fqdn host q exchange) qTypes"
  have "lookup_inv env ?results s"
    using assms(1) lookup_inv_init by (rule lookup.run_invar)
  from lookup_inv_returned [OF this assms(2)] obtain rcvd ctx where
    sub: "mset rcvd \<subseteq># mset ?results" and all: "lk_ctx s = None \<longrightarrow> mset rcvd = mset ?results"
    and err: "(addrs, err) = lookup_outcome env ctx rcvd" "lk_ctx s = None \<longrightarrow> ctx = None"
    by (elim exE conjE) (rule that)
  from err(1) have addrs: "addrs = stable_sort (prefers env) (concat (map result_addrs rcvd))"
    by (simp add: lookup_outcome_def Let_def)
  have ms: "mset addrs = mset (concat (map result_addrs rcvd))"
    by (simp only: addrs mset_stable_sort)
  have "mset addrs \<subseteq># mset (answers_of fqdn host qTypes exchange)"
    unfolding ms answers_of_results by (rule mset_concat_map_mono [OF sub])
  moreover have "sorted_by (prefers env) addrs"
    unfolding addrs by (rule pref.sorted_stable_sort) simp
  moreover have "addrs \<noteq> [] \<longrightarrow> err = None"
    using lookup_outcome_no_both [of env ctx rcvd addrs] err(1) by (cases err) (auto simp: eq_commute)
  moreover have "mset addrs = mset (answers_of fqdn host qTypes exchange) \<and>
      (addrs = [] \<longrightarrow> (\<exists>es. mset es = mset (errors_of fqdn host qTypes exchange) \<and> err = errors_Join es))"
    if "lk_ctx s = None"
  proof -
    from that all have eq: "mset rcvd = mset ?results" by simp
    have "addrs = [] \<longrightarrow> err = errors_Join (concat (map result_errs rcvd))"
      using err that by (auto simp: lookup_outcome_def Let_def split: if_splits)
    moreover have "mset (concat (map result_errs rcvd)) = mset (errors_of fqdn host qTypes exchange)"
      unfolding errors_of_results by (rule mset_concat_map_eq [OF eq])
    ultimately show ?thesis
      unfolding ms answers_of_results using mset_concat_map_eq [OF eq, of result_addrs] by blast
  qed
  ultimately show ?thesis by blast
qed

theorem lookupAllTypes_collects_witness:
  "\<exists>s addrs. (lookup_any demo_env)\<^sup>*\<^sup>* demo_lookup s \<and> lk_ret s = Some (addrs, None) \<and>
     addrs = [\<lparr>IP = [9, 9, 9, 9], Zone = []\<rparr>] \<and>
     mset addrs = mset (answers_of (\<lambda>h. h @ ''.'') ''a.tr'' [TypeA] demo_exchange)"
proof -
  obtain s where s: "(lookup_any demo_env)\<^sup>*\<^sup>* demo_lookup s" "lk_ctx s = None"
    "lk_ret s = Some ([\<lparr>IP = [9, 9, 9, 9], Zone = []\<rparr>], None)"
    using demo_lookup_run by blast
  from lookupAllTypes_collects [OF s(1) [unfolded demo_lookup_def] s(3)] s show ?thesis by blast
qed

text \<open>C17: the lookup always ends, and leaves nothing behind: a run has at most \<open>2 n + 2\<close> steps for
  \<open>n\<close> record types (besides the end of the context), and a state in which no goroutine can go on is
  one in which \<open>processResults\<close> has returned, every query goroutine is gone and the channel is
  closed.  The channel has room for every answer, so a sender never waits for a reader that has
  left.\<close>

theorem lookup_returns_without_leak:
  assumes "(lookup_any env)\<^sup>*\<^sup>* (lookup_init fqdn host qTypes exchange) s"
  shows "(\<exists>t. (lookup_step env)\<^sup>*\<^sup>* s t \<and> (\<forall>u. \<not> lookup_step env t u)) \<and>
    (\<forall>n t. (lookup_step env ^^ n) s t \<longrightarrow> n \<le> 2 * length qTypes + 2) \<and>
    ((\<forall>u. \<not> lookup_step env s u) \<longrightarrow> lk_ret s \<noteq> None \<and> lk_running s = [] \<and> lk_closed s)"
proof -
  let ?results = "map (\<lambda>q. lookupType fqdn host q exchange) qTypes"
  have inv: "lookup_inv env ?results s"
    using assms lookup_inv_init by (rule lookup.run_invar)
  have "lookup_msr s \<le> 2 * length qTypes + 2"
    using lookup_inv_msr [OF inv] by simp
  then have "n \<le> 2 * length qTypes + 2" if "(lookup_step env ^^ n) s t" for n t
    using lookup_prog.run_length [OF that] by simp
  moreover have "\<exists>t. (lookup_step env)\<^sup>*\<^sup>* s t \<and> (\<forall>u. \<not> lookup_step env t u)"
    by (rule lookup_prog.reaches_final) simp
  moreover have "lk_ret s \<noteq> None \<and> lk_running s = [] \<and> lk_closed s" if "\<forall>u. \<not> lookup_step env s u"
  proof -
    have "\<not> (lk_ret s = None \<or> lk_running s \<noteq> [] \<or> \<not> lk_closed s)"
      using that lookup_progress [OF inv] by metis
    then show ?thesis by simp
  qed
  ultimately show ?thesis by blast
qed

theorem lookup_returns_without_leak_witness:
  "\<exists>t. (lookup_step demo_env)\<^sup>*\<^sup>* demo_lookup t \<and> (\<forall>u. \<not> lookup_step demo_env t u)"
  using lookup_returns_without_leak [of demo_env "\<lambda>h. h @ ''.''" "''a.tr''" "[TypeA]" demo_exchange demo_lookup]
  by (simp add: demo_lookup_def)

end
