(* ===== verification/Base64_Url.thy ===== *)
theory Base64_Url
  imports Go_IO
begin

text \<open>
  \<open>RawURLEncoding\<close> of \<open>encoding/base64\<close>, with which \<open>doh.go\<close> puts a packed DNS message into the
  query string: the encoder, a decoder, and that the second undoes the first, so the text a server
  receives determines the message.
\<close>

definition encodeURL :: string where
  "encodeURL = ''ABCDEFGHIJKLMNOPQRSTUVWXYZabcdefghijklmnopqrstuvwxyz0123456789-_''"

definition b64_char :: "nat \<Rightarrow> char" where
  "b64_char n = encodeURL ! (n mod 64)"

text \<open>\<open>EncodeToString\<close>: three bytes give four digits, a rest of one or two bytes two or three.\<close>

fun b64_encode :: "nat list \<Rightarrow> string" where
  "b64_encode (a # b # c # rest) =
     (let val = a * 65536 + b * 256 + c
      in b64_char (val div 262144) # b64_char (val div 4096) # b64_char (val div 64) # b64_char val #
         b64_encode rest)"
| "b64_encode [a, b] =
     (let val = a * 65536 + b * 256
      in [b64_char (val div 262144), b64_char (val div 4096), b64_char (val div 64)])"
| "b64_encode [a] = (let val = a * 65536 in [b64_char (val div 262144), b64_char (val div 4096)])"
| "b64_encode [] = []"

definition EncodeToString :: "bytes \<Rightarrow> string" where
  "EncodeToString src = b64_encode (map unat src)"

definition b64_val :: "char \<Rightarrow> nat" where
  "b64_val c = (case index_byte c encodeURL of None \<Rightarrow> 0 | Some i \<Rightarrow> i)"

fun b64_decode :: "string \<Rightarrow> nat list" where
  "b64_decode (w # x # y # z # rest) =
     (let val = b64_val w * 262144 + b64_val x * 4096 + b64_val y * 64 + b64_val z
      in val div 65536 # val div 256 mod 256 # val mod 256 # b64_decode rest)"
| "b64_decode [w, x, y] =
     (let val = b64_val w * 262144 + b64_val x * 4096 + b64_val y * 64
      in [val div 65536, val div 256 mod 256])"
| "b64_decode [w, x] = (let val = b64_val w * 262144 + b64_val x * 4096 in [val div 65536])"
| "b64_decode _ = []"

definition DecodeString :: "string \<Rightarrow> bytes" where
  "DecodeString s = map word_of_nat (b64_decode s)"

section \<open>Lemmas\<close>

lemma length_encodeURL [simp]: "length encodeURL = 64"
  by (simp add: encodeURL_def)

lemma distinct_encodeURL: "distinct encodeURL"
  by (simp add: encodeURL_def)

lemma index_byte_nth: "distinct xs \<Longrightarrow> i < length xs \<Longrightarrow> index_byte (xs ! i) xs = Some i"
proof (induction xs arbitrary: i)
  case Nil
  then show ?case by simp
next
  case (Cons x xs)
  then show ?case by (cases i) auto
qed

lemma b64_val_char [simp]: "b64_val (b64_char n) = n mod 64"
  by (simp add: b64_val_def b64_char_def index_byte_nth [OF distinct_encodeURL])

lemma sextets_value:
  fixes v :: nat
  assumes "v < 16777216"
  shows "v div 262144 mod 64 * 262144 + v div 4096 mod 64 * 4096 + v div 64 mod 64 * 64 + v mod 64 = v"
proof -
  have "v div 262144 < 64" using assms by (simp add: less_mult_imp_div_less)
  then have "v div 262144 mod 64 = v div 262144" by simp
  moreover have "v div 262144 = v div 4096 div 64" and "v div 4096 = v div 64 div 64"
    by (simp_all flip: div_mult2_eq)
  ultimately show ?thesis
    using div_mult_mod_eq [of v 64] div_mult_mod_eq [of "v div 64" 64] div_mult_mod_eq [of "v div 4096" 64]
    by linarith
qed

lemma sextets_value_short:
  fixes v :: nat
  assumes "v < 16777216" and "v mod 64 = 0"
  shows "v div 262144 mod 64 * 262144 + v div 4096 mod 64 * 4096 + v div 64 mod 64 * 64 = v"
    and "v div 64 mod 64 = 0 \<Longrightarrow> v div 262144 mod 64 * 262144 + v div 4096 mod 64 * 4096 = v"
  using sextets_value [OF assms(1)] assms(2) by linarith+

lemma octets_value:
  fixes a b c :: nat
  assumes "b < 256" "c < 256"
  shows "(a * 65536 + b * 256 + c) div 65536 = a"
    and "(a * 65536 + b * 256 + c) div 256 mod 256 = b"
    and "(a * 65536 + b * 256 + c) mod 256 = c"
proof -
  have eq: "a * 65536 + b * 256 + c = (a * 256 + b) * 256 + c" by simp
  have d: "(a * 65536 + b * 256 + c) div 256 = a * 256 + b"
    unfolding eq using assms(2) by (simp add: div_mult_self3)
  show "(a * 65536 + b * 256 + c) div 256 mod 256 = b" using d assms(1) by simp
  show "(a * 65536 + b * 256 + c) mod 256 = c"
    using assms(2) by (simp only: eq mod_mult_self3 mod_less)
  have "(a * 65536 + b * 256 + c) div 65536 = (a * 65536 + b * 256 + c) div 256 div 256"
    by (simp flip: div_mult2_eq)
  then show "(a * 65536 + b * 256 + c) div 65536 = a" unfolding d using assms(1) by simp
qed

lemma b64_decode_encode: "\<forall>n\<in>set ns. n < 256 \<Longrightarrow> b64_decode (b64_encode ns) = ns"
proof (induction ns rule: b64_encode.induct)
  case (1 a b c rest)
  then have "a * 65536 + b * 256 + c < 16777216" by simp
  note v = sextets_value [OF this]
  from 1 show ?case by (simp add: Let_def v octets_value)
next
  case (2 a b)
  then have "a * 65536 + b * 256 < 16777216" by simp
  moreover have "(a * 65536 + b * 256) mod 64 = 0" by presburger
  ultimately have v: "(a * 65536 + b * 256) div 262144 mod 64 * 262144 +
      (a * 65536 + b * 256) div 4096 mod 64 * 4096 + (a * 65536 + b * 256) div 64 mod 64 * 64 = a * 65536 + b * 256"
    by (rule sextets_value_short)
  show ?case
    using 2 octets_value(1,2) [of b 0 a] by (simp only: b64_encode.simps b64_decode.simps Let_def b64_val_char v) simp
next
  case (3 a)
  then have "a * 65536 < 16777216" by simp
  moreover have "a * 65536 mod 64 = 0"
    using mod_mult_self2_is_0 [of "a * 1024" 64] by simp
  moreover have "a * 65536 div 64 mod 64 = 0"
    using mod_mult_self2_is_0 [of "a * 16" 64] by (simp flip: mult.assoc)
  ultimately have v: "a * 65536 div 262144 mod 64 * 262144 + a * 65536 div 4096 mod 64 * 4096 = a * 65536"
    by (rule sextets_value_short)
  show ?case by (simp only: b64_encode.simps b64_decode.simps Let_def b64_val_char v) simp
next
  case 4
  then show ?case by simp
qed

lemma DecodeString_EncodeToString: "DecodeString (EncodeToString bs) = bs"
  by (simp add: DecodeString_def EncodeToString_def b64_decode_encode unat_byte_less comp_def)

lemma b64_char_in: "b64_char n \<in> set encodeURL"
  by (simp add: b64_char_def)

lemma b64_encode_chars: "set (b64_encode ns) \<subseteq> set encodeURL"
  by (induction ns rule: b64_encode.induct) (auto simp: Let_def b64_char_in)

lemma EncodeToString_chars: "set (EncodeToString bs) \<subseteq> set encodeURL"
  by (simp add: EncodeToString_def b64_encode_chars)

lemma b64_encode_length: "length (b64_encode ns) = (8 * length ns + 5) div 6"
  by (induction ns rule: b64_encode.induct) (auto simp: Let_def)

end
