(* ===== verification/Resolvers.thy ===== *)
theory Resolvers
  imports Dns_Resolver Base64_Url
begin

text \<open>
  The three upstream resolvers of package \<open>dns/resolver\<close>: plain DNS over UDP with a retry over TCP
  (\<open>general.go\<close>), DNS over HTTPS (\<open>doh.go\<close>) and the resolver of the host (\<open>system.go\<close>), and the
  interface \<open>Resolver\<close> they implement, as the locale \<open>resolver_interface\<close>.  The DNS client, the HTTP
  client with its URL parser, the packing of messages and \<open>LookupIP\<close> are parameters.
\<close>

section \<open>The interface\<close>

text \<open>
  A resolver is the relation between a host with record types and the values a call may return.
  Its contract: every address it returns is one its sources gave for that query, and addresses
  never come with an error.
\<close>

type_synonym resolve_rel = "string \<Rightarrow> uint16 list \<Rightarrow> resolve_result \<Rightarrow> bool"

locale resolver_interface =
  fixes resolve :: resolve_rel
    and genuine :: "string \<Rightarrow> uint16 list \<Rightarrow> net_IPAddr \<Rightarrow> bool"
  assumes resolve_genuine: "resolve host qTypes (addrs, err) \<Longrightarrow> a \<in> set addrs \<Longrightarrow> genuine host qTypes a"
    and resolve_no_both: "resolve host qTypes (addrs, Some e) \<Longrightarrow> addrs = []"
begin

lemma resolve_first:
  assumes "resolve host qTypes (addrs, None)" and "addrs \<noteq> []"
  shows "genuine host qTypes (addrs ! 0)"
  using resolve_genuine [OF assms(1)] assms(2) by (cases addrs) auto

lemma resolve_nonempty: "resolve host qTypes (addrs, err) \<Longrightarrow> addrs \<noteq> [] \<Longrightarrow> err = None"
  using resolve_no_both by (cases err) auto

end

section \<open>One lookup per record type\<close>

text \<open>The values a call of \<open>processResults\<close> over \<open>lookupAllTypes\<close> may return.\<close>

definition lookup_returns :: "net_env \<Rightarrow> (string \<Rightarrow> string) \<Rightarrow> exchangeFunc \<Rightarrow> resolve_rel" where
  "lookup_returns env fqdn exchange host qTypes v \<longleftrightarrow>
     (\<exists>s. (lookup_any env)\<^sup>*\<^sup>* (lookup_init fqdn host qTypes exchange) s \<and> lk_ret s = Some v)"

definition answered :: "(string \<Rightarrow> string) \<Rightarrow> exchangeFunc \<Rightarrow> string \<Rightarrow> uint16 list \<Rightarrow> net_IPAddr \<Rightarrow> bool" where
  "answered fqdn exchange host qTypes a \<longleftrightarrow> a \<in> set (answers_of fqdn host qTypes exchange)"

lemma lookup_returns_cases:
  assumes "lookup_returns env fqdn exchange host qTypes v"
  shows "\<exists>rcvd ctx. mset rcvd \<subseteq># mset (map (\<lambda>q. lookupType fqdn host q exchange) qTypes) \<and>
    v = lookup_outcome env ctx rcvd"
proof -
  from assms obtain s where s: "(lookup_any env)\<^sup>*\<^sup>* (lookup_init fqdn host qTypes exchange) s" "lk_ret s = Some v"
    by (auto simp: lookup_returns_def)
  show ?thesis
    using lookup_inv_returned [OF lookup.run_invar [OF s(1) lookup_inv_init] s(2)] by blast
qed

text \<open>A lookup whose context lives returns the outcome of all the results.\<close>

lemma lookup_step_ctx: "(lookup_step env)\<^sup>*\<^sup>* s t \<Longrightarrow> lk_ctx t = lk_ctx s"
  by (induction rule: rtranclp_induct) (auto elim!: lookup_stepE)

lemma lookup_steps_any: "(lookup_step env)\<^sup>*\<^sup>* s t \<Longrightarrow> (lookup_any env)\<^sup>*\<^sup>* s t"
  by (erule rtranclp_mono [THEN predicate2D, rotated]) (auto simp: lookup_any_def)

lemma lookup_returns_all:
  "\<exists>rcvd. mset rcvd = mset (map (\<lambda>q. lookupType fqdn host q exchange) qTypes) \<and>
     lookup_returns env fqdn exchange host qTypes (lookup_outcome env None rcvd)"
proof -
  let ?s = "lookup_init fqdn host qTypes exchange" and ?results = "map (\<lambda>q. lookupType fqdn host q exchange) qTypes"
  obtain t where t: "(lookup_step env)\<^sup>*\<^sup>* ?s t" "\<forall>u. \<not> lookup_step env t u"
    using lookup_prog.reaches_final by blast
  have run: "(lookup_any env)\<^sup>*\<^sup>* ?s t" using t(1) by (rule lookup_steps_any)
  have inv: "lookup_inv env ?results t" using run lookup_inv_init by (rule lookup.run_invar)
  have ctx: "lk_ctx t = None" using lookup_step_ctx [OF t(1)] by (simp add: lookup_init_def)
  have "lk_ret t \<noteq> None" using t(2) lookup_progress [OF inv] by metis
  then obtain v where v: "lk_ret t = Some v" by blast
  from lookup_inv_returned [OF inv v] ctx obtain rcvd where "mset rcvd = mset ?results" "v = lookup_outcome env None rcvd"
    by blast
  with run v show ?thesis unfolding lookup_returns_def by blast
qed

interpretation lookup_res: resolver_interface "lookup_returns env fqdn exchange" "answered fqdn exchange"
  for env fqdn exchange
proof
  fix host qTypes addrs err a
  assume "lookup_returns env fqdn exchange host qTypes (addrs, err)" and a: "a \<in> set addrs"
  then obtain rcvd ctx where sub: "mset rcvd \<subseteq># mset (map (\<lambda>q. lookupType fqdn host q exchange) qTypes)"
    and eq: "(addrs, err) = lookup_outcome env ctx rcvd"
    using lookup_returns_cases by blast
  from eq a have "a \<in> set (concat (map result_addrs rcvd))"
    by (auto simp: lookup_outcome_def Let_def)
  then show "answered fqdn exchange host qTypes a"
    unfolding answered_def answers_of_results
    using set_mset_mono [OF mset_concat_map_mono [OF sub, of result_addrs]]
    by (simp only: set_mset_mset subset_iff)
next
  fix host qTypes addrs e
  assume "lookup_returns env fqdn exchange host qTypes (addrs, Some e)"
  then show "addrs = []"
    using lookup_returns_cases lookup_outcome_no_both by metis
qed

section \<open>Plain DNS\<close>

record dns_Client =
  clt_Net :: string
  clt_Timeout :: nat

record GeneralResolver =
  gr_udp :: dns_Client
  gr_tcp :: dns_Client
  gr_server :: string

text \<open>Durations are in milliseconds.\<close>

definition NewGeneralResolver :: "string \<Rightarrow> GeneralResolver" where
  "NewGeneralResolver server =
     \<lparr>gr_udp = \<lparr>clt_Net = ''udp'', clt_Timeout = 2000\<rparr>,
      gr_tcp = \<lparr>clt_Net = ''tcp'', clt_Timeout = 3000\<rparr>,
      gr_server = server\<rparr>"

type_synonym ExchangeContext = "dns_Client \<Rightarrow> dns_Query \<Rightarrow> string \<Rightarrow> dns_Msg option result"

definition general_exchange :: "ExchangeContext \<Rightarrow> GeneralResolver \<Rightarrow> exchangeFunc" where
  "general_exchange xch r msg =
     (case xch (gr_udp r) msg (gr_server r) of
        Inl err \<Rightarrow> Inl err
      | Inr None \<Rightarrow> Inr None
      | Inr (Some resp) \<Rightarrow>
          if Truncated resp
          then (case xch (gr_tcp r) msg (gr_server r) of Inl err \<Rightarrow> Inl err | Inr resp' \<Rightarrow> Inr resp')
          else Inr (Some resp))"

definition GeneralResolver_Resolve ::
  "net_env \<Rightarrow> (string \<Rightarrow> string) \<Rightarrow> ExchangeContext \<Rightarrow> GeneralResolver \<Rightarrow> resolve_rel" where
  "GeneralResolver_Resolve env fqdn xch r = lookup_returns env fqdn (general_exchange xch r)"

definition GeneralResolver_String :: "GeneralResolver \<Rightarrow> string" where
  "GeneralResolver_String r = ''general('' @ gr_server r @ '')''"

interpretation general: resolver_interface "GeneralResolver_Resolve env fqdn xch r" "answered fqdn (general_exchange xch r)"
  for env fqdn xch r
  unfolding GeneralResolver_Resolve_def by (rule lookup_res.resolver_interface_axioms)

section \<open>The resolver of the host\<close>

definition networkForQTypes :: "uint16 list \<Rightarrow> string" where
  "networkForQTypes qTypes =
     (let has4 = fold (\<lambda>q b. if q = TypeA then True else b) qTypes False;
          has6 = fold (\<lambda>q b. if q = TypeA then b else if q = TypeAAAA then True else b) qTypes False
      in if has4 \<and> \<not> has6 then ''ip4'' else if has6 \<and> \<not> has4 then ''ip6'' else ''ip'')"

type_synonym LookupIP = "string \<Rightarrow> string \<Rightarrow> bytes list result"

definition SystemResolver_Resolve :: "net_env \<Rightarrow> LookupIP \<Rightarrow> string \<Rightarrow> uint16 list \<Rightarrow> resolve_result" where
  "SystemResolver_Resolve env lookupIP host qTypes =
     (case lookupIP (networkForQTypes qTypes) host of
        Inl err \<Rightarrow> ([], Some err)
      | Inr ips \<Rightarrow>
          let addrs = map (\<lambda>ip. \<lparr>IP = ip, Zone = []\<rparr>) ips
          in (if 1 < length addrs then sortAddrs env addrs else addrs, None))"

definition SystemResolver_String :: string where
  "SystemResolver_String = ''system''"

definition system_genuine :: "LookupIP \<Rightarrow> string \<Rightarrow> uint16 list \<Rightarrow> net_IPAddr \<Rightarrow> bool" where
  "system_genuine lookupIP host qTypes a \<longleftrightarrow>
     (\<exists>ips. lookupIP (networkForQTypes qTypes) host = Inr ips \<and> IP a \<in> set ips)"

interpretation system: resolver_interface
  "\<lambda>host qTypes v. v = SystemResolver_Resolve env lookupIP host qTypes" "system_genuine lookupIP"
  for env lookupIP
  by unfold_locales
    (auto simp: SystemResolver_Resolve_def system_genuine_def Let_def sortAddrs_eq split: sum.splits if_splits)

lemma fold_flag: "fold (\<lambda>q b. if p q then True else b) qs b \<longleftrightarrow> b \<or> (\<exists>q\<in>set qs. p q)"
  by (induction qs arbitrary: b) auto

lemma fold_flag2: "fold (\<lambda>q b. if p q then b else if r q then True else b) qs b \<longleftrightarrow> b \<or> (\<exists>q\<in>set qs. \<not> p q \<and> r q)"
  by (induction qs arbitrary: b) auto

lemma networkForQTypes_spec:
  "networkForQTypes qTypes =
     (if (TypeA \<in> set qTypes) = (TypeAAAA \<in> set qTypes) then ''ip''
      else if TypeA \<in> set qTypes then ''ip4'' else ''ip6'')"
proof -
  have "TypeAAAA \<noteq> TypeA" by (simp add: TypeA_def TypeAAAA_def)
  then show ?thesis
    unfolding networkForQTypes_def Let_def fold_flag fold_flag2 by auto
qed

section \<open>DNS over HTTPS\<close>

record url_URL =
  url_Scheme :: string
  url_Host :: string
  url_Path :: string
  url_RawQuery :: string

text \<open>The \<open>Hostname\<close> method of \<open>url.URL\<close>: the host without a numeric port and without brackets.\<close>

definition validOptionalPort :: "string \<Rightarrow> bool" where
  "validOptionalPort port =
     (case port of [] \<Rightarrow> True | c # cs \<Rightarrow> c = CHR '':'' \<and> (\<forall>d\<in>set cs. 48 \<le> (of_char d :: nat) \<and> of_char d \<le> (57 :: nat)))"

definition URL_Hostname :: "url_URL \<Rightarrow> string" where
  "URL_Hostname u =
     (let h = url_Host u;
          h' = (case last_index_byte (CHR '':'') h of
                  None \<Rightarrow> h
                | Some colon \<Rightarrow> if validOptionalPort (drop colon h) then take colon h else h)
      in if h' \<noteq> [] \<and> hd h' = CHR ''['' \<and> last h' = CHR '']'' then butlast (tl h') else h')"

record DOHResolver =
  doh_upstream :: string
  doh_host :: string
  doh_bootstrapIP :: string

text \<open>
  The parameters of \<open>doh.go\<close>: the URL parser and printer of \<open>net/url\<close>, whether
  \<open>http.NewRequestWithContext\<close> rejects an endpoint, the HTTP client (status and body of the reply to
  a GET with the given \<open>Accept\<close> header), packing and unpacking of messages, and the names of the
  response codes.
\<close>

record doh_env =
  url_Parse :: "string \<Rightarrow> url_URL result"
  url_String :: "url_URL \<Rightarrow> string"
  http_NewRequest :: "string \<Rightarrow> go_error option"
  http_Do :: "string \<Rightarrow> string \<Rightarrow> (nat \<times> reader) result"
  msg_Pack :: "dns_Query \<Rightarrow> bytes result"
  msg_Unpack :: "bytes \<Rightarrow> dns_Msg result"
  RcodeToString :: "nat \<Rightarrow> string"

definition doh_url :: "doh_env \<Rightarrow> string \<Rightarrow> url_URL" where
  "doh_url w upstream =
     (let fallback = \<lparr>url_Scheme = ''https'', url_Host = upstream, url_Path = ''/dns-query'', url_RawQuery = []\<rparr>;
          u = (case url_Parse w upstream of
                 Inl err \<Rightarrow> fallback
               | Inr u \<Rightarrow> if url_Host u = [] then fallback else u)
      in if url_Path u = [] then u\<lparr>url_Path := ''/dns-query''\<rparr> else u)"

definition NewDOHResolver :: "doh_env \<Rightarrow> string \<Rightarrow> string \<Rightarrow> DOHResolver" where
  "NewDOHResolver w upstream bootstrapIP =
     (let u = doh_url w upstream
      in \<lparr>doh_upstream = url_String w u, doh_host = URL_Hostname u, doh_bootstrapIP = bootstrapIP\<rparr>)"

text \<open>\<open>DialContext\<close> of the transport: the address that is dialled for the address asked for.\<close>

definition doh_dial_addr :: "DOHResolver \<Rightarrow> string \<Rightarrow> string" where
  "doh_dial_addr r addr =
     (if doh_bootstrapIP r \<noteq> [] then
        (case net_SplitHostPort addr of
           Inl splitErr \<Rightarrow> addr
         | Inr (reqHost, reqPort) \<Rightarrow>
             if reqHost = doh_host r then net_JoinHostPort (doh_bootstrapIP r) reqPort else addr)
      else addr)"

definition errNXDomain :: go_error where "errNXDomain = ErrString ''nxdomain''"

text \<open>\<open>io.Copy\<close> of a body through \<open>io.LimitReader\<close>: the reader's error counts only when it ends
  before the limit.\<close>

definition copy_limited :: "nat \<Rightarrow> reader \<Rightarrow> bytes result" where
  "copy_limited n body =
     (if n \<le> length (rd_data body) then Inr (take n (rd_data body))
      else if rd_end body = EOF then Inr (rd_data body) else Inl (rd_end body))"

definition doh_endpoint :: "DOHResolver \<Rightarrow> bytes \<Rightarrow> string" where
  "doh_endpoint r pack = doh_upstream r @ ''?dns='' @ EncodeToString pack"

definition doh_rcode :: "doh_env \<Rightarrow> dns_Msg \<Rightarrow> dns_Msg option result" where
  "doh_rcode w out =
     (if Rcode out = 0 then Inr (Some out)
      else if Rcode out = 3 then Inl errNXDomain
      else Inl (ErrString (''doh rcode '' @ RcodeToString w (Rcode out))))"

definition doh_response :: "doh_env \<Rightarrow> nat \<times> reader \<Rightarrow> dns_Msg option result" where
  "doh_response w resp =
     (if fst resp \<noteq> 200 then Inl (ErrString (''doh http '' @ format_nat (fst resp)))
      else (case copy_limited (64 * 1024) (snd resp) of
              Inl err \<Rightarrow> Inl err
            | Inr body \<Rightarrow> (case msg_Unpack w body of Inl err \<Rightarrow> Inl err | Inr out \<Rightarrow> doh_rcode w out)))"

definition doh_exchange :: "doh_env \<Rightarrow> DOHResolver \<Rightarrow> exchangeFunc" where
  "doh_exchange w r msg =
     (case msg_Pack w msg of
        Inl err \<Rightarrow> Inl err
      | Inr pack \<Rightarrow>
          let endpoint = doh_endpoint r pack
          in (case http_NewRequest w endpoint of
                Some err \<Rightarrow> Inl err
              | None \<Rightarrow>
                  (case http_Do w endpoint ''application/dns-message'' of
                     Inl err \<Rightarrow> Inl err
                   | Inr resp \<Rightarrow> doh_response w resp)))"

definition DOHResolver_Resolve :: "net_env \<Rightarrow> (string \<Rightarrow> string) \<Rightarrow> doh_env \<Rightarrow> DOHResolver \<Rightarrow> resolve_rel" where
  "DOHResolver_Resolve env fqdn w r = lookup_returns env fqdn (doh_exchange w r)"

definition DOHResolver_String :: "DOHResolver \<Rightarrow> string" where
  "DOHResolver_String r = ''doh('' @ doh_upstream r @ '')''"

interpretation doh: resolver_interface "DOHResolver_Resolve env fqdn w r" "answered fqdn (doh_exchange w r)"
  for env fqdn w r
  unfolding DOHResolver_Resolve_def by (rule lookup_res.resolver_interface_axioms)

lemma doh_endpoint_inj: "doh_endpoint r p = doh_endpoint r q \<Longrightarrow> p = q"
  unfolding doh_endpoint_def by (metis DecodeString_EncodeToString same_append_eq)

lemma doh_exchange_ok:
  "doh_exchange w r msg = Inr v \<longleftrightarrow>
     (\<exists>pack body data out. msg_Pack w msg = Inr pack \<and> http_NewRequest w (doh_endpoint r pack) = None \<and>
        http_Do w (doh_endpoint r pack) ''application/dns-message'' = Inr (200, body) \<and>
        copy_limited (64 * 1024) body = Inr data \<and> msg_Unpack w data = Inr out \<and> Rcode out = 0 \<and> v = Some out)"
  by (auto simp: doh_exchange_def doh_response_def doh_rcode_def Let_def split: sum.splits option.splits if_splits)

section \<open>Properties\<close>

text \<open>The plain resolver never uses a truncated UDP answer.  What \<open>exchange\<close> returns is the UDP
  answer when that is complete, and otherwise the answer of the same server to the same query over
  TCP; an error of either transport is passed on, and TCP is not tried after a UDP error.\<close>

lemma general_exchange_not_truncated:
  "(general_exchange xch r msg = Inr (Some m) \<longleftrightarrow>
      xch (gr_udp r) msg (gr_server r) = Inr (Some m) \<and> \<not> Truncated m \<or>
      (\<exists>t. xch (gr_udp r) msg (gr_server r) = Inr (Some t) \<and> Truncated t \<and>
         xch (gr_tcp r) msg (gr_server r) = Inr (Some m))) \<and>
   (general_exchange xch r msg = Inl e \<longleftrightarrow>
      xch (gr_udp r) msg (gr_server r) = Inl e \<or>
      (\<exists>t. xch (gr_udp r) msg (gr_server r) = Inr (Some t) \<and> Truncated t \<and>
         xch (gr_tcp r) msg (gr_server r) = Inl e))"
  by (auto simp: general_exchange_def split: sum.splits option.splits)

text \<open>C36: an HTTPS lookup succeeds exactly when the message could be packed and sent, the server
  replied with status 200, its body could be read, and the first 64 KiB of it unpack to a
  message with response code 0, which is the answer.  Every other outcome is an error, so a
  reply with another code (also \<open>NXDOMAIN\<close>) is never taken for an empty answer.\<close>

theorem doh_exchange_accepts:
  "doh_exchange w r msg = Inr v \<longleftrightarrow>
     (\<exists>pack body out. msg_Pack w msg = Inr pack \<and> http_NewRequest w (doh_endpoint r pack) = None \<and>
        http_Do w (doh_endpoint r pack) ''application/dns-message'' = Inr (200, body) \<and>
        (65536 \<le> length (rd_data body) \<or> rd_end body = EOF) \<and>
        msg_Unpack w (take 65536 (rd_data body)) = Inr out \<and> Rcode out = 0 \<and> v = Some out)"
proof -
  have cl: "copy_limited (64 * 1024) body = Inr data \<longleftrightarrow>
      (65536 \<le> length (rd_data body) \<or> rd_end body = EOF) \<and> data = take 65536 (rd_data body)" for body data
    by (auto simp: copy_limited_def)
  show ?thesis unfolding doh_exchange_ok cl by blast
qed

text \<open>C37: the query string carries the message: the server that decodes the text after \<open>?dns=\<close> gets
  the packed message back, and that text consists of letters, digits, \<open>-\<close> and \<open>_\<close> only, so nothing in
  it needs escaping.\<close>

theorem doh_endpoint_roundtrip:
  "take (length (doh_upstream r) + 5) (doh_endpoint r pack) = doh_upstream r @ ''?dns='' \<and>
   DecodeString (drop (length (doh_upstream r) + 5) (doh_endpoint r pack)) = pack \<and>
   set (drop (length (doh_upstream r) + 5) (doh_endpoint r pack)) \<subseteq> set encodeURL"
  using EncodeToString_chars [of pack] by (simp add: doh_endpoint_def DecodeString_EncodeToString)

text \<open>With a bootstrap address, the transport dials that address instead of the resolver's own
  host, on the port asked for, so finding the resolver takes no name lookup; a dial to any other
  host is left alone.\<close>

lemma doh_bootstrap_dial:
  assumes "doh_bootstrapIP r \<noteq> []" and "set host \<inter> {CHR ''['', CHR '']''} = {}"
    and "set port \<inter> {CHR ''['', CHR '']'', CHR '':''} = {}"
  shows "doh_dial_addr r (net_JoinHostPort host port) =
    (if host = doh_host r then net_JoinHostPort (doh_bootstrapIP r) port else net_JoinHostPort host port)"
proof -
  have "net_SplitHostPort (net_JoinHostPort host port) = Inr (host, port)"
    using assms(2,3) by (intro SplitHostPort_JoinHostPort) auto
  with assms(1) show ?thesis by (simp add: doh_dial_addr_def)
qed

end
