(* ===== verification/Chain.thy ===== *)
theory Chain
  imports Resolvers
begin

text \<open>
  \<open>dns/resolver/chain.go\<close>: every resolver runs in a goroutine of its own, the first non-empty answer
  wins.  The goroutines, the buffered channel \<open>out\<close>, the collecting loop and the two contexts
  (the caller's, and the one derived from it that is cancelled when \<open>Resolve\<close> returns) are the step
  relation \<open>chain_step\<close>.  A resolver is its name with the value its call returns in the run at hand;
  a call that meets its \<open>perTry\<close> deadline returns an error like any other failing one.
\<close>

record chainResult =
  cr_addrs :: "net_IPAddr list"
  cr_err :: "go_error option"
  cr_from :: string

record chain_state =
  ch_running :: "chainResult list"
  ch_cap :: nat
  ch_out :: "chainResult list"
  ch_ctx :: "go_error option"
  ch_left :: nat
  ch_errs :: "go_error list"
  ch_ret :: "resolve_result option"

definition ChainResolver_String :: "string list \<Rightarrow> string" where
  "ChainResolver_String names = ''chain['' @ strings_Join names ''|'' @ '']''"

definition chain_init :: "chainResult list \<Rightarrow> chain_state" where
  "chain_init rs =
     \<lparr>ch_running = rs, ch_cap = length rs, ch_out = [], ch_ctx = None, ch_left = length rs, ch_errs = [],
      ch_ret = (if rs = [] then Some ([], Some (ErrString ''chain: no resolvers configured'')) else None)\<rparr>"

text \<open>The body of the loop for a received result: return it, or note its error.\<close>

definition chain_recv :: "chainResult \<Rightarrow> chain_state \<Rightarrow> chain_state" where
  "chain_recv res s =
     (if cr_addrs res \<noteq> [] then s\<lparr>ch_ret := Some (cr_addrs res, None)\<rparr>
      else s\<lparr>ch_left := ch_left s - 1,
             ch_errs := (case cr_err res of
                           None \<Rightarrow> ch_errs s
                         | Some e \<Rightarrow> ch_errs s @ [ErrWrap (cr_from res) e])\<rparr>)"

inductive chain_step :: "chain_state \<Rightarrow> chain_state \<Rightarrow> bool" where
  send: "r \<in> set (ch_running s) \<Longrightarrow> length (ch_out s) < ch_cap s \<Longrightarrow>
    chain_step s (s\<lparr>ch_running := remove1 r (ch_running s), ch_out := ch_out s @ [r]\<rparr>)"
| give_up: "r \<in> set (ch_running s) \<Longrightarrow> ch_ctx s \<noteq> None \<or> ch_ret s \<noteq> None \<Longrightarrow>
    chain_step s (s\<lparr>ch_running := remove1 r (ch_running s)\<rparr>)"
| recv: "ch_ret s = None \<Longrightarrow> 0 < ch_left s \<Longrightarrow> ch_out s = r # rs \<Longrightarrow>
    chain_step s (chain_recv r (s\<lparr>ch_out := rs\<rparr>))"
| ctx_done: "ch_ret s = None \<Longrightarrow> 0 < ch_left s \<Longrightarrow> ch_ctx s = Some e \<Longrightarrow>
    chain_step s (s\<lparr>ch_ret := Some ([], Some e)\<rparr>)"
| exhausted: "ch_ret s = None \<Longrightarrow> ch_left s = 0 \<Longrightarrow>
    chain_step s (s\<lparr>ch_ret := Some ([], errors_Join (ch_errs s))\<rparr>)"

inductive chain_cancel :: "chain_state \<Rightarrow> chain_state \<Rightarrow> bool" where
  cancel: "ch_ctx s = None \<Longrightarrow> e \<in> {Canceled, DeadlineExceeded} \<Longrightarrow> chain_cancel s (s\<lparr>ch_ctx := Some e\<rparr>)"

definition chain_any :: "chain_state \<Rightarrow> chain_state \<Rightarrow> bool" where
  "chain_any s t \<longleftrightarrow> chain_step s t \<or> chain_cancel s t"

inductive_cases chain_stepE: "chain_step s t"
inductive_cases chain_cancelE: "chain_cancel s t"

section \<open>The invariant\<close>

definition wrapped_errs :: "chainResult list \<Rightarrow> go_error list" where
  "wrapped_errs rs = concat (map (\<lambda>r. case cr_err r of None \<Rightarrow> [] | Some e \<Rightarrow> [ErrWrap (cr_from r) e]) rs)"

text \<open>
  \<open>rcvd\<close> are the results received so far without an address; while the caller's context lives and
  nothing is returned, they and those on their way are all the results, and the loop has as many
  rounds left as results are on their way.
\<close>

definition chain_ret_ok :: "chainResult list \<Rightarrow> chainResult list \<Rightarrow> chain_state \<Rightarrow> resolve_result \<Rightarrow> bool" where
  "chain_ret_ok rs rcvd s v \<longleftrightarrow>
     (\<exists>r\<in>set rs. cr_addrs r \<noteq> [] \<and> v = (cr_addrs r, None)) \<or>
     (\<exists>e. ch_ctx s = Some e \<and> v = ([], Some e)) \<or>
     rs \<noteq> [] \<and> length rcvd = length rs \<and> v = ([], errors_Join (wrapped_errs rcvd)) \<or>
     rs = [] \<and> v = ([], Some (ErrString ''chain: no resolvers configured''))"

definition chain_inv_at :: "chainResult list \<Rightarrow> chainResult list \<Rightarrow> chain_state \<Rightarrow> bool" where
  "chain_inv_at rs rcvd s \<longleftrightarrow>
     ch_cap s = length rs \<and> ch_errs s = wrapped_errs rcvd \<and> (\<forall>r\<in>set rcvd. cr_addrs r = []) \<and>
     mset rcvd + mset (ch_out s) + mset (ch_running s) \<subseteq># mset rs \<and>
     length rcvd + ch_left s = length rs \<and>
     (ch_ret s = None \<longrightarrow> rs \<noteq> [] \<and>
        (ch_ctx s = None \<longrightarrow> mset rcvd + mset (ch_out s) + mset (ch_running s) = mset rs)) \<and>
     (\<forall>v. ch_ret s = Some v \<longrightarrow> chain_ret_ok rs rcvd s v)"

definition chain_inv :: "chainResult list \<Rightarrow> chain_state \<Rightarrow> bool" where
  "chain_inv rs s \<longleftrightarrow> (\<exists>rcvd. chain_inv_at rs rcvd s)"

lemma chain_inv_init: "chain_inv rs (chain_init rs)"
  unfolding chain_inv_def
  by (rule exI [of _ "[]"]) (simp add: chain_inv_at_def chain_init_def wrapped_errs_def chain_ret_ok_def)

lemma wrapped_errs_snoc:
  "wrapped_errs (rs @ [r]) = wrapped_errs rs @ (case cr_err r of None \<Rightarrow> [] | Some e \<Rightarrow> [ErrWrap (cr_from r) e])"
  by (simp add: wrapped_errs_def)

lemma chain_ret_ok_cong: "ch_ctx t = ch_ctx s \<Longrightarrow> chain_ret_ok rs rcvd t v = chain_ret_ok rs rcvd s v"
  by (simp add: chain_ret_ok_def)

lemma chain_recv_inv:
  assumes inv: "chain_inv_at rs rcvd s" and ret: "ch_ret s = None" and left: "0 < ch_left s"
    and out: "ch_out s = r # out"
  shows "\<exists>rcvd'. chain_inv_at rs rcvd' (chain_recv r (s\<lparr>ch_out := out\<rparr>))"
proof (cases "cr_addrs r = []")
  case True
  have "chain_inv_at rs (rcvd @ [r]) (chain_recv r (s\<lparr>ch_out := out\<rparr>))"
    using True inv ret left out
    by (auto simp: chain_inv_at_def chain_recv_def wrapped_errs_snoc split: option.splits)
  then show ?thesis ..
next
  case False
  from inv out have "mset rcvd + mset (r # out) + mset (ch_running s) \<subseteq># mset rs"
    by (simp add: chain_inv_at_def)
  then have sub: "mset rcvd + mset out + mset (ch_running s) \<subseteq># mset rs" and "r \<in># mset rs"
    by (auto dest: mset_subset_eq_insertD simp: insert_subset_eq_iff)
       (meson diff_subset_eq_self subset_mset.order_trans)
  with False inv ret have "chain_inv_at rs rcvd (chain_recv r (s\<lparr>ch_out := out\<rparr>))"
    by (auto simp: chain_inv_at_def chain_recv_def chain_ret_ok_def)
  then show ?thesis ..
qed

lemma chain_step_inv_at:
  assumes "chain_step s t" and inv: "chain_inv_at rs rcvd s"
  shows "\<exists>rcvd'. chain_inv_at rs rcvd' t"
  using assms(1)
proof cases
  case (send r)
  note m = mset_remove1_insert [OF send(2)]
  have "chain_inv_at rs rcvd t"
    using inv send by (auto simp: chain_inv_at_def chain_ret_ok_def m simp del: mset_remove1)
  then show ?thesis ..
next
  case (give_up r)
  with inv have "chain_inv_at rs rcvd t"
    by (auto simp: chain_inv_at_def chain_ret_ok_def simp del: mset_remove1 intro: mset_remove1_le)
  then show ?thesis ..
next
  case (recv r out)
  with inv chain_recv_inv show ?thesis by simp
next
  case (ctx_done e)
  with inv have "chain_inv_at rs rcvd t" by (auto simp: chain_inv_at_def chain_ret_ok_def)
  then show ?thesis ..
next
  case exhausted
  with inv have "chain_inv_at rs rcvd t" by (auto simp: chain_inv_at_def chain_ret_ok_def)
  then show ?thesis ..
qed

lemma chain_any_inv: "chain_any s t \<Longrightarrow> chain_inv rs s \<Longrightarrow> chain_inv rs t"
proof -
  assume "chain_any s t" and "chain_inv rs s"
  moreover have "chain_inv_at rs rcvd t" if "chain_cancel s t" "chain_inv_at rs rcvd s" for rcvd
    using that by (auto simp: chain_inv_at_def chain_ret_ok_def elim!: chain_cancelE)
  ultimately show ?thesis
    unfolding chain_any_def chain_inv_def using chain_step_inv_at by blast
qed

interpretation chain: invariant_system chain_any "chain_inv rs" for rs
  by unfold_locales (rule chain_any_inv)

section \<open>Termination\<close>

definition chain_msr :: "chain_state \<Rightarrow> nat" where
  "chain_msr s = 2 * length (ch_running s) + length (ch_out s) + of_bool (ch_ret s = None)"

interpretation chain_prog: measured_system chain_step "\<lambda>_. True" chain_msr
proof unfold_locales
  fix s t
  assume "chain_step s t"
  then show "chain_msr t < chain_msr s"
  proof cases
    case (send r)
    with length_remove1_Suc [OF send(2)] show ?thesis by (simp add: chain_msr_def del: length_remove1)
  next
    case (give_up r)
    with length_remove1_Suc [OF give_up(2)] show ?thesis by (simp add: chain_msr_def del: length_remove1)
  qed (auto simp: chain_msr_def chain_recv_def)
qed simp

lemma chain_inv_sizes:
  assumes "chain_inv rs s"
  obtains rcvd where "chain_inv_at rs rcvd s"
    and "length rcvd + length (ch_out s) + length (ch_running s) \<le> length rs"
proof -
  from assms obtain rcvd where I: "chain_inv_at rs rcvd s" by (auto simp: chain_inv_def)
  then have "mset rcvd + mset (ch_out s) + mset (ch_running s) \<subseteq># mset rs" by (simp add: chain_inv_at_def)
  then have "length rcvd + length (ch_out s) + length (ch_running s) \<le> length rs"
    by (metis size_mset size_mset_mono size_union)
  with I show ?thesis by (rule that)
qed

lemma chain_progress:
  assumes "chain_inv rs s" and "ch_ret s = None \<or> ch_running s \<noteq> []"
  shows "\<exists>t. chain_step s t"
proof -
  obtain rcvd where I: "chain_inv_at rs rcvd s"
    and size: "length rcvd + length (ch_out s) + length (ch_running s) \<le> length rs"
    using assms(1) by (rule chain_inv_sizes)
  show ?thesis
  proof (cases "ch_running s")
    case (Cons r rest)
    with size I have "r \<in> set (ch_running s)" "length (ch_out s) < ch_cap s"
      by (auto simp: chain_inv_at_def)
    then show ?thesis by (blast intro: chain_step.send)
  next
    case Nil
    with assms(2) have ret: "ch_ret s = None" by simp
    show ?thesis
    proof (cases "ch_left s = 0")
      case True
      with ret show ?thesis by (blast intro: chain_step.exhausted)
    next
      case left: False
      show ?thesis
      proof (cases "ch_ctx s")
        case (Some e)
        with ret left show ?thesis by (blast intro: chain_step.ctx_done)
      next
        case None
        with I ret have "mset rcvd + mset (ch_out s) + mset (ch_running s) = mset rs"
          by (simp add: chain_inv_at_def)
        then have "length rcvd + length (ch_out s) + length (ch_running s) = length rs"
          by (metis size_mset size_union)
        with I Nil left obtain r out where "ch_out s = r # out"
          by (cases "ch_out s") (auto simp: chain_inv_at_def)
        with ret left show ?thesis by (blast intro: chain_step.recv)
      qed
    qed
  qed
qed

section \<open>What a call returns\<close>

lemma chain_inv_returned:
  assumes "chain_inv rs s" and "ch_ret s = Some v"
  shows "(\<exists>r\<in>set rs. cr_addrs r \<noteq> [] \<and> v = (cr_addrs r, None)) \<or>
    (\<exists>e. ch_ctx s = Some e \<and> v = ([], Some e)) \<or>
    rs \<noteq> [] \<and> (\<forall>r\<in>set rs. cr_addrs r = []) \<and>
      (\<exists>es. mset es = mset (wrapped_errs rs) \<and> v = ([], errors_Join es)) \<or>
    rs = [] \<and> v = ([], Some (ErrString ''chain: no resolvers configured''))"
proof -
  obtain rcvd where I: "chain_inv_at rs rcvd s" using assms(1) by (auto simp: chain_inv_def)
  then have sub: "mset rcvd + mset (ch_out s) + mset (ch_running s) \<subseteq># mset rs"
    and none: "\<forall>r\<in>set rcvd. cr_addrs r = []" and ret: "chain_ret_ok rs rcvd s v"
    using assms(2) by (simp_all add: chain_inv_at_def)
  have "mset rcvd \<subseteq># mset rcvd + mset (ch_out s) + mset (ch_running s)" by (simp add: add.assoc)
  then have sub': "mset rcvd \<subseteq># mset rs" using sub by (rule subset_mset.order_trans)
  have all: "mset rcvd = mset rs" if "length rcvd = length rs"
    using sub' that by (metis size_mset mset_subset_size subset_mset.le_less less_irrefl)
  have "(\<forall>r\<in>set rs. cr_addrs r = []) \<and> mset (wrapped_errs rcvd) = mset (wrapped_errs rs)"
    if "length rcvd = length rs"
    using all [OF that] none mset_concat_map_eq [OF all [OF that]] mset_eq_setD [OF all [OF that]]
    by (simp add: wrapped_errs_def)
  with ret show ?thesis unfolding chain_ret_ok_def by blast
qed

definition chain_returns :: "(string \<times> resolve_rel) list \<Rightarrow> resolve_rel" where
  "chain_returns resolvers host qTypes v \<longleftrightarrow>
     (\<exists>outs s. list_all2 (\<lambda>r out. cr_from out = fst r \<and> snd r host qTypes (cr_addrs out, cr_err out)) resolvers outs \<and>
        chain_any\<^sup>*\<^sup>* (chain_init outs) s \<and> ch_ret s = Some v)"

text \<open>A single resolver with an answer gives the chain's answer.\<close>

lemma chain_returns_single:
  assumes "rel host qTypes (addrs, err)" and "addrs \<noteq> []"
  shows "chain_returns [(name, rel)] host qTypes (addrs, None)"
proof -
  let ?r = "\<lparr>cr_addrs = addrs, cr_err = err, cr_from = name\<rparr>" and ?s0 = "chain_init [\<lparr>cr_addrs = addrs, cr_err = err, cr_from = name\<rparr>]"
  let ?s1 = "?s0\<lparr>ch_running := [], ch_out := [?r]\<rparr>"
  let ?s2 = "chain_recv ?r (?s1\<lparr>ch_out := []\<rparr>)"
  have "chain_any ?s0 ?s1" "chain_any ?s1 ?s2"
    using chain_step.send [of ?r ?s0] chain_step.recv [of ?s1 ?r "[]"] by (simp_all add: chain_any_def chain_init_def)
  then have "chain_any\<^sup>*\<^sup>* ?s0 ?s2" by (meson converse_rtranclp_into_rtranclp rtranclp.rtrancl_refl)
  moreover have "ch_ret ?s2 = Some (addrs, None)" using assms(2) by (simp add: chain_recv_def)
  ultimately show ?thesis
    unfolding chain_returns_def using assms(1) by (intro exI [of _ "[?r]"] exI [of _ ?s2]) simp
qed

lemma chain_returns_total:
  assumes "\<And>r. r \<in> set resolvers \<Longrightarrow> \<exists>v. snd r host qTypes v"
  shows "\<exists>v. chain_returns resolvers host qTypes v"
proof -
  have "\<exists>outs :: chainResult list. list_all2 (\<lambda>r out. cr_from out = fst r \<and> snd r host qTypes (cr_addrs out, cr_err out)) resolvers outs"
    using assms
  proof (induction resolvers)
    case (Cons r rs)
    have "\<exists>outs :: chainResult list. list_all2 (\<lambda>r out. cr_from out = fst r \<and> snd r host qTypes (cr_addrs out, cr_err out)) rs outs"
      using Cons.prems by (intro Cons.IH) simp
    then obtain outs :: "chainResult list" where "list_all2 (\<lambda>r out. cr_from out = fst r \<and> snd r host qTypes (cr_addrs out, cr_err out)) rs outs"
      by blast
    moreover from Cons.prems [of r] obtain addrs err where "snd r host qTypes (addrs, err)" by auto
    ultimately show ?case by (intro exI [of _ "\<lparr>cr_addrs = addrs, cr_err = err, cr_from = fst r\<rparr> # outs"]) simp
  qed (blast intro: list_all2_Nil [THEN iffD2])
  then obtain outs :: "chainResult list" where outs: "list_all2 (\<lambda>r out. cr_from out = fst r \<and> snd r host qTypes (cr_addrs out, cr_err out)) resolvers outs"
    by blast
  obtain t where t: "chain_step\<^sup>*\<^sup>* (chain_init outs) t" "\<forall>u. \<not> chain_step t u" using chain_prog.reaches_final by blast
  have run: "chain_any\<^sup>*\<^sup>* (chain_init outs) t"
    using t(1) by (rule rtranclp_mono [THEN predicate2D, rotated]) (auto simp: chain_any_def)
  have "chain_inv outs t" using run chain_inv_init by (rule chain.run_invar)
  with t(2) have "ch_ret t \<noteq> None" using chain_progress by metis
  with outs run show ?thesis unfolding chain_returns_def by blast
qed

locale resolver_chain =
  fixes resolvers :: "(string \<times> resolve_rel) list"
    and genuine :: "string \<Rightarrow> uint16 list \<Rightarrow> net_IPAddr \<Rightarrow> bool"
  assumes each: "r \<in> set resolvers \<Longrightarrow> resolver_interface (snd r) genuine"
begin

lemma chain_returns_cases:
  assumes "chain_returns resolvers host qTypes (addrs, err)"
  shows "addrs = [] \<or> err = None \<and> (\<exists>r\<in>set resolvers. \<exists>err'. snd r host qTypes (addrs, err'))"
proof -
  from assms obtain outs s where
    outs: "list_all2 (\<lambda>r out. cr_from out = fst r \<and> snd r host qTypes (cr_addrs out, cr_err out)) resolvers outs"
    and run: "chain_any\<^sup>*\<^sup>* (chain_init outs) s" and ret: "ch_ret s = Some (addrs, err)"
    by (auto simp: chain_returns_def)
  have "chain_inv outs s" using run chain_inv_init by (rule chain.run_invar)
  from chain_inv_returned [OF this ret] have "addrs = [] \<or> err = None \<and> (\<exists>out\<in>set outs. addrs = cr_addrs out)"
    by auto
  moreover have "\<exists>r\<in>set resolvers. snd r host qTypes (cr_addrs out, cr_err out)" if "out \<in> set outs" for out
    using that outs by (metis (no_types, lifting) in_set_conv_nth list_all2_conv_all_nth)
  ultimately show ?thesis by metis
qed

end

sublocale resolver_chain \<subseteq> chained: resolver_interface "chain_returns resolvers" genuine
proof
  fix host qTypes addrs err a
  assume ret: "chain_returns resolvers host qTypes (addrs, err)" and a: "a \<in> set addrs"
  from chain_returns_cases [OF ret] a obtain r err' where r: "r \<in> set resolvers" "snd r host qTypes (addrs, err')"
    by auto
  show "genuine host qTypes a"
    by (rule resolver_interface.resolve_genuine [OF each [OF r(1)] r(2) a])
next
  fix host qTypes addrs e
  assume "chain_returns resolvers host qTypes (addrs, Some e)"
  then show "addrs = []" using chain_returns_cases by blast
qed

context resolver_chain
begin

lemma chain_interface: "resolver_interface (chain_returns resolvers) genuine"
  by (rule chained.resolver_interface_axioms)

end

section \<open>Properties\<close>

text \<open>C14: the chain masks failing upstreams.  A non-empty result of \<open>Resolve\<close> is the answer of one of
  the resolvers, without an error.  While the caller's context lives, one resolver with an answer is
  enough for a non-empty result, however many of the others fail, answer empty or are slow; and an
  empty result carries every resolver's error, under its name.\<close>

theorem chain_first_answer_wins:
  assumes "chain_any\<^sup>*\<^sup>* (chain_init rs) s" and "ch_ret s = Some (addrs, err)"
  shows "(addrs \<noteq> [] \<longrightarrow> err = None \<and> (\<exists>r\<in>set rs. addrs = cr_addrs r)) \<and>
    (ch_ctx s = None \<longrightarrow> (\<exists>r\<in>set rs. cr_addrs r \<noteq> []) \<longrightarrow> addrs \<noteq> []) \<and>
    (ch_ctx s = None \<and> rs \<noteq> [] \<and> addrs = [] \<longrightarrow>
       (\<exists>es. mset es = mset (wrapped_errs rs) \<and> err = errors_Join es))"
proof -
  have "chain_inv rs s" using assms(1) chain_inv_init by (rule chain.run_invar)
  from chain_inv_returned [OF this assms(2)] show ?thesis by auto
qed

definition demo_results :: "chainResult list" where
  "demo_results =
     [\<lparr>cr_addrs = [], cr_err = Some ErrTimeout, cr_from = ''a''\<rparr>,
      \<lparr>cr_addrs = [\<lparr>IP = [9, 9, 9, 9], Zone = []\<rparr>], cr_err = None, cr_from = ''b''\<rparr>]"

lemma demo_chain_run:
  "\<exists>s. chain_any\<^sup>*\<^sup>* (chain_init demo_results) s \<and> ch_ctx s = None \<and> ch_ret s = Some ([\<lparr>IP = [9, 9, 9, 9], Zone = []\<rparr>], None)"
proof -
  let ?a = "demo_results ! 0" and ?b = "demo_results ! 1" and ?s0 = "chain_init demo_results"
  let ?s1 = "?s0\<lparr>ch_running := [?b], ch_out := [?a]\<rparr>"
  let ?s2 = "chain_recv ?a (?s1\<lparr>ch_out := []\<rparr>)"
  let ?s3 = "?s2\<lparr>ch_running := [], ch_out := [?b]\<rparr>"
  let ?s4 = "chain_recv ?b (?s3\<lparr>ch_out := []\<rparr>)"
  have "chain_any ?s0 ?s1" "chain_any ?s1 ?s2" "chain_any ?s2 ?s3" "chain_any ?s3 ?s4"
    using chain_step.send [of ?a ?s0] chain_step.recv [of ?s1 ?a "[]"]
      chain_step.send [of ?b ?s2] chain_step.recv [of ?s3 ?b "[]"]
    by (simp_all add: chain_any_def chain_init_def demo_results_def chain_recv_def)
  then have "chain_any\<^sup>*\<^sup>* ?s0 ?s4"
    by (meson converse_rtranclp_into_rtranclp rtranclp.rtrancl_refl)
  moreover have "ch_ret ?s4 = Some ([\<lparr>IP = [9, 9, 9, 9], Zone = []\<rparr>], None)" and "ch_ctx ?s4 = None"
    by (simp_all add: chain_recv_def demo_results_def chain_init_def)
  ultimately show ?thesis by blast
qed

theorem chain_first_answer_wins_witness:
  "\<exists>s addrs. chain_any\<^sup>*\<^sup>* (chain_init demo_results) s \<and> ch_ret s = Some (addrs, None) \<and> addrs \<noteq> []"
proof -
  obtain s where s: "chain_any\<^sup>*\<^sup>* (chain_init demo_results) s" "ch_ctx s = None"
    "ch_ret s = Some ([\<lparr>IP = [9, 9, 9, 9], Zone = []\<rparr>], None)"
    using demo_chain_run by blast
  from chain_first_answer_wins [OF s(1) s(3)] s show ?thesis by blast
qed

text \<open>C15: \<open>Resolve\<close> of the chain always returns and leaves no goroutine behind.  With \<open>n\<close> resolvers a run
  has at most \<open>2 n + 1\<close> steps, and a state without a next step is one in which the call has
  returned and every resolver's goroutine has ended: the losers of the race find room in the channel
  or see the cancelled context.\<close>

theorem chain_returns_without_leak:
  assumes "chain_any\<^sup>*\<^sup>* (chain_init rs) s"
  shows "(\<exists>t. chain_step\<^sup>*\<^sup>* s t \<and> (\<forall>u. \<not> chain_step t u)) \<and>
    (\<forall>n t. (chain_step ^^ n) s t \<longrightarrow> n \<le> 2 * length rs + 1) \<and>
    ((\<forall>u. \<not> chain_step s u) \<longrightarrow> ch_ret s \<noteq> None \<and> ch_running s = [])"
proof -
  have inv: "chain_inv rs s" using assms chain_inv_init by (rule chain.run_invar)
  obtain rcvd :: "chainResult list" where "length rcvd + length (ch_out s) + length (ch_running s) \<le> length rs"
    using inv by (rule chain_inv_sizes)
  then have "chain_msr s \<le> 2 * length rs + 1" by (simp add: chain_msr_def of_bool_def)
  then have "n \<le> 2 * length rs + 1" if "(chain_step ^^ n) s t" for n t
    using chain_prog.run_length [OF that] by simp
  moreover have "\<exists>t. chain_step\<^sup>*\<^sup>* s t \<and> (\<forall>u. \<not> chain_step t u)"
    by (rule chain_prog.reaches_final) simp
  moreover have "ch_ret s \<noteq> None \<and> ch_running s = []" if "\<forall>u. \<not> chain_step s u"
    using that chain_progress [OF inv] by metis
  ultimately show ?thesis by blast
qed

theorem chain_returns_without_leak_witness:
  "\<exists>t. chain_step\<^sup>*\<^sup>* (chain_init demo_results) t \<and> (\<forall>u. \<not> chain_step t u)"
  using chain_returns_without_leak [of demo_results "chain_init demo_results"] by blast

end
