(* ===== verification/Cache.thy ===== *)
theory Cache
  imports Chain "HOL-Library.AList"
begin

text \<open>
  \<open>dns/resolver/cache.go\<close>: a cache with separate lifetimes for positive and negative answers, a bound
  on its size, and one upstream lookup at a time for each key.  \<open>cache_enter\<close> and \<open>cache_complete\<close>
  are the two critical sections of \<open>Resolve\<close>; the step relation \<open>cache_step\<close> interleaves any number
  of concurrent calls.  Times and durations are integers (nanoseconds).  The order in which Go
  iterates over a map is the parameter \<open>iter\<close>.
\<close>

section \<open>Keys\<close>

definition qtype_bytes :: "uint16 \<Rightarrow> bytes" where
  "qtype_bytes q = [ucast (drop_bit 8 q), ucast q]"

definition Cache_String :: "string \<Rightarrow> string" where
  "Cache_String inner = ''cache('' @ inner @ '')''"

definition cacheKey :: "string \<Rightarrow> uint16 list \<Rightarrow> string" where
  "cacheKey host qTypes = host @ string_of_bytes (concat (map qtype_bytes qTypes))"

section \<open>State and operations\<close>

record cacheEntry =
  ce_addrs :: "net_IPAddr list"
  ce_err :: "go_error option"
  ce_expires :: int

text \<open>A \<open>pendingLookup\<close> is named by the call that leads it; its fields and its channel \<open>done\<close> are in
  \<open>sy_done\<close> below.\<close>

record cache =
  c_posTTL :: int
  c_negTTL :: int
  c_maxSize :: nat
  c_entries :: "(string \<times> cacheEntry) list"
  c_pending :: "string \<rightharpoonup> nat"

definition NewCache :: "int \<Rightarrow> int \<Rightarrow> int \<Rightarrow> cache" where
  "NewCache posTTL negTTL maxSize =
     \<lparr>c_posTTL = posTTL, c_negTTL = negTTL, c_maxSize = nat (if maxSize \<le> 0 then 1024 else maxSize),
      c_entries = [], c_pending = Map.empty\<rparr>"

type_synonym iter_order = "(string \<times> cacheEntry) list \<Rightarrow> (string \<times> cacheEntry) list"

definition evictLocked :: "iter_order \<Rightarrow> nat \<Rightarrow> int \<Rightarrow> (string \<times> cacheEntry) list \<Rightarrow> (string \<times> cacheEntry) list" where
  "evictLocked iter maxSize now entries =
     (if length entries \<le> maxSize then entries
      else let live = filter (\<lambda>ke. now < ce_expires (snd ke)) entries
           in if length live \<le> maxSize then live else drop (length live - maxSize) (iter live))"

text \<open>The value a call returns for an entry and for a finished pending lookup: \<open>nil\<close> with an error.\<close>

definition cached_result :: "net_IPAddr list \<Rightarrow> go_error option \<Rightarrow> resolve_result" where
  "cached_result addrs err = (if err \<noteq> None then ([], err) else (addrs, None))"

datatype pc = Start | Timed int | Waiting nat | Leading | Finished resolve_result

text \<open>From the first \<open>Lock\<close> to the first \<open>Unlock\<close>, for call \<open>i\<close> that read the clock at \<open>now\<close>.\<close>

definition cache_enter :: "nat \<Rightarrow> string \<Rightarrow> int \<Rightarrow> cache \<Rightarrow> cache \<times> pc" where
  "cache_enter i key now c =
     (case map_of (c_entries c) key of
        Some e \<Rightarrow>
          if now < ce_expires e then (c, Finished (cached_result (ce_addrs e) (ce_err e)))
          else (case c_pending c key of
                  Some p \<Rightarrow> (c, Waiting p)
                | None \<Rightarrow> (c\<lparr>c_pending := (c_pending c)(key \<mapsto> i)\<rparr>, Leading))
      | None \<Rightarrow>
          (case c_pending c key of
             Some p \<Rightarrow> (c, Waiting p)
           | None \<Rightarrow> (c\<lparr>c_pending := (c_pending c)(key \<mapsto> i)\<rparr>, Leading)))"

definition entry_ttl :: "cache \<Rightarrow> net_IPAddr list \<Rightarrow> go_error option \<Rightarrow> int" where
  "entry_ttl c addrs err = (if err \<noteq> None \<or> addrs = [] then c_negTTL c else c_posTTL c)"

text \<open>From the second \<open>Lock\<close> to the second \<open>Unlock\<close>; the clock is read at \<open>t\<close> for the expiry and at
  \<open>t'\<close> in \<open>evictLocked\<close>.\<close>

definition cache_complete :: "iter_order \<Rightarrow> string \<Rightarrow> resolve_result \<Rightarrow> int \<Rightarrow> int \<Rightarrow> cache \<Rightarrow> cache" where
  "cache_complete iter key v t t' c =
     (let c1 = c\<lparr>c_pending := (c_pending c)(key := None)\<rparr>;
          ttl = entry_ttl c (fst v) (snd v)
      in if 0 < ttl
         then c1\<lparr>c_entries := evictLocked iter (c_maxSize c) t'
                   (AList.update key \<lparr>ce_addrs = fst v, ce_err = snd v, ce_expires = t + ttl\<rparr> (c_entries c))\<rparr>
         else c1)"

section \<open>Concurrent calls\<close>

record cthread =
  th_host :: string
  th_qTypes :: "uint16 list"
  th_ctx :: "go_error option"
  th_pc :: pc

definition th_key :: "cthread \<Rightarrow> string" where
  "th_key th = cacheKey (th_host th) (th_qTypes th)"

text \<open>\<open>sy_at\<close> is no state of the code: it records the time that call \<open>p\<close> read when it stored the answer of its
  lookup.\<close>

record cache_sys =
  sy_cache :: cache
  sy_done :: "nat \<rightharpoonup> resolve_result"
  sy_at :: "nat \<rightharpoonup> int"
  sy_threads :: "cthread list"
  sy_clock :: int

definition cache_init :: "cache \<Rightarrow> int \<Rightarrow> (string \<times> uint16 list) list \<Rightarrow> cache_sys" where
  "cache_init c t calls =
     \<lparr>sy_cache = c, sy_done = Map.empty, sy_at = Map.empty,
      sy_threads = map (\<lambda>hq. \<lparr>th_host = fst hq, th_qTypes = snd hq, th_ctx = None, th_pc = Start\<rparr>) calls,
      sy_clock = t\<rparr>"

definition set_pc :: "nat \<Rightarrow> pc \<Rightarrow> cache_sys \<Rightarrow> cache_sys" where
  "set_pc i p s = s\<lparr>sy_threads := (sy_threads s)[i := (sy_threads s ! i)\<lparr>th_pc := p\<rparr>]\<rparr>"

abbreviation pc_at :: "cache_sys \<Rightarrow> nat \<Rightarrow> pc" where
  "pc_at s i \<equiv> th_pc (sy_threads s ! i)"

abbreviation key_at :: "cache_sys \<Rightarrow> nat \<Rightarrow> string" where
  "key_at s i \<equiv> th_key (sy_threads s ! i)"

inductive cache_step :: "iter_order \<Rightarrow> resolve_rel \<Rightarrow> cache_sys \<Rightarrow> cache_sys \<Rightarrow> bool" for iter inner where
  now: "i < length (sy_threads s) \<Longrightarrow> pc_at s i = Start \<Longrightarrow>
    cache_step iter inner s (set_pc i (Timed (sy_clock s)) s)"
| enter: "i < length (sy_threads s) \<Longrightarrow> pc_at s i = Timed t \<Longrightarrow> cache_enter i (key_at s i) t (sy_cache s) = (c, p) \<Longrightarrow>
    cache_step iter inner s (set_pc i p (s\<lparr>sy_cache := c\<rparr>))"
| woken: "i < length (sy_threads s) \<Longrightarrow> pc_at s i = Waiting p \<Longrightarrow> sy_done s p = Some v \<Longrightarrow>
    cache_step iter inner s (set_pc i (Finished (cached_result (fst v) (snd v))) s)"
| gone: "i < length (sy_threads s) \<Longrightarrow> pc_at s i = Waiting p \<Longrightarrow> th_ctx (sy_threads s ! i) = Some e \<Longrightarrow>
    cache_step iter inner s (set_pc i (Finished ([], Some e)) s)"
| complete: "i < length (sy_threads s) \<Longrightarrow> pc_at s i = Leading \<Longrightarrow>
    inner (th_host (sy_threads s ! i)) (th_qTypes (sy_threads s ! i)) v \<Longrightarrow> sy_clock s \<le> t \<Longrightarrow> t \<le> t' \<Longrightarrow>
    cache_step iter inner s (set_pc i (Finished v)
      (s\<lparr>sy_cache := cache_complete iter (key_at s i) v t t' (sy_cache s), sy_done := (sy_done s)(i \<mapsto> v),
         sy_at := (sy_at s)(i \<mapsto> t), sy_clock := t'\<rparr>))"

text \<open>Time passes; a caller's context ends, once.\<close>

inductive cache_env :: "cache_sys \<Rightarrow> cache_sys \<Rightarrow> bool" where
  tick: "sy_clock s \<le> t \<Longrightarrow> cache_env s (s\<lparr>sy_clock := t\<rparr>)"
| cancel: "i < length (sy_threads s) \<Longrightarrow> th_ctx (sy_threads s ! i) = None \<Longrightarrow> e \<in> {Canceled, DeadlineExceeded} \<Longrightarrow>
    cache_env s (s\<lparr>sy_threads := (sy_threads s)[i := (sy_threads s ! i)\<lparr>th_ctx := Some e\<rparr>]\<rparr>)"

definition cache_any :: "iter_order \<Rightarrow> resolve_rel \<Rightarrow> cache_sys \<Rightarrow> cache_sys \<Rightarrow> bool" where
  "cache_any iter inner s t \<longleftrightarrow> cache_step iter inner s t \<or> cache_env s t"

inductive_cases cache_stepE: "cache_step iter inner s t"
inductive_cases cache_envE: "cache_env s t"

section \<open>Eviction and keys\<close>

lemma evictLocked_bounded:
  assumes "\<And>xs. mset (iter xs) = mset xs"
  shows "length (evictLocked iter n now es) \<le> n"
proof -
  have "length (iter xs) = length xs" for xs by (metis assms size_mset)
  then show ?thesis by (auto simp: evictLocked_def Let_def)
qed

lemma evictLocked_subset:
  assumes "\<And>xs. mset (iter xs) = mset xs"
  shows "set (evictLocked iter n now es) \<subseteq> set es"
proof -
  have "set (iter xs) = set xs" for xs by (metis assms set_mset_mset)
  then show ?thesis by (auto simp: evictLocked_def Let_def dest: in_set_dropD)
qed

lemma evictLocked_distinct:
  assumes "\<And>xs. mset (iter xs) = mset xs" and "distinct (map fst es)"
  shows "distinct (map fst (evictLocked iter n now es))"
proof -
  have "distinct (map fst (iter xs)) = distinct (map fst xs)" for xs :: "(string \<times> cacheEntry) list"
    using assms(1) [of xs] by (metis mset_eq_imp_distinct_iff mset_map)
  with assms(2) show ?thesis
    by (auto simp: evictLocked_def Let_def distinct_map_filter simp flip: drop_map)
qed

lemma qtype_bytes_inj: "qtype_bytes q = qtype_bytes q' \<longleftrightarrow> q = q'"
proof
  assume "qtype_bytes q = qtype_bytes q'"
  then have hi: "(ucast (drop_bit 8 q) :: byte) = ucast (drop_bit 8 q')" and lo: "(ucast q :: byte) = ucast q'"
    by (simp_all add: qtype_bytes_def)
  have "bit q n = bit q' n" if "n < 16" for n
  proof (cases "n < 8")
    case True
    with arg_cong [OF lo, of "\<lambda>w. bit w n"] show ?thesis by (simp add: bit_ucast_iff)
  next
    case False
    with that have "n - 8 < 8" by linarith
    with False arg_cong [OF hi, of "\<lambda>w. bit w (n - 8)"] show ?thesis by (simp add: bit_ucast_iff bit_drop_bit_eq)
  qed
  then show "q = q'" by (intro bit_word_eqI) simp
qed simp

lemma length_qtype_bytes [simp]: "length (qtype_bytes q) = 2"
  by (simp add: qtype_bytes_def)

lemma concat_qtype_bytes_inj:
  "length qs = length qs' \<Longrightarrow> concat (map qtype_bytes qs) = concat (map qtype_bytes qs') \<Longrightarrow> qs = qs'"
proof (induction qs qs' rule: list_induct2)
  case Nil
  then show ?case by simp
next
  case (Cons q qs q' qs')
  from Cons.prems have "qtype_bytes q = qtype_bytes q'"
    and "concat (map qtype_bytes qs) = concat (map qtype_bytes qs')"
    by (simp_all add: append_eq_append_conv)
  with Cons.IH show ?case by (simp add: qtype_bytes_inj)
qed

lemma length_concat_qtype_bytes: "length (concat (map qtype_bytes qs)) = 2 * length qs"
  by (induction qs) auto

lemma string_of_bytes_inj: "string_of_bytes a = string_of_bytes b \<longleftrightarrow> a = b"
  by (metis bytes_of_string_of_bytes)

lemma cacheKey_eq_iff:
  assumes "length qs = length qs'"
  shows "cacheKey h qs = cacheKey h' qs' \<longleftrightarrow> h = h' \<and> qs = qs'"
  using assms concat_qtype_bytes_inj [of qs qs']
  by (auto simp: cacheKey_def append_eq_append_conv length_concat_qtype_bytes string_of_bytes_inj)

section \<open>The invariant\<close>

lemma set_pc_simps [simp]:
  "sy_cache (set_pc i p s) = sy_cache s" "sy_done (set_pc i p s) = sy_done s" "sy_at (set_pc i p s) = sy_at s"
  "sy_clock (set_pc i p s) = sy_clock s" "length (sy_threads (set_pc i p s)) = length (sy_threads s)"
  by (simp_all add: set_pc_def)

lemma set_pc_nth:
  "i < length (sy_threads s) \<Longrightarrow>
   sy_threads (set_pc i p s) ! j = (if j = i then (sy_threads s ! i)\<lparr>th_pc := p\<rparr> else sy_threads s ! j)"
  by (auto simp: set_pc_def nth_list_update)

lemma th_key_update [simp]: "th_key (th\<lparr>th_pc := p\<rparr>) = th_key th" "th_key (th\<lparr>th_ctx := e\<rparr>) = th_key th"
  by (simp_all add: th_key_def)

definition calls_of :: "cache_sys \<Rightarrow> (string \<times> uint16 list) list" where
  "calls_of s = map (\<lambda>th. (th_host th, th_qTypes th)) (sy_threads s)"

lemma calls_of_set_pc [simp]: "calls_of (set_pc i p s) = calls_of s"
  by (cases "i < length (sy_threads s)")
    (auto simp: calls_of_def set_pc_def map_update list_update_same_conv list_update_beyond not_less)

lemma calls_of_update [simp]:
  "calls_of (s\<lparr>sy_cache := c\<rparr>) = calls_of s" "calls_of (s\<lparr>sy_done := d\<rparr>) = calls_of s"
  "calls_of (s\<lparr>sy_clock := t\<rparr>) = calls_of s" "calls_of (s\<lparr>sy_at := a\<rparr>) = calls_of s"
  by (simp_all add: calls_of_def)

text \<open>An entry or a result for key \<open>k\<close> is a value of the inner resolver for a call with that key.\<close>

definition from_inner :: "resolve_rel \<Rightarrow> (string \<times> uint16 list) list \<Rightarrow> string \<Rightarrow> resolve_result \<Rightarrow> bool" where
  "from_inner inner calls k v \<longleftrightarrow> (\<exists>(h, qs) \<in> set calls. cacheKey h qs = k \<and> inner h qs v)"

text \<open>The entry was stored by a call with that key and expires one lifetime after that moment.\<close>

definition stored_by :: "cache_sys \<Rightarrow> string \<Rightarrow> cacheEntry \<Rightarrow> bool" where
  "stored_by s k e \<longleftrightarrow>
     (\<exists>p t. sy_done s p = Some (ce_addrs e, ce_err e) \<and> sy_at s p = Some t \<and> key_at s p = k \<and> t \<le> sy_clock s \<and>
        ce_expires e = t + entry_ttl (sy_cache s) (ce_addrs e) (ce_err e))"

definition store_inv :: "resolve_rel \<Rightarrow> cache_sys \<Rightarrow> bool" where
  "store_inv inner s \<longleftrightarrow>
     distinct (map fst (c_entries (sy_cache s))) \<and> length (c_entries (sy_cache s)) \<le> c_maxSize (sy_cache s) \<and>
     (\<forall>(k, e) \<in> set (c_entries (sy_cache s)).
        from_inner inner (calls_of s) k (ce_addrs e, ce_err e) \<and> stored_by s k e)"

text \<open>Who leads and who waits, over the program counters and the keys of the \<open>n\<close> calls.\<close>

definition pending_ok ::
  "nat \<Rightarrow> (nat \<Rightarrow> pc) \<Rightarrow> (nat \<Rightarrow> string) \<Rightarrow> (string \<rightharpoonup> nat) \<Rightarrow> (nat \<rightharpoonup> resolve_result) \<Rightarrow> bool" where
  "pending_ok n pc key pend don \<longleftrightarrow>
     (\<forall>k p. pend k = Some p \<longleftrightarrow> p < n \<and> pc p = Leading \<and> key p = k) \<and>
     (\<forall>i p. i < n \<longrightarrow> pc i = Waiting p \<longrightarrow> p < n \<and> key p = key i \<and> (pc p = Leading \<or> don p \<noteq> None))"

definition pending_inv :: "cache_sys \<Rightarrow> bool" where
  "pending_inv s \<longleftrightarrow> pending_ok (length (sy_threads s)) (pc_at s) (key_at s) (c_pending (sy_cache s)) (sy_done s)"

text \<open>What a call with key \<open>k\<close> whose context has the error \<open>ctx\<close> may return.\<close>

definition result_ok ::
  "resolve_rel \<Rightarrow> (string \<times> uint16 list) list \<Rightarrow> string \<Rightarrow> go_error option \<Rightarrow> resolve_result \<Rightarrow> bool" where
  "result_ok inner calls k ctx v \<longleftrightarrow>
     (\<exists>w. from_inner inner calls k w \<and> (v = w \<or> v = cached_result (fst w) (snd w))) \<or>
     (\<exists>e. v = ([], Some e) \<and> ctx = Some e)"

definition result_inv :: "resolve_rel \<Rightarrow> cache_sys \<Rightarrow> bool" where
  "result_inv inner s \<longleftrightarrow>
     (\<forall>p v. sy_done s p = Some v \<longrightarrow>
        p < length (sy_threads s) \<and> from_inner inner (calls_of s) (key_at s p) v \<and> pc_at s p = Finished v) \<and>
     (\<forall>i v. i < length (sy_threads s) \<longrightarrow> pc_at s i = Finished v \<longrightarrow>
        result_ok inner (calls_of s) (key_at s i) (th_ctx (sy_threads s ! i)) v)"

definition cache_inv :: "resolve_rel \<Rightarrow> cache \<Rightarrow> (string \<times> uint16 list) list \<Rightarrow> cache_sys \<Rightarrow> bool" where
  "cache_inv inner c0 calls s \<longleftrightarrow>
     calls_of s = calls \<and> c_maxSize (sy_cache s) = c_maxSize c0 \<and>
     c_posTTL (sy_cache s) = c_posTTL c0 \<and> c_negTTL (sy_cache s) = c_negTTL c0 \<and>
     (\<forall>i e. i < length (sy_threads s) \<longrightarrow> th_ctx (sy_threads s ! i) = Some e \<longrightarrow> e \<in> {Canceled, DeadlineExceeded}) \<and>
     store_inv inner s \<and> pending_inv s \<and> result_inv inner s"

lemma from_inner_call:
  "i < length (sy_threads s) \<Longrightarrow> inner (th_host (sy_threads s ! i)) (th_qTypes (sy_threads s ! i)) v \<Longrightarrow>
   from_inner inner (calls_of s) (key_at s i) v"
  by (force simp: from_inner_def calls_of_def th_key_def)

lemma cache_enter_cases:
  assumes "cache_enter i key now c = (c', p)"
  shows "(\<exists>e. map_of (c_entries c) key = Some e \<and> now < ce_expires e \<and> c' = c \<and>
      p = Finished (cached_result (ce_addrs e) (ce_err e))) \<or>
    (\<exists>l. c_pending c key = Some l \<and> c' = c \<and> p = Waiting l) \<or>
    c_pending c key = None \<and> c' = c\<lparr>c_pending := (c_pending c)(key \<mapsto> i)\<rparr> \<and> p = Leading"
  using assms by (auto simp: cache_enter_def split: option.splits if_splits)

lemma set_AList_update: "set (AList.update k v xs) \<subseteq> insert (k, v) (set xs)"
  by (induction xs) auto

lemma entry_ttl_cong:
  "c_posTTL c' = c_posTTL c \<Longrightarrow> c_negTTL c' = c_negTTL c \<Longrightarrow> entry_ttl c' a e = entry_ttl c a e"
  by (simp add: entry_ttl_def)

text \<open>A step that leaves the entries and the finished lookups alone keeps the store, whatever the clock does.\<close>

lemma stored_by_mono:
  assumes "stored_by s k e" and "\<And>p v. sy_done s p = Some v \<Longrightarrow> sy_done t p = Some v \<and> sy_at t p = sy_at s p"
    and "c_posTTL (sy_cache t) = c_posTTL (sy_cache s)" and "c_negTTL (sy_cache t) = c_negTTL (sy_cache s)"
    and "\<And>p. key_at t p = key_at s p" and "sy_clock s \<le> sy_clock t"
  shows "stored_by t k e"
  using assms(1,2,6) entry_ttl_cong [OF assms(3,4)] unfolding stored_by_def assms(5) by (metis order_trans)

lemma store_inv_keep:
  assumes "store_inv inner s" and "c_entries (sy_cache t) = c_entries (sy_cache s)"
    and "c_maxSize (sy_cache t) = c_maxSize (sy_cache s)" and "c_posTTL (sy_cache t) = c_posTTL (sy_cache s)"
    and "c_negTTL (sy_cache t) = c_negTTL (sy_cache s)" and "calls_of t = calls_of s" and "sy_clock s \<le> sy_clock t"
    and "\<And>p. key_at t p = key_at s p" and "\<And>p v. sy_done s p = Some v \<Longrightarrow> sy_done t p = Some v \<and> sy_at t p = sy_at s p"
  shows "store_inv inner t"
proof -
  have "stored_by t k e" if "stored_by s k e" for k e
    by (rule stored_by_mono [OF that assms(9,4,5,8,7)])
  with assms(1-6) show ?thesis by (fastforce simp: store_inv_def)
qed

lemma store_inv_insert:
  assumes inv: "store_inv inner s" and perm: "\<And>xs. mset (iter xs) = mset xs"
    and v: "from_inner inner (calls_of s) (key_at s i) (addrs, err)" and t: "sy_clock s \<le> t" "t \<le> t'" and i: "sy_done s i = None"
  shows "store_inv inner (s\<lparr>sy_cache := cache_complete iter (key_at s i) (addrs, err) t t' (sy_cache s),
    sy_done := (sy_done s)(i \<mapsto> (addrs, err)), sy_at := (sy_at s)(i \<mapsto> t), sy_clock := t'\<rparr>)" (is "store_inv inner ?s'")
proof (cases "0 < entry_ttl (sy_cache s) addrs err")
  case False
  with t i show ?thesis
    by (intro store_inv_keep [OF inv]) (auto simp: cache_complete_def calls_of_def)
next
  case True
  let ?k = "key_at s i"
  let ?c = "sy_cache s"
  let ?e = "\<lparr>ce_addrs = addrs, ce_err = err, ce_expires = t + entry_ttl ?c addrs err\<rparr>"
  let ?u = "AList.update ?k ?e (c_entries ?c)"
  let ?c' = "cache_complete iter ?k (addrs, err) t t' ?c"
  from True have ents: "c_entries ?c' = evictLocked iter (c_maxSize ?c) t' ?u"
    and cfg: "c_maxSize ?c' = c_maxSize ?c" "\<And>a e. entry_ttl ?c' a e = entry_ttl ?c a e"
    by (simp_all add: cache_complete_def entry_ttl_def)
  have "distinct (map fst ?u)" using inv by (simp add: store_inv_def distinct_update)
  then have "distinct (map fst (c_entries ?c'))" unfolding ents by (rule evictLocked_distinct [OF perm])
  moreover have "length (c_entries ?c') \<le> c_maxSize ?c'"
    unfolding ents cfg by (rule evictLocked_bounded [OF perm])
  moreover have "from_inner inner (calls_of s) k' (ce_addrs e, ce_err e) \<and> stored_by ?s' k' e"
    if "(k', e) \<in> set (c_entries ?c')" for k' e
  proof -
    have "(k', e) \<in> set ?u"
      using that unfolding ents by (rule subsetD [OF evictLocked_subset [OF perm], rotated])
    then have "(k', e) \<in> insert (?k, ?e) (set (c_entries ?c))" by (rule subsetD [OF set_AList_update])
    then consider "k' = ?k" "e = ?e" | "(k', e) \<in> set (c_entries ?c)" by (elim insertE) simp_all
    then show ?thesis
    proof cases
      case 1
      with v t show ?thesis unfolding stored_by_def by (intro conjI exI [of _ i] exI [of _ t]) (simp_all add: cfg)
    next
      case 2
      then have "from_inner inner (calls_of s) k' (ce_addrs e, ce_err e)" and e: "stored_by s k' e"
        using inv by (auto simp: store_inv_def)
      moreover have "stored_by ?s' k' e"
        by (rule stored_by_mono [OF e]) (use t i in \<open>auto simp: cache_complete_def Let_def\<close>)
      ultimately show ?thesis by simp
    qed
  qed
  ultimately show ?thesis by (auto simp: store_inv_def calls_of_def)
qed

lemma pending_ok_leader: "pending_ok n pc key pend don \<Longrightarrow> pend k = Some p \<longleftrightarrow> p < n \<and> pc p = Leading \<and> key p = k"
  by (simp add: pending_ok_def)

lemma pending_ok_waiter:
  "pending_ok n pc key pend don \<Longrightarrow> i < n \<Longrightarrow> pc i = Waiting p \<Longrightarrow>
     p < n \<and> key p = key i \<and> (pc p = Leading \<or> don p \<noteq> None)"
  by (simp add: pending_ok_def)

lemma pending_okI:
  assumes "\<And>k p. pend k = Some p \<longleftrightarrow> p < n \<and> pc p = Leading \<and> key p = k"
    and "\<And>i p. i < n \<Longrightarrow> pc i = Waiting p \<Longrightarrow> p < n \<and> key p = key i \<and> (pc p = Leading \<or> don p \<noteq> None)"
  shows "pending_ok n pc key pend don"
  using assms by (simp add: pending_ok_def)

text \<open>A call that neither leads nor starts to lead or wait moves on.\<close>

lemma pending_ok_other:
  assumes inv: "pending_ok n pc key pend don" and "pc i \<noteq> Leading" and "q \<noteq> Leading" and "\<And>l. q \<noteq> Waiting l"
  shows "pending_ok n (pc(i := q)) key pend don"
proof (rule pending_okI)
  show "pend k = Some p \<longleftrightarrow> p < n \<and> (pc(i := q)) p = Leading \<and> key p = k" for k p
    using assms(2,3) pending_ok_leader [OF inv, of k p] by auto
  show "p < n \<and> key p = key j \<and> ((pc(i := q)) p = Leading \<or> don p \<noteq> None)"
    if "j < n" "(pc(i := q)) j = Waiting p" for j p
    using that assms(2,4) pending_ok_waiter [OF inv that(1), of p] by (auto split: if_splits)
qed

lemma pending_ok_wait:
  assumes inv: "pending_ok n pc key pend don" and "pc i \<noteq> Leading" and "pend (key i) = Some l"
  shows "pending_ok n (pc(i := Waiting l)) key pend don"
proof (rule pending_okI)
  have l: "l < n" "pc l = Leading" "key l = key i" using assms(3) pending_ok_leader [OF inv] by auto
  show "pend k = Some p \<longleftrightarrow> p < n \<and> (pc(i := Waiting l)) p = Leading \<and> key p = k" for k p
    using assms(2) pending_ok_leader [OF inv, of k p] by auto
  show "p < n \<and> key p = key j \<and> ((pc(i := Waiting l)) p = Leading \<or> don p \<noteq> None)"
    if "j < n" "(pc(i := Waiting l)) j = Waiting p" for j p
    using that assms(2) l pending_ok_waiter [OF inv that(1), of p] by (auto split: if_splits)
qed

lemma pending_ok_lead:
  assumes inv: "pending_ok n pc key pend don" and "i < n" and "pc i \<noteq> Leading" and none: "pend (key i) = None"
  shows "pending_ok n (pc(i := Leading)) key (pend(key i \<mapsto> i)) don"
proof (rule pending_okI)
  show "(pend(key i \<mapsto> i)) k = Some p \<longleftrightarrow> p < n \<and> (pc(i := Leading)) p = Leading \<and> key p = k" for k p
    using assms(2-4) pending_ok_leader [OF inv, of k p] by (cases "p = i"; cases "k = key i") auto
  show "p < n \<and> key p = key j \<and> ((pc(i := Leading)) p = Leading \<or> don p \<noteq> None)"
    if "j < n" "(pc(i := Leading)) j = Waiting p" for j p
    using that pending_ok_waiter [OF inv that(1), of p] by (auto split: if_splits)
qed

lemma pending_ok_complete:
  assumes inv: "pending_ok n pc key pend don" and "i < n" and lead: "pc i = Leading"
  shows "pending_ok n (pc(i := Finished v)) key (pend(key i := None)) (don(i \<mapsto> v))"
proof (rule pending_okI)
  have "pend (key i) = Some i" using assms by (simp add: pending_ok_leader [OF inv])
  then show "(pend(key i := None)) k = Some p \<longleftrightarrow> p < n \<and> (pc(i := Finished v)) p = Leading \<and> key p = k" for k p
    using lead pending_ok_leader [OF inv, of k p] by (cases "p = i"; cases "k = key i") auto
  show "p < n \<and> key p = key j \<and> ((pc(i := Finished v)) p = Leading \<or> (don(i \<mapsto> v)) p \<noteq> None)"
    if "j < n" "(pc(i := Finished v)) j = Waiting p" for j p
    using that pending_ok_waiter [OF inv that(1), of p] by (auto split: if_splits)
qed

lemma pc_at_set_pc: "i < length (sy_threads s) \<Longrightarrow> pc_at (set_pc i p s) = (pc_at s)(i := p)"
  by (auto simp: set_pc_nth)

lemma key_at_set_pc: "i < length (sy_threads s) \<Longrightarrow> key_at (set_pc i p s) = key_at s"
  by (auto simp: set_pc_nth)

lemma cache_complete_fields:
  "c_pending (cache_complete iter k v t t' c) = (c_pending c)(k := None)"
  "c_maxSize (cache_complete iter k v t t' c) = c_maxSize c"
  "c_posTTL (cache_complete iter k v t t' c) = c_posTTL c"
  "c_negTTL (cache_complete iter k v t t' c) = c_negTTL c"
  by (simp_all add: cache_complete_def Let_def)

lemma cache_step_pending_inv:
  assumes "cache_step iter inner s t" and inv: "pending_inv s"
  shows "pending_inv t"
  using assms(1)
proof cases
  case (now i)
  with inv show ?thesis
    by (simp add: pending_inv_def pc_at_set_pc key_at_set_pc pending_ok_other)
next
  case (enter i t c p)
  with cache_enter_cases [OF enter(4)] inv show ?thesis
    by (auto simp: pending_inv_def pc_at_set_pc key_at_set_pc pending_ok_other
        pending_ok_wait [where key = "key_at s"] pending_ok_lead [where pc = "pc_at s" and key = "key_at s"])
next
  case (woken i p v)
  with inv show ?thesis
    by (simp add: pending_inv_def pc_at_set_pc key_at_set_pc pending_ok_other)
next
  case (gone i p e)
  with inv show ?thesis
    by (simp add: pending_inv_def pc_at_set_pc key_at_set_pc pending_ok_other)
next
  case (complete i v t t')
  with inv show ?thesis
    by (simp add: pending_inv_def pc_at_set_pc key_at_set_pc cache_complete_fields
        pending_ok_complete [where pc = "pc_at s" and key = "key_at s"])
qed

lemma result_inv_done:
  "result_inv inner s \<Longrightarrow> sy_done s p = Some v \<Longrightarrow>
     p < length (sy_threads s) \<and> from_inner inner (calls_of s) (key_at s p) v \<and> pc_at s p = Finished v"
  unfolding result_inv_def by blast

lemma result_inv_finished:
  "result_inv inner s \<Longrightarrow> i < length (sy_threads s) \<Longrightarrow> pc_at s i = Finished v \<Longrightarrow>
     result_ok inner (calls_of s) (key_at s i) (th_ctx (sy_threads s ! i)) v"
  unfolding result_inv_def by blast

lemma result_inv_step:
  assumes inv: "result_inv inner s" and i: "i < length (sy_threads s)"
    and same: "sy_threads s' = sy_threads s" and busy: "\<And>v. pc_at s i \<noteq> Finished v"
    and don: "sy_done s' = sy_done s \<or>
      (\<exists>v. sy_done s' = (sy_done s)(i \<mapsto> v) \<and> from_inner inner (calls_of s) (key_at s i) v \<and> p = Finished v)"
    and fin: "\<And>v. p = Finished v \<Longrightarrow> result_ok inner (calls_of s) (key_at s i) (th_ctx (sy_threads s ! i)) v"
  shows "result_inv inner (set_pc i p s')"
proof -
  have calls: "calls_of (set_pc i p s') = calls_of s" using same by (simp only: calls_of_set_pc) (simp add: calls_of_def)
  have nth: "sy_threads (set_pc i p s') ! j = (if j = i then (sy_threads s ! i)\<lparr>th_pc := p\<rparr> else sy_threads s ! j)" for j
    using i same by (simp add: set_pc_nth)
  have keys: "key_at (set_pc i p s') j = key_at s j" for j by (simp add: nth)
  have ctxs: "th_ctx (sy_threads (set_pc i p s') ! j) = th_ctx (sy_threads s ! j)" for j by (simp add: nth)
  have "q < length (sy_threads s) \<and> from_inner inner (calls_of s) (key_at s q) v \<and> pc_at (set_pc i p s') q = Finished v"
    if "sy_done s' q = Some v" for q v
    using that don i busy [of v] result_inv_done [OF inv, of q v] by (auto simp: nth split: if_splits)
  moreover have "result_ok inner (calls_of s) (key_at s j) (th_ctx (sy_threads s ! j)) v"
    if "j < length (sy_threads s)" "pc_at (set_pc i p s') j = Finished v" for j v
    using that fin [of v] result_inv_finished [OF inv, of j v] by (auto simp: nth split: if_splits)
  ultimately show ?thesis
    unfolding result_inv_def calls keys ctxs set_pc_simps same by blast
qed

lemma store_inv_hit:
  assumes "store_inv inner s" and "map_of (c_entries (sy_cache s)) k = Some e"
  shows "from_inner inner (calls_of s) k (ce_addrs e, ce_err e)" and "stored_by s k e"
  using assms(1) map_of_SomeD [OF assms(2)] by (auto simp: store_inv_def)

lemma result_ok_cached: "from_inner inner calls k (as, e) \<Longrightarrow> result_ok inner calls k ctx (cached_result as e)"
  by (force simp: result_ok_def)

lemma result_ok_inner: "from_inner inner calls k v \<Longrightarrow> result_ok inner calls k ctx v"
  unfolding result_ok_def by blast

lemma cache_step_result_inv:
  assumes "cache_step iter inner s t" and inv: "result_inv inner s"
    and "store_inv inner s" "pending_inv s"
  shows "result_inv inner t"
  using assms(1)
proof cases
  case (now i)
  then show ?thesis by (auto intro: result_inv_step [OF inv])
next
  case (enter i tm c p)
  from cache_enter_cases [OF enter(4)] store_inv_hit(1) [OF assms(3), of "key_at s i"]
  have "result_ok inner (calls_of s) (key_at s i) ctx v" if "p = Finished v" for v ctx
    using that by (auto intro: result_ok_cached)
  with enter show ?thesis by (auto intro: result_inv_step [OF inv])
next
  case (woken i p v)
  have "key_at s p = key_at s i" using assms(4) woken(2,3) pending_ok_waiter unfolding pending_inv_def by blast
  with result_inv_done [OF inv woken(4)] have "from_inner inner (calls_of s) (key_at s i) (fst v, snd v)" by simp
  then have "result_ok inner (calls_of s) (key_at s i) ctx (cached_result (fst v) (snd v))" for ctx by (rule result_ok_cached)
  with woken show ?thesis by (auto intro: result_inv_step [OF inv])
next
  case (gone i p e)
  then show ?thesis by (auto simp: result_ok_def intro!: result_inv_step [OF inv])
next
  case (complete i v tm tm')
  have "from_inner inner (calls_of s) (key_at s i) v" using complete(2,4) by (rule from_inner_call)
  with complete show ?thesis by (auto intro!: result_inv_step [OF inv] result_ok_inner)
qed

lemma cache_step_store_inv:
  assumes "cache_step iter inner s t" and inv: "store_inv inner s" and res: "result_inv inner s"
    and perm: "\<And>xs. mset (iter xs) = mset xs"
  shows "store_inv inner t"
  using assms(1)
proof cases
  case (enter i tm c p)
  with cache_enter_cases [OF enter(4)] show ?thesis
    by (intro store_inv_keep [OF inv]) (auto simp: set_pc_nth)
next
  case (complete i v tm tm')
  have v: "from_inner inner (calls_of s) (key_at s i) (fst v, snd v)"
    using from_inner_call [of i s inner v] complete(2,4) by simp
  have "sy_done s i = None" using result_inv_done [OF res, of i] complete(3) by (cases "sy_done s i") auto
  from store_inv_insert [OF inv perm v complete(5,6) this] show ?thesis
    unfolding complete(1) prod.collapse by (rule store_inv_keep) (simp_all add: set_pc_nth complete(2))
qed (auto intro!: store_inv_keep [OF inv] simp: set_pc_nth)

lemma cache_env_threads:
  assumes "cache_env s t"
  shows "length (sy_threads t) = length (sy_threads s)" and "pc_at t j = pc_at s j" and "key_at t j = key_at s j"
    and "calls_of t = calls_of s" and "sy_cache t = sy_cache s" and "sy_done t = sy_done s" and "sy_clock s \<le> sy_clock t"
    and "sy_at t = sy_at s" and "th_ctx (sy_threads s ! j) = Some e \<Longrightarrow> th_ctx (sy_threads t ! j) = Some e"
  using assms
  by (auto simp: nth_list_update calls_of_def map_update list_update_same_conv elim!: cache_envE)

lemma cache_env_inv:
  assumes env: "cache_env s t" and inv: "cache_inv inner c0 calls s"
  shows "cache_inv inner c0 calls t"
proof -
  note th = cache_env_threads [OF env]
  from inv have "store_inv inner s" "pending_inv s" by (simp_all add: cache_inv_def)
  then have "store_inv inner t" "pending_inv t"
    by (auto intro: store_inv_keep simp: pending_inv_def th)
  moreover have "result_ok inner cs k (th_ctx (sy_threads t ! i)) v" if "result_ok inner cs k (th_ctx (sy_threads s ! i)) v" for cs k i v
    using that th(9) by (auto simp: result_ok_def)
  then have "result_inv inner t"
    using inv unfolding cache_inv_def result_inv_def th by blast
  moreover have "\<forall>i e. i < length (sy_threads t) \<longrightarrow> th_ctx (sy_threads t ! i) = Some e \<longrightarrow> e \<in> {Canceled, DeadlineExceeded}"
    using env inv by cases (auto simp: cache_inv_def nth_list_update)
  ultimately show ?thesis using inv unfolding cache_inv_def th by blast
qed

lemma cache_step_config:
  assumes "cache_step iter inner s t"
  shows "calls_of t = calls_of s" and "c_maxSize (sy_cache t) = c_maxSize (sy_cache s)"
    and "c_posTTL (sy_cache t) = c_posTTL (sy_cache s)" and "c_negTTL (sy_cache t) = c_negTTL (sy_cache s)"
    and "length (sy_threads t) = length (sy_threads s)"
    and "j < length (sy_threads s) \<Longrightarrow> th_ctx (sy_threads t ! j) = th_ctx (sy_threads s ! j)"
  using assms
  by (auto simp: cache_complete_fields set_pc_nth dest!: cache_enter_cases elim!: cache_stepE)

lemma cache_step_inv:
  assumes step: "cache_step iter inner s t" and inv: "cache_inv inner c0 calls s" and perm: "\<And>xs. mset (iter xs) = mset xs"
  shows "cache_inv inner c0 calls t"
proof -
  from inv have parts: "store_inv inner s" "pending_inv s" "result_inv inner s"
    and ctx: "\<And>i e. i < length (sy_threads s) \<Longrightarrow> th_ctx (sy_threads s ! i) = Some e \<Longrightarrow> e \<in> {Canceled, DeadlineExceeded}"
    by (simp_all add: cache_inv_def)
  have "store_inv inner t" using step parts(1,3) perm by (rule cache_step_store_inv)
  moreover have "pending_inv t" using step parts(2) by (rule cache_step_pending_inv)
  moreover have "result_inv inner t" by (rule cache_step_result_inv [OF step parts(3,1,2)])
  moreover note conf = cache_step_config [OF step]
  moreover have "\<forall>i e. i < length (sy_threads t) \<longrightarrow> th_ctx (sy_threads t ! i) = Some e \<longrightarrow> e \<in> {Canceled, DeadlineExceeded}"
    using ctx conf(5,6) by simp
  ultimately show ?thesis using inv unfolding cache_inv_def by simp
qed

locale map_iteration =
  fixes iter :: iter_order
  assumes iter_perm: "mset (iter xs) = mset xs"
begin

lemma cache_any_inv: "cache_any iter inner s t \<Longrightarrow> cache_inv inner c0 calls s \<Longrightarrow> cache_inv inner c0 calls t"
  unfolding cache_any_def using cache_step_inv [OF _ _ iter_perm] cache_env_inv by blast

end

sublocale map_iteration \<subseteq> cached: invariant_system "cache_any iter inner" "cache_inv inner c0 calls" for inner c0 calls
  by unfold_locales (rule cache_any_inv)

lemma cache_inv_init: "cache_inv inner (NewCache pos neg mx) calls (cache_init (NewCache pos neg mx) t calls)"
proof -
  have "calls_of (cache_init c t calls) = calls" for c by (simp add: calls_of_def cache_init_def comp_def)
  moreover have "store_inv inner (cache_init (NewCache pos neg mx) t calls)"
    by (simp add: store_inv_def cache_init_def NewCache_def)
  moreover have "pending_inv (cache_init (NewCache pos neg mx) t calls)"
    unfolding pending_inv_def by (rule pending_okI) (auto simp: cache_init_def NewCache_def)
  moreover have "result_inv inner (cache_init (NewCache pos neg mx) t calls)"
    by (auto simp: result_inv_def cache_init_def)
  ultimately show ?thesis by (auto simp: cache_inv_def cache_init_def)
qed

section \<open>Progress\<close>

fun pc_rank :: "pc \<Rightarrow> nat" where
  "pc_rank Start = 3"
| "pc_rank (Timed t) = 2"
| "pc_rank (Waiting p) = 1"
| "pc_rank Leading = 1"
| "pc_rank (Finished v) = 0"

definition cache_msr :: "cache_sys \<Rightarrow> nat" where
  "cache_msr s = sum_list (map (\<lambda>th. pc_rank (th_pc th)) (sy_threads s))"

lemma cache_msr_set_pc:
  assumes "i < length (sy_threads s)" and "sy_threads s' = sy_threads s" and "pc_rank p < pc_rank (pc_at s i)"
  shows "cache_msr (set_pc i p s') < cache_msr s"
proof -
  let ?rs = "map (\<lambda>th. pc_rank (th_pc th)) (sy_threads s)"
  have "pc_rank (pc_at s i) \<le> sum_list ?rs"
    using elem_le_sum_list [of i ?rs] assms(1) by simp
  moreover have "cache_msr (set_pc i p s') = sum_list ?rs + pc_rank p - pc_rank (pc_at s i)"
    using assms(1,2) sum_list_update [of i ?rs "pc_rank p"] by (simp add: cache_msr_def set_pc_def map_update)
  ultimately show ?thesis using assms(3) by (simp add: cache_msr_def)
qed

lemma cache_msr_le: "cache_msr s \<le> 3 * length (sy_threads s)"
proof -
  have "pc_rank p \<le> 3" for p by (cases p) auto
  then have "sum_list (map (\<lambda>th. pc_rank (th_pc th)) ths) \<le> 3 * length ths" for ths
  proof (induction ths)
    case (Cons th ths)
    from add_mono [OF Cons.prems [of "th_pc th"] Cons.IH [OF Cons.prems]] show ?case by simp
  qed simp
  then show ?thesis by (simp add: cache_msr_def)
qed

interpretation cache_prog: measured_system "cache_step iter inner" "\<lambda>_. True" cache_msr for iter inner
proof unfold_locales
  fix s t
  assume "cache_step iter inner s t"
  then show "cache_msr t < cache_msr s"
    by cases (auto intro!: cache_msr_set_pc dest!: cache_enter_cases)
qed simp

lemma cache_progress:
  assumes inv: "pending_inv s" and i: "i < length (sy_threads s)" and unfinished: "\<And>v. pc_at s i \<noteq> Finished v"
    and total: "\<And>h qs. \<exists>v. inner h qs v"
  shows "\<exists>t. cache_step iter inner s t"
proof -
  have lead: ?thesis if "j < length (sy_threads s)" "pc_at s j = Leading" for j
    using total [of "th_host (sy_threads s ! j)" "th_qTypes (sy_threads s ! j)"] cache_step.complete [OF that _ order_refl order_refl]
    by blast
  show ?thesis
  proof (cases "pc_at s i")
    case Start
    with i show ?thesis by (blast intro: cache_step.now)
  next
    case (Timed t)
    obtain c p where "cache_enter i (key_at s i) t (sy_cache s) = (c, p)" by (cases "cache_enter i (key_at s i) t (sy_cache s)")
    with i Timed show ?thesis by (blast intro: cache_step.enter)
  next
    case (Waiting p)
    with inv i have "p < length (sy_threads s) \<and> (pc_at s p = Leading \<or> sy_done s p \<noteq> None)"
      using pending_ok_waiter unfolding pending_inv_def by blast
    then show ?thesis
      using lead cache_step.woken [OF i Waiting] by blast
  next
    case Leading
    with i show ?thesis by (rule lead)
  next
    case (Finished v)
    then show ?thesis using unfinished [of v] by contradiction
  qed
qed

section \<open>The cache as a resolver\<close>

text \<open>The values a call may return, among any other calls with as many record types.\<close>

definition cache_returns :: "iter_order \<Rightarrow> resolve_rel \<Rightarrow> cache \<Rightarrow> resolve_rel" where
  "cache_returns iter inner c host qTypes v \<longleftrightarrow>
     (\<exists>t calls s i. (\<forall>hq \<in> set calls. length (snd hq) = length qTypes) \<and>
        (cache_any iter inner)\<^sup>*\<^sup>* (cache_init c t calls) s \<and>
        i < length calls \<and> calls ! i = (host, qTypes) \<and> pc_at s i = Finished v)"

text \<open>A call on an empty cache returns what the inner resolver gives.\<close>

lemma cache_steps_any: "(cache_step iter inner)\<^sup>*\<^sup>* s t \<Longrightarrow> (cache_any iter inner)\<^sup>*\<^sup>* s t"
  by (erule rtranclp_mono [THEN predicate2D, rotated]) (auto simp: cache_any_def)

lemma cache_returns_fresh:
  assumes "inner host qTypes v"
  shows "cache_returns iter inner (NewCache pos neg mx) host qTypes v"
proof -
  let ?s0 = "cache_init (NewCache pos neg mx) 0 [(host, qTypes)]"
  let ?s1 = "set_pc 0 (Timed 0) ?s0"
  let ?c = "(NewCache pos neg mx)\<lparr>c_pending := [cacheKey host qTypes \<mapsto> 0]\<rparr>"
  let ?s2 = "set_pc 0 Leading (?s1\<lparr>sy_cache := ?c\<rparr>)"
  let ?s3 = "set_pc 0 (Finished v) (?s2\<lparr>sy_cache := cache_complete iter (key_at ?s2 0) v 0 0 (sy_cache ?s2),
    sy_done := (sy_done ?s2)(0 \<mapsto> v), sy_at := (sy_at ?s2)(0 \<mapsto> 0), sy_clock := 0\<rparr>)"
  note simps = cache_init_def NewCache_def set_pc_def cache_enter_def th_key_def
  have "cache_step iter inner ?s0 ?s1"
    using cache_step.now [of 0 ?s0] by (simp add: simps)
  moreover have "cache_step iter inner ?s1 ?s2"
    by (rule cache_step.enter [of 0 ?s1 0]) (simp_all add: simps)
  moreover have "cache_step iter inner ?s2 ?s3"
    by (rule cache_step.complete) (use assms in \<open>simp_all add: simps\<close>)
  ultimately have "(cache_step iter inner)\<^sup>*\<^sup>* ?s0 ?s3"
    by (meson converse_rtranclp_into_rtranclp rtranclp.rtrancl_refl)
  then have "(cache_any iter inner)\<^sup>*\<^sup>* ?s0 ?s3" by (rule cache_steps_any)
  moreover have "pc_at ?s3 0 = Finished v" by (simp add: simps)
  ultimately show ?thesis
    unfolding cache_returns_def by (intro exI [of _ 0] exI [of _ "[(host, qTypes)]"] exI [of _ ?s3]) simp
qed

lemma cache_inv_finished:
  assumes inv: "cache_inv inner c0 calls s" and i: "i < length calls" and fin: "pc_at s i = Finished v"
    and len: "\<forall>hq \<in> set calls. length (snd hq) = length (snd (calls ! i))"
  shows "(\<exists>w. inner (fst (calls ! i)) (snd (calls ! i)) w \<and> (v = w \<or> v = cached_result (fst w) (snd w))) \<or>
    (\<exists>e. v = ([], Some e) \<and> th_ctx (sy_threads s ! i) = Some e)"
proof -
  from inv have calls: "calls_of s = calls" and "result_inv inner s" by (simp_all add: cache_inv_def)
  have lt: "i < length (sy_threads s)" using calls i by (auto simp: calls_of_def)
  have key: "key_at s i = cacheKey (fst (calls ! i)) (snd (calls ! i))"
    using lt by (simp add: th_key_def calls_of_def flip: calls)
  have "inner (fst (calls ! i)) (snd (calls ! i)) w" if "from_inner inner calls (key_at s i) w" for w
    using that len unfolding from_inner_def key by (fastforce simp: cacheKey_eq_iff)
  with result_inv_finished [OF \<open>result_inv inner s\<close> lt fin] show ?thesis
    unfolding result_ok_def calls by blast
qed

locale cached_resolver = resolver_interface inner genuine + map_iteration iter
  for inner genuine iter
begin

lemma cache_returns_cases:
  assumes "cache_returns iter inner (NewCache pos neg mx) host qTypes v"
  shows "(\<exists>w. inner host qTypes w \<and> (v = w \<or> v = cached_result (fst w) (snd w))) \<or> (\<exists>e. v = ([], Some e))"
proof -
  from assms obtain t calls s i where
    len: "\<forall>hq \<in> set calls. length (snd hq) = length qTypes" and i: "i < length calls" "calls ! i = (host, qTypes)"
    and run: "(cache_any iter inner)\<^sup>*\<^sup>* (cache_init (NewCache pos neg mx) t calls) s" and fin: "pc_at s i = Finished v"
    by (auto simp: cache_returns_def)
  from cached.run_invar [OF run cache_inv_init] have "cache_inv inner (NewCache pos neg mx) calls s" .
  from cache_inv_finished [OF this i(1) fin] len i(2) show ?thesis by auto
qed

end

sublocale cached_resolver \<subseteq> caching: resolver_interface "cache_returns iter inner (NewCache pos neg mx)" genuine for pos neg mx
proof
  fix host qTypes addrs err a
  assume ret: "cache_returns iter inner (NewCache pos neg mx) host qTypes (addrs, err)" and a: "a \<in> set addrs"
  from cache_returns_cases [OF ret] a obtain err' where "inner host qTypes (addrs, err')"
    by (auto simp: cached_result_def split: if_splits)
  then show "genuine host qTypes a" using a by (rule resolve_genuine)
next
  fix host qTypes addrs e
  assume "cache_returns iter inner (NewCache pos neg mx) host qTypes (addrs, Some e)"
  from cache_returns_cases [OF this] show "addrs = []"
    using resolve_no_both by (auto simp: cached_result_def split: if_splits)
qed

context cached_resolver
begin

lemma cache_interface: "resolver_interface (cache_returns iter inner (NewCache pos neg mx)) genuine"
  by (rule caching.resolver_interface_axioms)

end

text \<open>Go's order of iteration: by a priority of the keys that may be another one at each loop.  Every
  permutation of entries with different keys is of this form.\<close>

definition iter_by :: "((string \<times> cacheEntry) list \<Rightarrow> string \<Rightarrow> nat) \<Rightarrow> iter_order" where
  "iter_by prio xs = sort_key (\<lambda>ke. prio xs (fst ke)) xs"

interpretation go_map: map_iteration "iter_by prio" for prio
  by unfold_locales (simp add: iter_by_def)

section \<open>Properties\<close>

definition demo_inner :: resolve_rel where
  "demo_inner h qs v \<longleftrightarrow> v = ([\<lparr>IP = [9, 9, 9, 9], Zone = []\<rparr>], None)"

definition demo_calls :: "(string \<times> uint16 list) list" where
  "demo_calls = [(''a.tr'', [TypeA]), (''a.tr'', [TypeA])]"

definition demo_cache :: cache where
  "demo_cache = NewCache 300 10 1"

text \<open>Two calls for one host: the first leads, the second waits; then the first stores its answer
  and the second is woken.\<close>

definition demo_thread :: "pc \<Rightarrow> cthread" where
  "demo_thread p = \<lparr>th_host = ''a.tr'', th_qTypes = [TypeA], th_ctx = None, th_pc = p\<rparr>"

definition demo_key :: string where "demo_key = cacheKey ''a.tr'' [TypeA]"

definition demo_answer :: resolve_result where "demo_answer = ([\<lparr>IP = [9, 9, 9, 9], Zone = []\<rparr>], None)"

definition demo_waiting :: cache_sys where
  "demo_waiting = \<lparr>sy_cache = demo_cache\<lparr>c_pending := [demo_key \<mapsto> 0]\<rparr>, sy_done = Map.empty, sy_at = Map.empty,
     sy_threads = [demo_thread Leading, demo_thread (Waiting 0)], sy_clock = 0\<rparr>"

definition demo_stored :: cache_sys where
  "demo_stored = \<lparr>sy_cache = demo_cache\<lparr>c_entries := [(demo_key, \<lparr>ce_addrs = fst demo_answer, ce_err = None, ce_expires = 300\<rparr>)]\<rparr>,
     sy_done = [0 \<mapsto> demo_answer], sy_at = [0 \<mapsto> 0],
     sy_threads = [demo_thread (Finished demo_answer), demo_thread (Finished demo_answer)], sy_clock = 0\<rparr>"

lemmas demo_simps = demo_waiting_def demo_stored_def demo_thread_def demo_key_def demo_cache_def demo_calls_def
  NewCache_def cache_init_def set_pc_def cache_enter_def th_key_def demo_answer_def demo_inner_def

lemma demo_cache_waits: "(cache_step rev demo_inner)\<^sup>*\<^sup>* (cache_init demo_cache 0 demo_calls) demo_waiting"
proof -
  let ?s0 = "cache_init demo_cache 0 demo_calls"
  let ?s1 = "set_pc 0 (Timed 0) ?s0"
  let ?s2 = "set_pc 1 (Timed 0) ?s1"
  let ?c = "demo_cache\<lparr>c_pending := [demo_key \<mapsto> 0]\<rparr>"
  let ?s3 = "set_pc 0 Leading (?s2\<lparr>sy_cache := ?c\<rparr>)"
  have "cache_step rev demo_inner ?s0 ?s1" and "cache_step rev demo_inner ?s1 ?s2"
    using cache_step.now [of 0 ?s0] cache_step.now [of 1 ?s1] by (simp_all add: demo_simps)
  moreover have "cache_step rev demo_inner ?s2 ?s3"
    by (rule cache_step.enter [of 0 ?s2 0]) (simp_all add: demo_simps)
  moreover have "cache_step rev demo_inner ?s3 (set_pc 1 (Waiting 0) (?s3\<lparr>sy_cache := ?c\<rparr>))"
    by (rule cache_step.enter [of 1 ?s3 0]) (simp_all add: demo_simps)
  moreover have "set_pc 1 (Waiting 0) (?s3\<lparr>sy_cache := ?c\<rparr>) = demo_waiting" by (simp add: demo_simps)
  ultimately show ?thesis
    by (metis (no_types, lifting) converse_rtranclp_into_rtranclp rtranclp.rtrancl_refl)
qed

lemma demo_cache_stores: "(cache_step rev demo_inner)\<^sup>*\<^sup>* demo_waiting demo_stored"
proof -
  let ?s1 = "set_pc 0 (Finished demo_answer)
    (demo_waiting\<lparr>sy_cache := cache_complete rev (key_at demo_waiting 0) demo_answer 0 0 (sy_cache demo_waiting),
       sy_done := (sy_done demo_waiting)(0 \<mapsto> demo_answer), sy_at := (sy_at demo_waiting)(0 \<mapsto> 0), sy_clock := 0\<rparr>)"
  let ?s2 = "set_pc 1 (Finished (cached_result (fst demo_answer) (snd demo_answer))) ?s1"
  have "cache_step rev demo_inner demo_waiting ?s1"
    by (rule cache_step.complete) (simp_all add: demo_simps)
  moreover have "cache_step rev demo_inner ?s1 ?s2"
    by (rule cache_step.woken [of 1 ?s1 0 demo_answer]) (simp_all add: demo_simps)
  moreover have "?s2 = demo_stored"
    by (simp add: demo_simps cache_complete_def entry_ttl_def evictLocked_def cached_result_def)
  ultimately show ?thesis by (metis (no_types, lifting) converse_rtranclp_into_rtranclp rtranclp.rtrancl_refl)
qed

lemma demo_runs:
  "(cache_any rev demo_inner)\<^sup>*\<^sup>* (cache_init (NewCache 300 10 1) 0 demo_calls) demo_waiting"
  "(cache_any rev demo_inner)\<^sup>*\<^sup>* (cache_init (NewCache 300 10 1) 0 demo_calls) demo_stored"
  using cache_steps_any [OF demo_cache_waits] cache_steps_any [OF rtranclp_trans [OF demo_cache_waits demo_cache_stores]]
  by (simp_all add: demo_cache_def)

lemma cache_run_inv:
  assumes "\<And>xs. mset (iter xs) = mset xs"
    and "(cache_any iter inner)\<^sup>*\<^sup>* (cache_init (NewCache pos neg mx) t0 calls) s"
  shows "cache_inv inner (NewCache pos neg mx) calls s"
proof -
  have M: "map_iteration iter" by (rule map_iteration.intro) (rule assms(1))
  have "invariant_system (cache_any iter inner) (cache_inv inner (NewCache pos neg mx) calls)"
    by (rule invariant_system.intro) (rule map_iteration.cache_any_inv [OF M])
  from invariant_system.run_invar [OF this assms(2) cache_inv_init] show ?thesis .
qed

text \<open>C9: at any moment at most one call for a key runs the upstream lookup, and a call that waits
  waits for a lookup of its own key that is still running or already finished: concurrent requests
  for one host cost one lookup, and no wake-up is lost.\<close>

theorem cache_single_flight:
  assumes "\<And>xs. mset (iter xs) = mset xs"
    and "(cache_any iter inner)\<^sup>*\<^sup>* (cache_init (NewCache pos neg mx) t0 calls) s"
    and "i < length (sy_threads s)" and "j < length (sy_threads s)"
  shows "(pc_at s i = Leading \<and> pc_at s j = Leading \<and> key_at s i = key_at s j \<longrightarrow> i = j) \<and>
    (pc_at s i = Waiting p \<longrightarrow>
       p < length (sy_threads s) \<and> key_at s p = key_at s i \<and> (pc_at s p = Leading \<or> sy_done s p \<noteq> None))"
proof -
  have "pending_inv s" using cache_run_inv [OF assms(1,2)] by (simp add: cache_inv_def)
  then have ok: "pending_ok (length (sy_threads s)) (pc_at s) (key_at s) (c_pending (sy_cache s)) (sy_done s)"
    by (simp add: pending_inv_def)
  have "i = j" if "pc_at s i = Leading" "pc_at s j = Leading" "key_at s i = key_at s j"
  proof -
    have "c_pending (sy_cache s) (key_at s i) = Some i" using that assms(3) by (simp only: pending_ok_leader [OF ok])
    moreover have "c_pending (sy_cache s) (key_at s i) = Some j"
      unfolding that(3) using that(2) assms(4) by (simp only: pending_ok_leader [OF ok])
    ultimately show ?thesis by simp
  qed
  with pending_ok_waiter [OF ok assms(3)] show ?thesis by blast
qed

theorem cache_single_flight_witness:
  "pc_at demo_waiting 1 = Waiting 0 \<and> key_at demo_waiting 0 = key_at demo_waiting 1 \<and> pc_at demo_waiting 0 = Leading"
  using cache_single_flight [of rev demo_inner 300 10 1 0 demo_calls demo_waiting 1 1 0] demo_runs(1)
  by (simp add: demo_simps)

text \<open>C10: the cache never holds more entries than its limit, and never serves a stale answer.  A hit
  returns what the lookup of some call \<open>p\<close> with the same key gave (\<open>nil\<close> with its error, if it had one), and the
  time of the hit is less than one lifetime after the moment at which \<open>p\<close> stored that answer: the
  positive lifetime for addresses, the negative one for errors and empty answers.  Hits in between
  do not prolong it.\<close>

theorem cache_bounded_and_fresh:
  assumes "\<And>xs. mset (iter xs) = mset xs"
    and "(cache_any iter inner)\<^sup>*\<^sup>* (cache_init (NewCache pos neg mx) t0 calls) s"
    and "cache_enter i key now (sy_cache s) = (c, Finished v)"
  shows "length (c_entries (sy_cache s)) \<le> (if mx \<le> 0 then 1024 else nat mx) \<and>
    (\<exists>p addrs err stored. sy_done s p = Some (addrs, err) \<and> sy_at s p = Some stored \<and> key_at s p = key \<and>
       from_inner inner calls key (addrs, err) \<and> v = cached_result addrs err \<and>
       stored \<le> sy_clock s \<and> now < stored + (if err \<noteq> None \<or> addrs = [] then neg else pos))"
proof -
  have inv: "cache_inv inner (NewCache pos neg mx) calls s" by (rule cache_run_inv [OF assms(1,2)])
  then have store: "store_inv inner s" and calls: "calls_of s = calls"
    and ttl: "\<And>a e. entry_ttl (sy_cache s) a e = (if e \<noteq> None \<or> a = [] then neg else pos)"
    and "length (c_entries (sy_cache s)) \<le> (if mx \<le> 0 then 1024 else nat mx)"
    by (auto simp: cache_inv_def NewCache_def entry_ttl_def store_inv_def)
  moreover from cache_enter_cases [OF assms(3)] obtain e where e: "map_of (c_entries (sy_cache s)) key = Some e"
    "now < ce_expires e" "v = cached_result (ce_addrs e) (ce_err e)" by auto
  moreover from store_inv_hit [OF store e(1)] obtain p stored where "sy_done s p = Some (ce_addrs e, ce_err e)"
    and "sy_at s p = Some stored" "key_at s p = key" "stored \<le> sy_clock s" "from_inner inner (calls_of s) key (ce_addrs e, ce_err e)"
    and "ce_expires e = stored + entry_ttl (sy_cache s) (ce_addrs e) (ce_err e)" unfolding stored_by_def by blast
  ultimately show ?thesis
    by (intro conjI exI [of _ p] exI [of _ "ce_addrs e"] exI [of _ "ce_err e"] exI [of _ stored]) simp_all
qed

theorem cache_bounded_and_fresh_witness:
  "cache_enter 7 demo_key 299 (sy_cache demo_stored) = (sy_cache demo_stored, Finished demo_answer) \<and>
   length (c_entries (sy_cache demo_stored)) \<le> 1"
proof -
  have "cache_enter 7 demo_key 299 (sy_cache demo_stored) = (sy_cache demo_stored, Finished demo_answer)"
    by (simp add: demo_simps cached_result_def)
  with cache_bounded_and_fresh [OF _ demo_runs(2), of 7 demo_key 299] show ?thesis by simp
qed

text \<open>C11: what a call returns is an answer of the upstream for exactly its host and record types
  (with \<open>nil\<close> addresses if that answer has an error), or the error of its own context, which has then
  been cancelled or has passed its deadline; neither answers for other hosts nor the contexts of other
  calls leak into it, as long as all calls have the same number of record types, which
  is how \<open>Dns\<close> uses the cache.\<close>

theorem cache_answers_own_query:
  assumes "\<And>xs. mset (iter xs) = mset xs"
    and "(cache_any iter inner)\<^sup>*\<^sup>* (cache_init (NewCache pos neg mx) t0 calls) s"
    and "\<forall>hq \<in> set calls. length (snd hq) = n" and "i < length calls" and "pc_at s i = Finished v"
  shows "(\<exists>w. inner (fst (calls ! i)) (snd (calls ! i)) w \<and> (v = w \<or> v = cached_result (fst w) (snd w))) \<or>
    (\<exists>e. v = ([], Some e) \<and> th_ctx (sy_threads s ! i) = Some e \<and> e \<in> {Canceled, DeadlineExceeded})"
proof -
  have inv: "cache_inv inner (NewCache pos neg mx) calls s" by (rule cache_run_inv [OF assms(1,2)])
  then have "i < length (sy_threads s)" using assms(4) by (auto simp: cache_inv_def calls_of_def)
  with inv have "th_ctx (sy_threads s ! i) = Some e \<Longrightarrow> e \<in> {Canceled, DeadlineExceeded}" for e by (simp add: cache_inv_def)
  with cache_inv_finished [OF inv assms(4,5)] assms(3,4) show ?thesis by fastforce
qed

theorem cache_answers_own_query_witness:
  "pc_at demo_stored 1 = Finished demo_answer \<and>
   (\<exists>w. demo_inner ''a.tr'' [TypeA] w \<and> (demo_answer = w \<or> demo_answer = cached_result (fst w) (snd w)))"
  using cache_answers_own_query [OF _ demo_runs(2), of 1 1 demo_answer] by (simp add: demo_simps)

text \<open>C12: every call comes to an end.  With \<open>n\<close> calls a run has at most \<open>3 n\<close> steps besides the passing
  of time and ended contexts, and as long as some call has not returned, some call can go on,
  provided the upstream lookup returns.\<close>

theorem cache_calls_finish:
  assumes "\<And>xs. mset (iter xs) = mset xs" and "\<And>h qs. \<exists>v. inner h qs v"
    and "(cache_any iter inner)\<^sup>*\<^sup>* (cache_init (NewCache pos neg mx) t0 calls) s"
  shows "(\<forall>m t. (cache_step iter inner ^^ m) s t \<longrightarrow> m \<le> 3 * length calls) \<and>
    ((\<forall>t. \<not> cache_step iter inner s t) \<longrightarrow> (\<forall>i < length calls. \<exists>v. pc_at s i = Finished v))"
proof -
  have inv: "cache_inv inner (NewCache pos neg mx) calls s" by (rule cache_run_inv [OF assms(1,3)])
  then have "calls_of s = calls" and pend: "pending_inv s" by (simp_all add: cache_inv_def)
  then have len: "length (sy_threads s) = length calls" by (auto simp: calls_of_def)
  have "cache_msr s \<le> 3 * length calls" using cache_msr_le [of s] len by simp
  then have "m \<le> 3 * length calls" if "(cache_step iter inner ^^ m) s t" for m t
    using cache_prog.run_length [OF that] by simp
  moreover have "\<exists>v. pc_at s i = Finished v" if "\<forall>t. \<not> cache_step iter inner s t" "i < length calls" for i
    using that cache_progress [OF pend, of i inner iter] assms(2) len by metis
  ultimately show ?thesis by blast
qed

theorem cache_calls_finish_witness:
  "\<not> (\<exists>t. (cache_step rev demo_inner ^^ 7) demo_waiting t)"
proof -
  have "\<forall>m t. (cache_step rev demo_inner ^^ m) demo_waiting t \<longrightarrow> m \<le> 6"
    using cache_calls_finish [of rev demo_inner, OF _ _ demo_runs(1)] by (simp add: demo_calls_def demo_inner_def)
  then have "(cache_step rev demo_inner ^^ 7) demo_waiting t \<Longrightarrow> 7 \<le> (6 :: nat)" for t by blast
  then show ?thesis by auto
qed

text \<open>The key separates queries with the same number of record types.  It does not separate
  queries with different numbers: a host followed by the bytes of a record type and no type has
  the key of the shorter host with that type.\<close>

lemma cacheKey_separates:
  "(\<forall>h qs h' qs'. length qs = length qs' \<longrightarrow> (cacheKey h qs = cacheKey h' qs' \<longleftrightarrow> h = h' \<and> qs = qs')) \<and>
   (\<exists>h qs h' qs'. h \<noteq> h' \<and> cacheKey h qs = cacheKey h' qs')"
proof -
  have "cacheKey ''a'' [TypeA] = cacheKey (''a'' @ string_of_bytes (qtype_bytes TypeA)) []"
    by (simp add: cacheKey_def)
  moreover have "''a'' \<noteq> ''a'' @ string_of_bytes (qtype_bytes TypeA)" by (simp add: qtype_bytes_def)
  ultimately show ?thesis using cacheKey_eq_iff by blast
qed

end
