(* ===== verification/Config.thy ===== *)
theory Config
  imports Go_IO
begin

text \<open>
  Package \<open>util\<close>, files \<open>args.go\<close> and \<open>config.go\<close>: the command line, its flags and defaults, and the
  configuration made from it.  \<open>flag_parse\<close> is \<open>flag.Parse\<close> with its error handling
  \<open>ExitOnError\<close>; a pattern compiles to the function that matches it, and the compiler is a
  parameter.  The banner (\<open>PrintColoredBanner\<close>) only prints.
\<close>

section \<open>Arguments\<close>

record Args =
  a_Addr :: string
  a_Port :: uint16
  a_DnsAddr :: string
  a_DnsPort :: uint16
  a_DnsFallback :: "string list"
  a_DnsIPv4Only :: bool
  a_EnableDoh :: bool
  a_DohUrl :: string
  a_DohBootstrapIp :: string
  a_Debug :: bool
  a_Silent :: bool
  a_SystemProxy :: bool
  a_Timeout :: uint16
  a_AllowedPattern :: "string list"
  a_WindowSize :: uint16
  a_Version :: bool

definition StringArray_String :: "string list \<Rightarrow> string" where
  "StringArray_String arr = ''['' @ strings_Join arr '' '' @ '']''"

definition StringArray_Set :: "string list \<Rightarrow> string \<Rightarrow> string list" where
  "StringArray_Set arr value = arr @ [value]"

definition errParse :: go_error where "errParse = ErrString ''parse error''"
definition errRange :: go_error where "errRange = ErrString ''value out of range''"

definition numError :: "go_error \<Rightarrow> go_error" where
  "numError err = (if errors_Is err ErrSyntax then errParse else if errors_Is err ErrRange then errRange else err)"

text \<open>\<open>uintNValue.Set\<close> at \<open>uint16\<close>: the new value and the error.  The value is assigned also on an error.\<close>

definition uintNValue_Set :: "string \<Rightarrow> uint16 \<times> go_error option" where
  "uintNValue_Set s =
     (case strconv_ParseUint s 0 16 of (v, err) \<Rightarrow> (word_of_nat v, map_option numError err))"

text \<open>The other two methods; \<open>None\<close> is a nil pointer, as in the zero value that the flag package makes to compare with.\<close>

definition uintNValue_Get :: "uint16 option \<Rightarrow> uint16" where
  "uintNValue_Get u = (case u of None \<Rightarrow> 0 | Some v \<Rightarrow> v)"

definition uintNValue_String :: "uint16 option \<Rightarrow> string" where
  "uintNValue_String u = (case u of None \<Rightarrow> ''0'' | Some v \<Rightarrow> format_nat (unat v))"

text \<open>The flags with their default values; \<open>goos\<close> is the operating system the program was built for.\<close>

definition default_Args :: "string \<Rightarrow> Args" where
  "default_Args goos =
     \<lparr>a_Addr = ''127.0.0.1'', a_Port = 8080, a_DnsAddr = ''1.1.1.1'', a_DnsPort = 53, a_DnsFallback = [],
      a_DnsIPv4Only = False, a_EnableDoh = True, a_DohUrl = ''https://cloudflare-dns.com/dns-query'',
      a_DohBootstrapIp = ''1.1.1.1'', a_Debug = False, a_Silent = False, a_SystemProxy = (goos = ''darwin''),
      a_Timeout = 0, a_AllowedPattern = [], a_WindowSize = 5, a_Version = False\<rparr>"

section \<open>The flag package\<close>

text \<open>\<open>strconv.ParseBool\<close>.\<close>

definition ParseBool :: "string \<Rightarrow> bool result" where
  "ParseBool s =
     (if s \<in> set [''1'', ''t'', ''T'', ''true'', ''TRUE'', ''True''] then Inr True
      else if s \<in> set [''0'', ''f'', ''F'', ''false'', ''FALSE'', ''False''] then Inr False
      else Inl ErrSyntax)"

definition bool_flags :: "string list" where
  "bool_flags = [''enable-doh'', ''debug'', ''silent'', ''system-proxy'', ''v'', ''dns-ipv4-only'']"

definition set_bool :: "string \<Rightarrow> bool \<Rightarrow> Args \<Rightarrow> Args" where
  "set_bool name b a =
     (if name = ''enable-doh'' then a\<lparr>a_EnableDoh := b\<rparr>
      else if name = ''debug'' then a\<lparr>a_Debug := b\<rparr>
      else if name = ''silent'' then a\<lparr>a_Silent := b\<rparr>
      else if name = ''system-proxy'' then a\<lparr>a_SystemProxy := b\<rparr>
      else if name = ''v'' then a\<lparr>a_Version := b\<rparr>
      else a\<lparr>a_DnsIPv4Only := b\<rparr>)"

definition value_flags :: "string list" where
  "value_flags = [''addr'', ''port'', ''dns-addr'', ''dns-port'', ''dns-fallback'', ''doh-url'',
     ''doh-bootstrap-ip'', ''timeout'', ''window-size'', ''pattern'']"

definition set_uint :: "(uint16 \<Rightarrow> Args \<Rightarrow> Args) \<Rightarrow> string \<Rightarrow> Args \<Rightarrow> Args result" where
  "set_uint upd value a =
     (case uintNValue_Set value of (v, None) \<Rightarrow> Inr (upd v a) | (v, Some err) \<Rightarrow> Inl err)"

definition set_value :: "string \<Rightarrow> string \<Rightarrow> Args \<Rightarrow> Args result" where
  "set_value name value a =
     (if name = ''addr'' then Inr (a\<lparr>a_Addr := value\<rparr>)
      else if name = ''port'' then set_uint (\<lambda>v a. a\<lparr>a_Port := v\<rparr>) value a
      else if name = ''dns-addr'' then Inr (a\<lparr>a_DnsAddr := value\<rparr>)
      else if name = ''dns-port'' then set_uint (\<lambda>v a. a\<lparr>a_DnsPort := v\<rparr>) value a
      else if name = ''dns-fallback'' then Inr (a\<lparr>a_DnsFallback := StringArray_Set (a_DnsFallback a) value\<rparr>)
      else if name = ''doh-url'' then Inr (a\<lparr>a_DohUrl := value\<rparr>)
      else if name = ''doh-bootstrap-ip'' then Inr (a\<lparr>a_DohBootstrapIp := value\<rparr>)
      else if name = ''timeout'' then set_uint (\<lambda>v a. a\<lparr>a_Timeout := v\<rparr>) value a
      else if name = ''window-size'' then set_uint (\<lambda>v a. a\<lparr>a_WindowSize := v\<rparr>) value a
      else Inr (a\<lparr>a_AllowedPattern := StringArray_Set (a_AllowedPattern a) value\<rparr>))"

text \<open>The name of a flag and its value, split at the first \<open>=\<close> that is not the first character.\<close>

definition split_flag :: "string \<Rightarrow> string \<times> string option" where
  "split_flag s =
     (case index_byte (CHR ''='') (tl s) of
        None \<Rightarrow> (s, None)
      | Some i \<Rightarrow> (take (Suc i) s, Some (drop (i + 2) s)))"

text \<open>\<open>flag.Parse\<close> on the words of the command line: the arguments, or the status the program exits with
  (0 after \<open>-h\<close> and \<open>-help\<close>, 2 after an error).\<close>

definition flag_word :: "string \<Rightarrow> string option" where
  "flag_word s =
     (if length s < 2 \<or> hd s \<noteq> CHR ''-'' then None
      else Some (if s ! 1 = CHR ''-'' then drop 2 s else drop 1 s))"

fun flag_parse :: "string list \<Rightarrow> Args \<Rightarrow> nat + Args" where
  "flag_parse [] a = Inr a"
| "flag_parse (s # rest) a =
     (case flag_word s of
        None \<Rightarrow> Inr a
      | Some word \<Rightarrow>
          if s = ''--'' then Inr a
          else if word = [] \<or> hd word = CHR ''-'' \<or> hd word = CHR ''='' then Inl 2
          else (case split_flag word of (name, value) \<Rightarrow>
            if name \<in> set bool_flags then
              (case ParseBool (case value of None \<Rightarrow> ''true'' | Some v \<Rightarrow> v) of
                 Inl err \<Rightarrow> Inl 2
               | Inr b \<Rightarrow> flag_parse rest (set_bool name b a))
            else if name \<in> set value_flags then
              (case value of
                 Some v \<Rightarrow> (case set_value name v a of Inl err \<Rightarrow> Inl 2 | Inr a' \<Rightarrow> flag_parse rest a')
               | None \<Rightarrow>
                   (case rest of
                      [] \<Rightarrow> Inl 2
                    | v # rest' \<Rightarrow> (case set_value name v a of Inl err \<Rightarrow> Inl 2 | Inr a' \<Rightarrow> flag_parse rest' a')))
            else if name = ''help'' \<or> name = ''h'' then Inl 0
            else Inl 2))"

definition ParseArgs :: "string \<Rightarrow> string list \<Rightarrow> nat + Args" where
  "ParseArgs goos argv =
     (case flag_parse argv (default_Args goos) of
        Inl status \<Rightarrow> Inl status
      | Inr args \<Rightarrow> Inr (if a_DnsFallback args = [] then args\<lparr>a_DnsFallback := [''8.8.8.8'', ''9.9.9.9'']\<rparr> else args))"

section \<open>Configuration\<close>

type_synonym regexp = "bytes \<Rightarrow> bool"

record Config =
  Addr :: string
  Port :: int
  DnsAddr :: string
  DnsPort :: int
  DnsFallback :: "string list"
  DnsIPv4Only :: bool
  EnableDoh :: bool
  DohUrl :: string
  DohBootstrapIp :: string
  Debug :: bool
  Silent :: bool
  SystemProxy :: bool
  Timeout :: int
  WindowSize :: int
  AllowedPatterns :: "regexp list option"

text \<open>A nil slice of patterns is \<open>None\<close>.  The error message shows the pattern without the quotes and escapes of \<open>%q\<close>.\<close>

fun compile_each :: "(string \<Rightarrow> regexp result) \<Rightarrow> string list \<Rightarrow> regexp list result" where
  "compile_each compile [] = Inr []"
| "compile_each compile (p # ps) =
     (case compile p of
        Inl err \<Rightarrow> Inl (ErrWrap (''invalid -pattern '' @ p) err)
      | Inr re \<Rightarrow> (case compile_each compile ps of Inl err \<Rightarrow> Inl err | Inr out \<Rightarrow> Inr (re # out)))"

definition compileAllowedPatterns :: "(string \<Rightarrow> regexp result) \<Rightarrow> string list \<Rightarrow> regexp list option result" where
  "compileAllowedPatterns compile patterns =
     (if patterns = [] then Inr None
      else case compile_each compile patterns of Inl err \<Rightarrow> Inl err | Inr out \<Rightarrow> Inr (Some out))"

definition zero_Config :: Config where
  "zero_Config =
     \<lparr>Addr = [], Port = 0, DnsAddr = [], DnsPort = 0, DnsFallback = [], DnsIPv4Only = False, EnableDoh = False,
      DohUrl = [], DohBootstrapIp = [], Debug = False, Silent = False, SystemProxy = False, Timeout = 0,
      WindowSize = 0, AllowedPatterns = None\<rparr>"

text \<open>\<open>GetConfig\<close>: the global, made on the first call.\<close>

definition GetConfig :: "Config option \<Rightarrow> Config" where
  "GetConfig config = (case config of None \<Rightarrow> zero_Config | Some c \<Rightarrow> c)"

text \<open>\<open>Load\<close> returns the configuration it leaves behind with its error: all fields but the patterns are
  set before the patterns are compiled.\<close>

definition Config_Load :: "(string \<Rightarrow> regexp result) \<Rightarrow> Args \<Rightarrow> Config \<Rightarrow> Config \<times> go_error option" where
  "Config_Load compile args c =
     (let c1 = c\<lparr>Addr := a_Addr args, Port := uint (a_Port args), DnsAddr := a_DnsAddr args,
                 DnsPort := uint (a_DnsPort args), DnsFallback := a_DnsFallback args,
                 DnsIPv4Only := a_DnsIPv4Only args, Debug := a_Debug args, EnableDoh := a_EnableDoh args,
                 DohUrl := a_DohUrl args, DohBootstrapIp := a_DohBootstrapIp args, Silent := a_Silent args,
                 SystemProxy := a_SystemProxy args, Timeout := uint (a_Timeout args),
                 WindowSize := uint (a_WindowSize args)\<rparr>
      in case compileAllowedPatterns compile (a_AllowedPattern args) of
           Inl err \<Rightarrow> (c1, Some err)
         | Inr patterns \<Rightarrow> (c1\<lparr>AllowedPatterns := patterns\<rparr>, None))"

section \<open>Lemmas\<close>

lemma uintNValue_Set_value:
  assumes "uintNValue_Set s = (v, None)"
  shows "strconv_ParseUint s 0 16 = (unat v, None)"
proof -
  obtain n e where p: "strconv_ParseUint s 0 16 = (n, e)" by fastforce
  with assms have "e = None" "v = word_of_nat n" by (auto simp: uintNValue_Set_def)
  moreover have "n < 2 ^ 16" using ParseUint_bound [of 16 s 0] p by simp
  ultimately show ?thesis using p by (simp add: unat_of_nat)
qed

lemma format_nat_hd: "0 < n \<Longrightarrow> hd (format_nat n) \<noteq> CHR ''0''"
proof (induction n rule: format_nat.induct)
  case (1 n)
  show ?case
  proof (cases "n < 10")
    case True
    with 1 have "of_char (hd (format_nat n)) \<noteq> (48 :: nat)"
      by (simp add: format_nat.simps [of n] of_char_digit_char)
    then show ?thesis by (auto simp: of_char_def)
  next
    case False
    with 1 show ?thesis by (simp add: format_nat.simps [of n] format_nat_nonempty)
  qed
qed

lemma digit_not_underscore: "c \<in> set (format_nat n) \<Longrightarrow> c \<noteq> CHR ''_''"
  using format_nat_chars [of c n] digit_char_neq [of _ "CHR ''_''"] by (auto simp: of_char_def)

lemma parse_uint_loop_no_underscore:
  "CHR ''_'' \<notin> set cs \<Longrightarrow> parse_uint_loop z b m n cs = parse_uint_loop False b m n cs"
  by (induction z b m n cs rule: parse_uint_loop.induct) (auto split: option.splits)

lemma ParseUint_decimal:
  assumes "0 < n"
  shows "strconv_ParseUint (format_nat n) 0 16 = parse_uint_loop False 10 65535 0 (format_nat n)"
proof -
  have "detect_base (format_nat n) = (10, format_nat n)"
    using format_nat_hd [OF assms] format_nat_nonempty [of n] by (cases "format_nat n") (auto simp: detect_base_def)
  moreover have u: "CHR ''_'' \<notin> set (format_nat n)" using digit_not_underscore by blast
  ultimately show ?thesis
    by (simp add: strconv_ParseUint_def format_nat_nonempty parse_uint_loop_no_underscore [OF u, of True] split: prod.split option.split)
qed

lemma ParseUint_format_nat:
  assumes "n < 2 ^ 16"
  shows "strconv_ParseUint (format_nat n) 0 16 = (n, None)"
proof (cases "n = 0")
  case True
  then show ?thesis
    by (simp add: strconv_ParseUint_def format_nat.simps [of 0] detect_base_def digit_char_def)
       (simp add: char_of_def bit_iff_odd)
next
  case False
  with assms show ?thesis by (simp add: ParseUint_decimal parse_format_nat)
qed

lemma set_uint_big: "65535 < n \<Longrightarrow> set_uint upd (format_nat n) a = Inl errRange"
  by (simp add: set_uint_def uintNValue_Set_def ParseUint_decimal parse_format_nat_big numError_def)

text \<open>What the flag package prints for a value is what it would be set to again: the two methods agree, and the zero value
  prints as 0.\<close>

lemma uintNValue_String_Get: "uintNValue_String u = uintNValue_String (Some (uintNValue_Get u))"
  by (cases u) (simp_all add: uintNValue_String_def uintNValue_Get_def format_nat.simps digit_char_def, simp add: char_of_def bit_iff_odd)

lemma uintNValue_roundtrip: "uintNValue_Set (uintNValue_String (Some v)) = (v, None)"
proof -
  have "unat v < 2 ^ 16" using unsigned_less [of v, where ?'a = nat] by simp
  then show ?thesis
    by (simp add: uintNValue_Set_def uintNValue_String_def ParseUint_format_nat)
qed

lemma split_flag_eq:
  assumes "name \<noteq> []" and "CHR ''='' \<notin> set name"
  shows "split_flag (name @ CHR ''='' # v) = (name, Some v)"
proof (cases name)
  case (Cons c cs)
  with assms have "index_byte (CHR ''='') (cs @ CHR ''='' # v) = Some (length cs)"
    by (intro index_byte_append) simp
  with Cons show ?thesis by (simp add: split_flag_def)
qed (use assms in simp)

text \<open>One flag of the form \<open>-name=value\<close>.\<close>

lemma flag_parse_eq:
  assumes "name \<in> set (bool_flags @ value_flags)"
  shows "flag_parse ((''-'' @ name @ ''='' @ v) # rest) a =
    (if name \<in> set bool_flags
     then (case ParseBool v of Inl err \<Rightarrow> Inl 2 | Inr b \<Rightarrow> flag_parse rest (set_bool name b a))
     else (case set_value name v a of Inl err \<Rightarrow> Inl 2 | Inr a' \<Rightarrow> flag_parse rest a'))"
proof -
  from assms have n: "name \<noteq> []" "hd name \<noteq> CHR ''-''" "hd name \<noteq> CHR ''=''" "CHR ''='' \<notin> set name"
    by (auto simp: bool_flags_def value_flags_def)
  have w: "flag_word (''-'' @ name @ ''='' @ v) = Some (name @ CHR ''='' # v)"
    using n by (cases name) (auto simp: flag_word_def)
  have "''-'' @ name @ ''='' @ v \<noteq> ''--''" using n by (cases name) auto
  with n w split_flag_eq [OF n(1,4), of v] assms show ?thesis
    by (auto split: sum.splits)
qed

declare flag_parse.simps(2) [simp del]

section \<open>Properties\<close>

definition flag_arg :: "string \<Rightarrow> string \<Rightarrow> string" where
  "flag_arg name v = ''-'' @ name @ ''='' @ v"

definition show_bool :: "bool \<Rightarrow> string" where
  "show_bool b = (if b then ''true'' else ''false'')"

text \<open>A command line that gives every flag.\<close>

definition render_args :: "Args \<Rightarrow> string list" where
  "render_args a =
     [flag_arg ''addr'' (a_Addr a), flag_arg ''port'' (uintNValue_String (Some (a_Port a))),
      flag_arg ''dns-addr'' (a_DnsAddr a), flag_arg ''dns-port'' (uintNValue_String (Some (a_DnsPort a))),
      flag_arg ''enable-doh'' (show_bool (a_EnableDoh a)), flag_arg ''doh-url'' (a_DohUrl a),
      flag_arg ''doh-bootstrap-ip'' (a_DohBootstrapIp a), flag_arg ''debug'' (show_bool (a_Debug a)),
      flag_arg ''silent'' (show_bool (a_Silent a)), flag_arg ''system-proxy'' (show_bool (a_SystemProxy a)),
      flag_arg ''timeout'' (uintNValue_String (Some (a_Timeout a))),
      flag_arg ''window-size'' (uintNValue_String (Some (a_WindowSize a))), flag_arg ''v'' (show_bool (a_Version a)),
      flag_arg ''dns-ipv4-only'' (show_bool (a_DnsIPv4Only a))] @
     map (flag_arg ''dns-fallback'') (a_DnsFallback a) @ map (flag_arg ''pattern'') (a_AllowedPattern a)"

lemma ParseBool_show [simp]: "ParseBool (show_bool b) = Inr b"
  by (simp add: ParseBool_def show_bool_def)

lemma set_uint_String [simp]: "set_uint upd (uintNValue_String (Some v)) a = Inr (upd v a)"
  by (simp add: set_uint_def uintNValue_roundtrip)

lemma flag_parse_bool:
  "name \<in> set bool_flags \<Longrightarrow> flag_parse (flag_arg name (show_bool b) # rest) a = flag_parse rest (set_bool name b a)"
  unfolding flag_arg_def by (subst flag_parse_eq) simp_all

lemma flag_parse_value:
  "name \<in> set value_flags \<Longrightarrow> name \<notin> set bool_flags \<Longrightarrow> set_value name v a = Inr a' \<Longrightarrow>
   flag_parse (flag_arg name v # rest) a = flag_parse rest a'"
  unfolding flag_arg_def by (subst flag_parse_eq) simp_all

lemma flag_parse_fallbacks:
  "flag_parse (map (flag_arg ''dns-fallback'') fs @ rest) a = flag_parse rest (a\<lparr>a_DnsFallback := a_DnsFallback a @ fs\<rparr>)"
  by (induction fs arbitrary: a)
     (simp_all add: flag_parse_value value_flags_def bool_flags_def set_value_def StringArray_Set_def)

lemma flag_parse_patterns:
  "flag_parse (map (flag_arg ''pattern'') ps) a = Inr (a\<lparr>a_AllowedPattern := a_AllowedPattern a @ ps\<rparr>)"
  by (induction ps arbitrary: a)
     (simp_all add: flag_parse_value value_flags_def bool_flags_def set_value_def StringArray_Set_def)

lemma ParseArgs_renders:
  "ParseArgs goos (render_args a) =
     Inr (if a_DnsFallback a = [] then a\<lparr>a_DnsFallback := [''8.8.8.8'', ''9.9.9.9'']\<rparr> else a)"
proof -
  have "flag_parse (render_args a) (default_Args goos) = Inr a"
    by (simp add: render_args_def flag_parse_bool flag_parse_value bool_flags_def value_flags_def set_bool_def
        set_value_def flag_parse_fallbacks flag_parse_patterns default_Args_def)
  then show ?thesis by (simp add: ParseArgs_def)
qed

text \<open>C33: every setting can be given on the command line and is read back as given: the arguments
  rendered with all flags parse to themselves, whatever the defaults of the platform; only an
  empty list of fallback servers is replaced by the default one.\<close>

theorem ParseArgs_render:
  "ParseArgs goos (render_args a) =
     Inr (if a_DnsFallback a = [] then a\<lparr>a_DnsFallback := [''8.8.8.8'', ''9.9.9.9'']\<rparr> else a)"
  by (rule ParseArgs_renders)

text \<open>C34: from the command line to the configuration.  A command line that gives every flag leads to a configuration
  with each setting in its own field and each number as it was written; only an empty list of
  fallback servers is replaced.  A number above 65535 for a port, the timeout or the window size ends the
  program with status 2: it does not wrap around.  Loading fails exactly when a pattern does not
  compile, with the error of the first such; then the patterns of the configuration are left as they were.
  Otherwise they are the compiled ones, in order, and absent when none was given.\<close>

theorem Config_from_command_line:
  assumes "ParseArgs goos (render_args a) = Inr args" and "Config_Load compile args c = (cfg, err)"
  shows "Addr cfg = a_Addr a \<and> Port cfg = uint (a_Port a) \<and> DnsAddr cfg = a_DnsAddr a \<and> DnsPort cfg = uint (a_DnsPort a) \<and>
    DnsFallback cfg = (if a_DnsFallback a = [] then [''8.8.8.8'', ''9.9.9.9''] else a_DnsFallback a) \<and>
    DnsIPv4Only cfg = a_DnsIPv4Only a \<and> EnableDoh cfg = a_EnableDoh a \<and> DohUrl cfg = a_DohUrl a \<and>
    DohBootstrapIp cfg = a_DohBootstrapIp a \<and> Debug cfg = a_Debug a \<and> Silent cfg = a_Silent a \<and>
    SystemProxy cfg = a_SystemProxy a \<and> Timeout cfg = uint (a_Timeout a) \<and> WindowSize cfg = uint (a_WindowSize a) \<and>
    (\<forall>name n rest. name \<in> {''port'', ''dns-port'', ''timeout'', ''window-size''} \<and> 65535 < n \<longrightarrow>
       ParseArgs goos (flag_arg name (format_nat n) # rest) = Inl 2) \<and>
    err = map_option (\<lambda>p. ErrWrap (''invalid -pattern '' @ p) (projl (compile p))) (find (\<lambda>p. isl (compile p)) (a_AllowedPattern a)) \<and>
    AllowedPatterns cfg =
      (if err \<noteq> None then AllowedPatterns c
       else if a_AllowedPattern a = [] then None else Some (map (\<lambda>p. projr (compile p)) (a_AllowedPattern a)))"
proof -
  have args: "args = (if a_DnsFallback a = [] then a\<lparr>a_DnsFallback := [''8.8.8.8'', ''9.9.9.9'']\<rparr> else a)"
    using assms(1) ParseArgs_renders [of goos a] by simp
  have big: "ParseArgs goos (flag_arg name (format_nat n) # rest) = Inl 2"
    if name: "name \<in> {''port'', ''dns-port'', ''timeout'', ''window-size''}" and n: "65535 < n" for name n rest
  proof -
    have "set_value name (format_nat n) (default_Args goos) = Inl errRange"
      using name set_uint_big [OF n] by (auto simp: set_value_def)
    moreover have "name \<in> set value_flags" "name \<notin> set bool_flags" using name by (auto simp: value_flags_def bool_flags_def)
    ultimately show ?thesis unfolding ParseArgs_def flag_arg_def by (subst flag_parse_eq) simp_all
  qed
  have each: "compile_each compile ps =
      (case find (\<lambda>p. isl (compile p)) ps of
         Some p \<Rightarrow> Inl (ErrWrap (''invalid -pattern '' @ p) (projl (compile p)))
       | None \<Rightarrow> Inr (map (\<lambda>p. projr (compile p)) ps))" for ps
    by (induction ps) (auto split: sum.splits option.splits)
  from assms(2) have err: "err = map_option (\<lambda>p. ErrWrap (''invalid -pattern '' @ p) (projl (compile p))) (find (\<lambda>p. isl (compile p)) (a_AllowedPattern a))"
    and "AllowedPatterns cfg = (if err \<noteq> None then AllowedPatterns c
       else if a_AllowedPattern a = [] then None else Some (map (\<lambda>p. projr (compile p)) (a_AllowedPattern a)))"
    unfolding args by (auto simp: Config_Load_def Let_def compileAllowedPatterns_def each split: sum.splits option.splits if_splits)
  moreover have "Addr cfg = a_Addr a \<and> Port cfg = uint (a_Port a) \<and> DnsAddr cfg = a_DnsAddr a \<and> DnsPort cfg = uint (a_DnsPort a) \<and>
    DnsFallback cfg = (if a_DnsFallback a = [] then [''8.8.8.8'', ''9.9.9.9''] else a_DnsFallback a) \<and>
    DnsIPv4Only cfg = a_DnsIPv4Only a \<and> EnableDoh cfg = a_EnableDoh a \<and> DohUrl cfg = a_DohUrl a \<and>
    DohBootstrapIp cfg = a_DohBootstrapIp a \<and> Debug cfg = a_Debug a \<and> Silent cfg = a_Silent a \<and>
    SystemProxy cfg = a_SystemProxy a \<and> Timeout cfg = uint (a_Timeout a) \<and> WindowSize cfg = uint (a_WindowSize a)"
    using assms(2) unfolding args by (auto simp: Config_Load_def Let_def split: sum.splits)
  ultimately show ?thesis using big by blast
qed

text \<open>The witness: a second pattern that does not compile.\<close>

definition demo_args :: Args where
  "demo_args = (default_Args ''linux'')\<lparr>a_Port := 8443, a_AllowedPattern := [''tr$'', ''('']\<rparr>"

definition demo_compile :: "string \<Rightarrow> regexp result" where
  "demo_compile p = (if p = ''('' then Inl ErrSyntax else Inr (\<lambda>b. True))"

theorem Config_from_command_line_witness:
  "\<exists>args cfg. ParseArgs ''linux'' (render_args demo_args) = Inr args \<and>
     Config_Load demo_compile args zero_Config = (cfg, Some (ErrWrap ''invalid -pattern ('' ErrSyntax)) \<and>
     Port cfg = 8443 \<and> WindowSize cfg = 5 \<and> DnsFallback cfg = [''8.8.8.8'', ''9.9.9.9''] \<and> AllowedPatterns cfg = None"
proof -
  obtain args where p: "ParseArgs ''linux'' (render_args demo_args) = Inr args" by (simp add: ParseArgs_renders)
  obtain cfg err where l: "Config_Load demo_compile args zero_Config = (cfg, err)" by fastforce
  note spec = Config_from_command_line [OF p l]
  have "err = Some (ErrWrap ''invalid -pattern ('' ErrSyntax)" using spec by (simp add: demo_args_def demo_compile_def)
  moreover have "Port cfg = 8443" "WindowSize cfg = 5" "DnsFallback cfg = [''8.8.8.8'', ''9.9.9.9'']" "AllowedPatterns cfg = None"
    using spec by (simp_all add: demo_args_def default_Args_def demo_compile_def zero_Config_def)
  ultimately show ?thesis using p l by blast
qed

end
