(* ===== verification/Cache_Slices.thy ===== *)
theory Cache_Slices
  imports Cache
begin

text \<open>
  \<open>dns/resolver/cache.go\<close> with the slices of addresses as what they are in Go: references to memory that the cache,
  the pending lookups and the callers may share.  An element of such a slice is a \<open>net.IPAddr\<close>, a zone and
  a slice of bytes, so that there are two levels of memory.  A step of this system is a step of the cache
  (theory \<open>Cache\<close>) together with what it does to memory: \<open>cloneAddrs\<close> copies the elements, not the bytes
  they refer to.  A caller may write to the elements of the slice it was given, and to the bytes of an address,
  at any time.  The system refines that of theory \<open>Cache\<close>; what the entries and the callers see of the addresses
  that one speaks of is what these copies protect.
\<close>

section \<open>Memory\<close>

text \<open>A slice of addresses is nil or the place of its elements; the \<open>IP\<close> of an element is the place of its bytes.\<close>

type_synonym slice = "nat option"

record elem =
  el_ip :: nat
  el_zone :: string

record slices =
  sl_mem :: "nat \<Rightarrow> elem list"
  sl_next :: nat
  sl_bytes :: "nat \<Rightarrow> bytes"
  sl_bnext :: nat

fun contents :: "slices \<Rightarrow> slice \<Rightarrow> elem list" where
  "contents m None = []"
| "contents m (Some l) = sl_mem m l"

text \<open>What a reader of the slice sees: for each element the place of its bytes, and the address.\<close>

definition slice_read :: "slices \<Rightarrow> slice \<Rightarrow> (nat \<times> net_IPAddr) list" where
  "slice_read m r = map (\<lambda>x. (el_ip x, \<lparr>IP = sl_bytes m (el_ip x), Zone = el_zone x\<rparr>)) (contents m r)"

definition alloc :: "elem list \<Rightarrow> slices \<Rightarrow> slice \<times> slices" where
  "alloc xs m = (Some (sl_next m), m\<lparr>sl_mem := (sl_mem m)(sl_next m := xs), sl_next := Suc (sl_next m)\<rparr>)"

definition cloneAddrs :: "slice \<Rightarrow> slices \<Rightarrow> slice \<times> slices" where
  "cloneAddrs r m = (case r of None \<Rightarrow> (None, m) | Some l \<Rightarrow> alloc (sl_mem m l) m)"

text \<open>What the inner resolver returns is new memory, elements and bytes; an answer without addresses has none.\<close>

definition new_bytes :: "bytes \<Rightarrow> slices \<Rightarrow> slices" where
  "new_bytes bs m = m\<lparr>sl_bytes := (sl_bytes m)(sl_bnext m := bs), sl_bnext := Suc (sl_bnext m)\<rparr>"

fun new_elems :: "net_IPAddr list \<Rightarrow> slices \<Rightarrow> elem list \<times> slices" where
  "new_elems [] m = ([], m)"
| "new_elems (a # as) m =
     (case new_elems as (new_bytes (IP a) m) of (xs, m') \<Rightarrow> (\<lparr>el_ip = sl_bnext m, el_zone = Zone a\<rparr> # xs, m'))"

definition inner_slice :: "net_IPAddr list \<Rightarrow> slices \<Rightarrow> slice \<times> slices" where
  "inner_slice addrs m =
     (if addrs = [] then (None, m) else case new_elems addrs m of (xs, m') \<Rightarrow> alloc xs m')"

section \<open>The cache's state and steps\<close>

text \<open>
  \<open>sl_entry\<close> and \<open>sl_done\<close> are the slices in the cache's entries and in the finished pending lookups, \<open>sl_ret\<close> those the
  calls have returned; \<open>sl_got\<close> is what a reader saw in such a slice when it was returned, \<open>sl_wrote\<close> the calls whose
  callers have written to the elements of theirs, and \<open>sl_touched\<close> the places of the bytes that were written to.
\<close>

record slice_sys =
  sl_sys :: cache_sys
  sl_heap :: slices
  sl_entry :: "string \<Rightarrow> slice"
  sl_done :: "nat \<Rightarrow> slice"
  sl_ret :: "nat \<Rightarrow> slice"
  sl_got :: "nat \<rightharpoonup> (nat \<times> net_IPAddr) list"
  sl_wrote :: "nat set"
  sl_touched :: "nat set"

definition slice_init :: "cache_sys \<Rightarrow> slice_sys" where
  "slice_init s = \<lparr>sl_sys = s, sl_heap = \<lparr>sl_mem = (\<lambda>l. []), sl_next = 0, sl_bytes = (\<lambda>b. []), sl_bnext = 0\<rparr>,
     sl_entry = (\<lambda>k. None), sl_done = (\<lambda>p. None), sl_ret = (\<lambda>i. None), sl_got = Map.empty, sl_wrote = {}, sl_touched = {}\<rparr>"

text \<open>Call \<open>i\<close> returns nil when there is an error, and otherwise a copy of the slice \<open>r\<close>.\<close>

definition return_copy :: "nat \<Rightarrow> slice \<Rightarrow> go_error option \<Rightarrow> slice_sys \<Rightarrow> slice_sys" where
  "return_copy i r err s =
     (if err \<noteq> None then s\<lparr>sl_got := (sl_got s)(i \<mapsto> [])\<rparr>
      else case cloneAddrs r (sl_heap s) of
        (r', m) \<Rightarrow> s\<lparr>sl_heap := m, sl_ret := (sl_ret s)(i := r'), sl_got := (sl_got s)(i \<mapsto> slice_read m r')\<rparr>)"

text \<open>The leading call \<open>i\<close> has got \<open>addrs\<close> from the inner resolver: the pending lookup refers to that slice, the cache
  keeps a copy when it stores the answer at all, and the call returns the slice itself.\<close>

definition return_lead :: "nat \<Rightarrow> string \<Rightarrow> net_IPAddr list \<Rightarrow> bool \<Rightarrow> slice_sys \<Rightarrow> slice_sys" where
  "return_lead i key addrs store s =
     (case inner_slice addrs (sl_heap s) of
        (r, m) \<Rightarrow>
          (case (if store then cloneAddrs r m else (sl_entry s key, m)) of
             (r', m') \<Rightarrow> s\<lparr>sl_heap := m', sl_entry := (sl_entry s)(key := r'), sl_done := (sl_done s)(i := r),
               sl_ret := (sl_ret s)(i := r), sl_got := (sl_got s)(i \<mapsto> slice_read m r)\<rparr>))"

definition returned :: "cache_sys \<Rightarrow> nat \<Rightarrow> bool" where
  "returned s i \<longleftrightarrow> i < length (sy_threads s) \<and> (\<exists>v. pc_at s i = Finished v)"

inductive slice_step :: "iter_order \<Rightarrow> resolve_rel \<Rightarrow> slice_sys \<Rightarrow> slice_sys \<Rightarrow> bool" for iter inner where
  other: "cache_any iter inner (sl_sys s) t \<Longrightarrow> (\<And>i. returned t i = returned (sl_sys s) i) \<Longrightarrow>
    slice_step iter inner s (s\<lparr>sl_sys := t\<rparr>)"
| hit: "i < length (sy_threads (sl_sys s)) \<Longrightarrow> pc_at (sl_sys s) i = Timed now \<Longrightarrow>
    map_of (c_entries (sy_cache (sl_sys s))) (key_at (sl_sys s) i) = Some e \<Longrightarrow> now < ce_expires e \<Longrightarrow>
    slice_step iter inner s
      ((return_copy i (sl_entry s (key_at (sl_sys s) i)) (ce_err e) s)
       \<lparr>sl_sys := set_pc i (Finished (cached_result (ce_addrs e) (ce_err e))) (sl_sys s)\<rparr>)"
| woken: "i < length (sy_threads (sl_sys s)) \<Longrightarrow> pc_at (sl_sys s) i = Waiting p \<Longrightarrow> sy_done (sl_sys s) p = Some v \<Longrightarrow>
    slice_step iter inner s
      ((return_copy i (sl_done s p) (snd v) s)
       \<lparr>sl_sys := set_pc i (Finished (cached_result (fst v) (snd v))) (sl_sys s)\<rparr>)"
| gone: "i < length (sy_threads (sl_sys s)) \<Longrightarrow> pc_at (sl_sys s) i = Waiting p \<Longrightarrow>
    th_ctx (sy_threads (sl_sys s) ! i) = Some e \<Longrightarrow>
    slice_step iter inner s
      ((return_copy i None (Some e) s)\<lparr>sl_sys := set_pc i (Finished ([], Some e)) (sl_sys s)\<rparr>)"
| complete: "i < length (sy_threads (sl_sys s)) \<Longrightarrow> pc_at (sl_sys s) i = Leading \<Longrightarrow>
    inner (th_host (sy_threads (sl_sys s) ! i)) (th_qTypes (sy_threads (sl_sys s) ! i)) v \<Longrightarrow>
    sy_clock (sl_sys s) \<le> t \<Longrightarrow> t \<le> t' \<Longrightarrow>
    slice_step iter inner s
      ((return_lead i (key_at (sl_sys s) i) (fst v) (0 < entry_ttl (sy_cache (sl_sys s)) (fst v) (snd v)) s)
       \<lparr>sl_sys := set_pc i (Finished v) ((sl_sys s)
          \<lparr>sy_cache := cache_complete iter (key_at (sl_sys s) i) v t t' (sy_cache (sl_sys s)),
           sy_done := (sy_done (sl_sys s))(i \<mapsto> v), sy_at := (sy_at (sl_sys s))(i \<mapsto> t), sy_clock := t'\<rparr>)\<rparr>)"
| own: "slice_step iter inner s (s\<lparr>sl_heap := new_bytes bs (sl_heap s)\<rparr>)"
| scribble: "sl_ret s i = Some l \<Longrightarrow> length xs = length (sl_mem (sl_heap s) l) \<Longrightarrow>
    list_all (\<lambda>x. el_ip x < sl_bnext (sl_heap s)) xs \<Longrightarrow>
    slice_step iter inner s
      (s\<lparr>sl_heap := (sl_heap s)\<lparr>sl_mem := (sl_mem (sl_heap s))(l := xs)\<rparr>, sl_wrote := insert i (sl_wrote s)\<rparr>)"
| scribble_ip: "b < sl_bnext (sl_heap s) \<Longrightarrow> length bs = length (sl_bytes (sl_heap s) b) \<Longrightarrow>
    slice_step iter inner s
      (s\<lparr>sl_heap := (sl_heap s)\<lparr>sl_bytes := (sl_bytes (sl_heap s))(b := bs)\<rparr>, sl_touched := insert b (sl_touched s)\<rparr>)"

section \<open>Copies\<close>

definition heap_wf :: "slices \<Rightarrow> bool" where
  "heap_wf m \<longleftrightarrow> (\<forall>l < sl_next m. list_all (\<lambda>x. el_ip x < sl_bnext m) (sl_mem m l))"

text \<open>Memory that only grows keeps what a reader sees in a slice that is already allocated.\<close>

definition grows :: "slices \<Rightarrow> slices \<Rightarrow> bool" where
  "grows m m' \<longleftrightarrow> sl_next m \<le> sl_next m' \<and> sl_bnext m \<le> sl_bnext m' \<and>
     (\<forall>l. l < sl_next m \<longrightarrow> sl_mem m' l = sl_mem m l) \<and> (\<forall>b. b < sl_bnext m \<longrightarrow> sl_bytes m' b = sl_bytes m b)"

lemma grows_refl [simp]: "grows m m"
  by (simp add: grows_def)

lemma grows_trans: "grows m m' \<Longrightarrow> grows m' m'' \<Longrightarrow> grows m m''"
  by (simp add: grows_def)

lemma slice_read_None [simp]: "slice_read m None = []"
  by (simp add: slice_read_def)

lemma grows_read:
  assumes "grows m m'" and "heap_wf m" and "\<And>l. r = Some l \<Longrightarrow> l < sl_next m"
  shows "slice_read m' r = slice_read m r"
proof (cases r)
  case (Some l)
  with assms have "sl_mem m' l = sl_mem m l" "\<forall>x\<in>set (sl_mem m l). sl_bytes m' (el_ip x) = sl_bytes m (el_ip x)"
    by (auto simp: grows_def heap_wf_def list_all_iff)
  with Some show ?thesis by (simp add: slice_read_def)
qed simp

text \<open>\<open>r\<close> is a slice of \<open>m'\<close> that shares no elements with what was allocated in \<open>m\<close>.\<close>

definition fresh_slice :: "slices \<Rightarrow> slice \<times> slices \<Rightarrow> bool" where
  "fresh_slice m a \<longleftrightarrow> grows m (snd a) \<and> heap_wf (snd a) \<and> (\<forall>l. fst a = Some l \<longrightarrow> sl_next m \<le> l \<and> l < sl_next (snd a))"

lemma fresh_grows: "fresh_slice m (r, m') \<Longrightarrow> grows m m'" and fresh_wf: "fresh_slice m (r, m') \<Longrightarrow> heap_wf m'"
  by (simp_all add: fresh_slice_def)

lemma fresh_slice_new:
  assumes "fresh_slice m (r, m')" and "grows m' m''"
  shows "r = Some l \<Longrightarrow> sl_next m \<le> l" and "r = Some l \<Longrightarrow> l < sl_next m''" and "sl_next m \<le> sl_next m''"
  using assms by (auto simp: fresh_slice_def grows_def intro: less_le_trans)

lemma alloc_fresh: "heap_wf m \<Longrightarrow> list_all (\<lambda>x. el_ip x < sl_bnext m) xs \<Longrightarrow> fresh_slice m (alloc xs m)"
  by (simp add: fresh_slice_def alloc_def grows_def heap_wf_def less_Suc_eq)

lemma cloneAddrs_fresh:
  assumes "heap_wf m" and "\<And>l. r = Some l \<Longrightarrow> l < sl_next m"
  shows "fresh_slice m (cloneAddrs r m)"
proof (cases r)
  case None
  with assms show ?thesis by (simp add: cloneAddrs_def fresh_slice_def)
next
  case (Some l)
  with assms have "list_all (\<lambda>x. el_ip x < sl_bnext m) (sl_mem m l)" by (simp add: heap_wf_def)
  with Some assms(1) show ?thesis by (simp add: cloneAddrs_def alloc_fresh)
qed

text \<open>The copy reads like the original, and refers to the same bytes.\<close>

lemma cloneAddrs_read: "cloneAddrs r m = (r', m') \<Longrightarrow> slice_read m' r' = slice_read m r"
  by (cases r) (auto simp: cloneAddrs_def alloc_def slice_read_def)

lemma new_bytes_grows: "grows m (new_bytes bs m)" and new_bytes_wf: "heap_wf m \<Longrightarrow> heap_wf (new_bytes bs m)"
  by (auto simp: grows_def new_bytes_def heap_wf_def list_all_iff less_SucI)

lemma new_elems_spec:
  assumes "new_elems as m = (xs, m')" and "heap_wf m"
  shows "grows m m' \<and> heap_wf m' \<and> list_all (\<lambda>x. el_ip x < sl_bnext m') xs \<and>
    map (\<lambda>x. \<lparr>IP = sl_bytes m' (el_ip x), Zone = el_zone x\<rparr>) xs = as \<and> sl_next m' = sl_next m"
  using assms
proof (induction "as" arbitrary: m xs m')
  case (Cons a "as")
  then obtain ys where n: "new_elems as (new_bytes (IP a) m) = (ys, m')"
    and xs: "xs = \<lparr>el_ip = sl_bnext m, el_zone = Zone a\<rparr> # ys" by (auto split: prod.splits)
  note spec = Cons.IH [OF n new_bytes_wf [OF Cons.prems(2)]]
  have "sl_bnext m < sl_bnext m'" "sl_bytes m' (sl_bnext m) = IP a" using spec by (auto simp: grows_def new_bytes_def)
  moreover have "grows m m'" using new_bytes_grows spec grows_trans by blast
  ultimately show ?case using spec xs by (simp add: new_bytes_def)
qed simp

lemma inner_slice_spec:
  assumes "inner_slice as m = (r, m')" and "heap_wf m"
  shows "fresh_slice m (r, m')" and "map snd (slice_read m' r) = as"
proof -
  have "fresh_slice m (r, m') \<and> map snd (slice_read m' r) = as"
  proof (cases "as = []")
    case True
    with assms show ?thesis by (auto simp: inner_slice_def fresh_slice_def)
  next
    case False
    obtain xs m1 where n: "new_elems as m = (xs, m1)" by fastforce
    note spec = new_elems_spec [OF n assms(2)]
    have al: "alloc xs m1 = (r, m')" using assms(1) n False by (simp add: inner_slice_def)
    have "fresh_slice m1 (r, m')" using alloc_fresh [of m1 xs] spec al by simp
    then have "fresh_slice m (r, m')" using spec grows_trans [of m m1 m'] by (simp add: fresh_slice_def)
    moreover have "map snd (slice_read m' r) = as" using al spec by (auto simp: alloc_def slice_read_def comp_def)
    ultimately show ?thesis by simp
  qed
  then show "fresh_slice m (r, m')" and "map snd (slice_read m' r) = as" by simp_all
qed

section \<open>The invariant\<close>

text \<open>What was read is \<open>addrs\<close>, except for bytes that were written to.\<close>

definition faithful :: "nat set \<Rightarrow> (nat \<times> net_IPAddr) list \<Rightarrow> net_IPAddr list \<Rightarrow> bool" where
  "faithful touched xs addrs \<longleftrightarrow>
     list_all2 (\<lambda>x a. Zone (snd x) = Zone a \<and> (fst x \<notin> touched \<longrightarrow> IP (snd x) = IP a)) xs addrs"

lemma faithful_exact: "map snd xs = addrs \<Longrightarrow> faithful touched xs addrs"
  by (auto simp: faithful_def list_all2_conv_all_nth)

lemma faithful_mono: "faithful T xs as \<Longrightarrow> T \<subseteq> T' \<Longrightarrow> faithful T' xs as"
  by (auto simp: faithful_def elim!: list_all2_mono)

lemma faithful_untouched: "faithful {} xs addrs \<longleftrightarrow> map snd xs = addrs"
  by (auto simp: faithful_def list_all2_conv_all_nth list_eq_iff_nth_eq intro: net_IPAddr.equality)

lemma faithful_Nil [simp]: "faithful T [] []"
  by (simp add: faithful_def)

lemma faithful_touch:
  assumes "faithful T (slice_read m r) as"
  shows "faithful (insert b T) (slice_read (m\<lparr>sl_bytes := (sl_bytes m)(b := bs)\<rparr>) r) as"
proof -
  have "contents (m\<lparr>sl_bytes := (sl_bytes m)(b := bs)\<rparr>) r = contents m r" by (cases r) simp_all
  with assms show ?thesis by (auto simp: faithful_def slice_read_def list_all2_conv_all_nth)
qed

definition entries_ok ::
  "slices \<Rightarrow> nat set \<Rightarrow> (nat \<Rightarrow> slice) \<Rightarrow> (string \<Rightarrow> slice) \<Rightarrow> (string \<times> cacheEntry) list \<Rightarrow> bool" where
  "entries_ok m touched ret ent es \<longleftrightarrow>
     (\<forall>k e. map_of es k = Some e \<longrightarrow> faithful touched (slice_read m (ent k)) (ce_addrs e) \<and>
        (\<forall>l. ent k = Some l \<longrightarrow> l < sl_next m \<and> l \<notin> ran ret))"

definition returns_ok :: "slices \<Rightarrow> (nat \<Rightarrow> slice) \<Rightarrow> bool" where
  "returns_ok m ret \<longleftrightarrow> (\<forall>i l. ret i = Some l \<longrightarrow> l < sl_next m \<and> (\<forall>j. ret j = Some l \<longrightarrow> j = i))"

definition dones_ok :: "slice_sys \<Rightarrow> bool" where
  "dones_ok s \<longleftrightarrow>
     (\<forall>p v. sy_done (sl_sys s) p = Some v \<longrightarrow> p < length (sy_threads (sl_sys s)) \<and> pc_at (sl_sys s) p = Finished v \<and>
        sl_done s p = sl_ret s p \<and> (p \<notin> sl_wrote s \<longrightarrow> faithful (sl_touched s) (slice_read (sl_heap s) (sl_ret s p)) (fst v)))"

text \<open>The caller of a call for \<open>key\<close> that led a lookup has written to the elements of its slice.\<close>

definition leader_wrote :: "slice_sys \<Rightarrow> string \<Rightarrow> bool" where
  "leader_wrote s key \<longleftrightarrow>
     (\<exists>p\<in>sl_wrote s. p < length (sy_threads (sl_sys s)) \<and> key_at (sl_sys s) p = key \<and> sy_done (sl_sys s) p \<noteq> None)"

text \<open>Call \<open>i\<close> was given the addresses \<open>addrs\<close>.\<close>

definition was_given :: "slice_sys \<Rightarrow> nat \<Rightarrow> net_IPAddr list \<Rightarrow> bool" where
  "was_given s i addrs \<longleftrightarrow> (case sl_got s i of None \<Rightarrow> False | Some xs \<Rightarrow> faithful (sl_touched s) xs addrs)"

definition got_ok :: "slice_sys \<Rightarrow> bool" where
  "got_ok s \<longleftrightarrow>
     (\<forall>i v. i < length (sy_threads (sl_sys s)) \<longrightarrow> pc_at (sl_sys s) i = Finished v \<longrightarrow>
        was_given s i (fst v) \<or> leader_wrote s (key_at (sl_sys s) i))"

definition slice_inv :: "resolve_rel \<Rightarrow> cache \<Rightarrow> (string \<times> uint16 list) list \<Rightarrow> slice_sys \<Rightarrow> bool" where
  "slice_inv inner c0 calls s \<longleftrightarrow>
     cache_inv inner c0 calls (sl_sys s) \<and> heap_wf (sl_heap s) \<and>
     entries_ok (sl_heap s) (sl_touched s) (sl_ret s) (sl_entry s) (c_entries (sy_cache (sl_sys s))) \<and>
     returns_ok (sl_heap s) (sl_ret s) \<and> dones_ok s \<and> got_ok s"

lemma returns_okD: "returns_ok m ret \<Longrightarrow> ret i = Some l \<Longrightarrow> l < sl_next m"
  and returns_ok_inj: "returns_ok m ret \<Longrightarrow> ret i = Some l \<Longrightarrow> ret j = Some l \<Longrightarrow> j = i"
  by (auto simp: returns_ok_def)

lemma returns_ok_fresh:
  assumes ok: "returns_ok m ret" and fr: "fresh_slice m (r, m')" and gr: "grows m' m''"
  shows "returns_ok m'' (ret(i := r))"
proof -
  note new = fresh_slice_new [OF fr gr]
  have old: "ret j = Some l \<Longrightarrow> l < sl_next m" for j l by (rule returns_okD [OF ok])
  have "l < sl_next m''" if "(ret(i := r)) j = Some l" for j l
    using that new(2,3) old [of j l] by (auto split: if_splits)
  moreover have "j' = j" if "(ret(i := r)) j = Some l" "(ret(i := r)) j' = Some l" for j j' l
    using that new(1) [of l] old [of j l] old [of j' l] returns_ok_inj [OF ok, of j l j'] by (auto split: if_splits)
  ultimately show ?thesis unfolding returns_ok_def by blast
qed

lemma entries_okD:
  assumes "entries_ok m T ret ent es" and "map_of es k = Some e"
  shows "faithful T (slice_read m (ent k)) (ce_addrs e)" and "ent k = Some l \<Longrightarrow> l < sl_next m" and "ent k = Some l \<Longrightarrow> l \<notin> ran ret"
  using assms unfolding entries_ok_def by blast+

lemma entries_okI:
  assumes "\<And>k e. map_of es k = Some e \<Longrightarrow> faithful T (slice_read m (ent k)) (ce_addrs e)"
    and "\<And>k e l. map_of es k = Some e \<Longrightarrow> ent k = Some l \<Longrightarrow> l < sl_next m \<and> l \<notin> ran ret"
  shows "entries_ok m T ret ent es"
  using assms unfolding entries_ok_def by blast

lemma entries_ok_fresh:
  assumes ok: "entries_ok m T ret ent es" and wf: "heap_wf m" and fr: "fresh_slice m (r, m')" and gr: "grows m' m''"
  shows "entries_ok m'' T (ret(i := r)) ent es"
proof (rule entries_okI)
  fix k e
  assume k: "map_of es k = Some e"
  note old = entries_okD [OF ok k]
  have g: "grows m m''" using fr gr by (blast intro: grows_trans fresh_grows)
  then show "faithful T (slice_read m'' (ent k)) (ce_addrs e)" using old(1) grows_read [OF g wf old(2)] by simp
  fix l
  assume l: "ent k = Some l"
  then have "r \<noteq> Some l" using old(2) [OF l] fresh_slice_new(1) [OF fr gr, of l] by auto
  then have "l \<notin> ran (ret(i := r))" using old(3) [OF l] by (auto simp: ran_def split: if_splits)
  with old(2) [OF l] g show "l < sl_next m'' \<and> l \<notin> ran (ret(i := r))" by (simp add: grows_def)
qed

lemma map_of_complete:
  assumes perm: "\<And>xs. mset (iter xs) = mset xs" and dist: "distinct (map fst (c_entries c))"
    and "map_of (c_entries (cache_complete iter key v t t' c)) k = Some e"
  shows "if 0 < entry_ttl c (fst v) (snd v) \<and> k = key then ce_addrs e = fst v else map_of (c_entries c) k = Some e"
proof (cases "0 < entry_ttl c (fst v) (snd v)")
  case False
  with assms(3) show ?thesis by (simp add: cache_complete_def)
next
  case True
  let ?e = "\<lparr>ce_addrs = fst v, ce_err = snd v, ce_expires = t + entry_ttl c (fst v) (snd v)\<rparr>"
  let ?u = "AList.update key ?e (c_entries c)"
  from assms(3) True have "(k, e) \<in> set (evictLocked iter (c_maxSize c) t' ?u)"
    by (simp add: cache_complete_def Let_def map_of_SomeD)
  then have "(k, e) \<in> set ?u" by (rule subsetD [OF evictLocked_subset [OF perm]])
  then have "map_of ?u k = Some e" using dist by (simp add: distinct_update)
  then show ?thesis using True by (auto simp: update_conv split: if_splits)
qed

section \<open>Every step keeps it\<close>

text \<open>What a step does that only concerns the calls in progress.\<close>

lemma quiet_step:
  assumes "cache_any iter inner s t" and "\<And>i. returned t i = returned s i"
  shows "c_entries (sy_cache t) = c_entries (sy_cache s)" and "sy_done t = sy_done s"
    and "length (sy_threads t) = length (sy_threads s)" and "key_at t j = key_at s j"
    and "j < length (sy_threads s) \<Longrightarrow> pc_at t j = Finished v \<Longrightarrow> pc_at s j = Finished v"
    and "j < length (sy_threads s) \<Longrightarrow> pc_at s j = Finished v \<Longrightarrow> pc_at t j = Finished v"
proof -
  have "(c_entries (sy_cache t) = c_entries (sy_cache s) \<and> sy_done t = sy_done s \<and>
      length (sy_threads t) = length (sy_threads s) \<and> key_at t j = key_at s j) \<and>
    (j < length (sy_threads s) \<longrightarrow> (\<forall>v. pc_at t j = Finished v \<longleftrightarrow> pc_at s j = Finished v))"
    using assms(1) unfolding cache_any_def
  proof
    assume "cache_step iter inner s t"
    then show ?thesis
    proof cases
      case (enter i tm c p)
      from assms(2) [of i] enter have "\<And>v. p \<noteq> Finished v" by (auto simp: returned_def set_pc_nth)
      with enter cache_enter_cases [OF enter(4)] show ?thesis by (auto simp: set_pc_nth)
    next
      case (woken i p v)
      with assms(2) [of i] show ?thesis by (auto simp: returned_def set_pc_nth)
    next
      case (gone i p e)
      with assms(2) [of i] show ?thesis by (auto simp: returned_def set_pc_nth)
    next
      case (complete i v tm tm')
      with assms(2) [of i] show ?thesis by (auto simp: returned_def set_pc_nth)
    qed (auto simp: set_pc_nth)
  next
    assume "cache_env s t"
    then show ?thesis using cache_env_threads [of s t] by simp
  qed
  then show "c_entries (sy_cache t) = c_entries (sy_cache s)" "sy_done t = sy_done s"
    "length (sy_threads t) = length (sy_threads s)" "key_at t j = key_at s j"
    "j < length (sy_threads s) \<Longrightarrow> pc_at t j = Finished v \<Longrightarrow> pc_at s j = Finished v"
    "j < length (sy_threads s) \<Longrightarrow> pc_at s j = Finished v \<Longrightarrow> pc_at t j = Finished v"
    by blast+
qed

lemma dones_okD:
  assumes "dones_ok s" and "sy_done (sl_sys s) p = Some v"
  shows "p < length (sy_threads (sl_sys s))" and "pc_at (sl_sys s) p = Finished v" and "sl_done s p = sl_ret s p"
    and "p \<notin> sl_wrote s \<Longrightarrow> faithful (sl_touched s) (slice_read (sl_heap s) (sl_ret s p)) (fst v)"
  using assms unfolding dones_ok_def by blast+

lemma dones_okI:
  assumes "\<And>p v. sy_done (sl_sys s) p = Some v \<Longrightarrow> p < length (sy_threads (sl_sys s)) \<and> pc_at (sl_sys s) p = Finished v \<and>
    sl_done s p = sl_ret s p \<and> (p \<notin> sl_wrote s \<longrightarrow> faithful (sl_touched s) (slice_read (sl_heap s) (sl_ret s p)) (fst v))"
  shows "dones_ok s"
  using assms unfolding dones_ok_def by blast

lemma got_okD:
  "got_ok s \<Longrightarrow> i < length (sy_threads (sl_sys s)) \<Longrightarrow> pc_at (sl_sys s) i = Finished v \<Longrightarrow>
     was_given s i (fst v) \<or> leader_wrote s (key_at (sl_sys s) i)"
  unfolding got_ok_def by blast

lemma got_okI:
  assumes "\<And>i v. i < length (sy_threads (sl_sys s)) \<Longrightarrow> pc_at (sl_sys s) i = Finished v \<Longrightarrow>
    was_given s i (fst v) \<or> leader_wrote s (key_at (sl_sys s) i)"
  shows "got_ok s"
  using assms unfolding got_ok_def by blast

lemma other_inv:
  assumes inv: "slice_inv inner c0 calls s" and step: "cache_any iter inner (sl_sys s) t"
    and same: "\<And>i. returned t i = returned (sl_sys s) i" and cinv: "cache_inv inner c0 calls t"
  shows "slice_inv inner c0 calls (s\<lparr>sl_sys := t\<rparr>)"
proof -
  note q = quiet_step [OF step same]
  have ok: "dones_ok s" "got_ok s" using inv by (simp_all add: slice_inv_def)
  have dones: "dones_ok (s\<lparr>sl_sys := t\<rparr>)"
    by (rule dones_okI) (use dones_okD [OF ok(1)] q(6) in \<open>simp add: q(2,3)\<close>)
  have "leader_wrote (s\<lparr>sl_sys := t\<rparr>) k = leader_wrote s k" for k by (simp add: leader_wrote_def q(2-4))
  moreover have "was_given (s\<lparr>sl_sys := t\<rparr>) i a = was_given s i a" for i a
    by (simp add: was_given_def split: option.split)
  ultimately have "got_ok (s\<lparr>sl_sys := t\<rparr>)"
    by (intro got_okI) (use got_okD [OF ok(2)] q(5) in \<open>simp add: q(3,4)\<close>)
  with dones show ?thesis using inv cinv by (simp add: slice_inv_def q(1))
qed

text \<open>A call that returns, seen from the pending lookups and from what was returned.\<close>

lemma finish_oks:
  assumes ok: "returns_ok (sl_heap s) (sl_ret s)" "dones_ok s" "got_ok s" and wf: "heap_wf (sl_heap s)"
    and i: "i < length (sy_threads (sl_sys s))" and unfin: "\<And>v. pc_at (sl_sys s) i \<noteq> Finished v"
    and sys: "sl_sys t = set_pc i (Finished v) c" "sy_threads c = sy_threads (sl_sys s)"
    and don: "sy_done c = sy_done (sl_sys s) \<or>
      sy_done c = (sy_done (sl_sys s))(i \<mapsto> v) \<and> sl_done t i = sl_ret t i \<and>
      faithful (sl_touched t) (slice_read (sl_heap t) (sl_ret t i)) (fst v)"
    and gr: "grows (sl_heap s) (sl_heap t)" and wrote: "sl_wrote t = sl_wrote s" "sl_touched t = sl_touched s"
    and ret: "\<And>j. j \<noteq> i \<Longrightarrow> sl_ret t j = sl_ret s j \<and> sl_done t j = sl_done s j"
    and got: "sl_got t = (sl_got s)(i \<mapsto> x)" "faithful (sl_touched s) x (fst v) \<or> leader_wrote s (key_at (sl_sys s) i)"
  shows "dones_ok t" and "got_ok t"
proof -
  have nth: "sy_threads (sl_sys t) ! j = (if j = i then (sy_threads (sl_sys s) ! i)\<lparr>th_pc := Finished v\<rparr>
      else sy_threads (sl_sys s) ! j)" for j using i by (simp add: sys set_pc_nth)
  have len: "length (sy_threads (sl_sys t)) = length (sy_threads (sl_sys s))" by (simp add: sys)
  have lead: "leader_wrote t k" if "leader_wrote s k" for k
    using that don unfolding leader_wrote_def nth len wrote by (auto simp: sys)
  have old: "p \<noteq> i" "slice_read (sl_heap t) (sl_ret t p) = slice_read (sl_heap s) (sl_ret s p)"
    if "sy_done (sl_sys s) p = Some w" for p w
  proof -
    show "p \<noteq> i" using unfin dones_okD(2) [OF ok(2) that] by blast
    then show "slice_read (sl_heap t) (sl_ret t p) = slice_read (sl_heap s) (sl_ret s p)"
      using grows_read [OF gr wf, of "sl_ret s p"] returns_okD [OF ok(1), of p] ret by simp
  qed
  show "dones_ok t"
  proof (rule dones_okI)
    fix p w
    assume "sy_done (sl_sys t) p = Some w"
    then have p: "sy_done c p = Some w" by (simp add: sys)
    show "p < length (sy_threads (sl_sys t)) \<and> pc_at (sl_sys t) p = Finished w \<and> sl_done t p = sl_ret t p \<and>
      (p \<notin> sl_wrote t \<longrightarrow> faithful (sl_touched t) (slice_read (sl_heap t) (sl_ret t p)) (fst w))"
    proof (cases "sy_done (sl_sys s) p = Some w")
      case True
      with dones_okD [OF ok(2) True] old [OF True] ret show ?thesis unfolding nth len wrote by simp
    next
      case False
      with don p have "p = i" "w = v" "sl_done t i = sl_ret t i"
          "faithful (sl_touched t) (slice_read (sl_heap t) (sl_ret t i)) (fst v)"
        by (auto simp only: fun_upd_apply option.inject split: if_splits)
      with i show ?thesis unfolding nth len by simp
    qed
  qed
  have given: "was_given t j a \<longleftrightarrow> (if j = i then faithful (sl_touched s) x a else was_given s j a)" for j a
    by (simp add: was_given_def got(1) wrote(2) split: option.split)
  show "got_ok t"
    by (rule got_okI) (use got_okD [OF ok(3)] got(2) lead in \<open>auto simp: nth len given split: if_splits\<close>)
qed

lemma return_copy_facts:
  assumes "returns_ok (sl_heap s) (sl_ret s)" and "entries_ok (sl_heap s) (sl_touched s) (sl_ret s) (sl_entry s) es"
    and wf: "heap_wf (sl_heap s)" and r: "\<And>l. r = Some l \<Longrightarrow> l < sl_next (sl_heap s)"
  obtains m ret where
    "return_copy i r err s = s\<lparr>sl_heap := m, sl_ret := ret,
       sl_got := (sl_got s)(i \<mapsto> (if err = None then slice_read (sl_heap s) r else []))\<rparr>"
    "returns_ok m ret" "entries_ok m (sl_touched s) ret (sl_entry s) es" "grows (sl_heap s) m" "heap_wf m"
    "\<And>j. j \<noteq> i \<Longrightarrow> ret j = sl_ret s j"
proof (cases err)
  case None
  obtain r' m where c: "cloneAddrs r (sl_heap s) = (r', m)" by (cases "cloneAddrs r (sl_heap s)")
  have fr: "fresh_slice (sl_heap s) (r', m)" using cloneAddrs_fresh [OF wf, of r] r c by simp
  show ?thesis
  proof (rule that)
    show "return_copy i r err s = s\<lparr>sl_heap := m, sl_ret := (sl_ret s)(i := r'),
       sl_got := (sl_got s)(i \<mapsto> (if err = None then slice_read (sl_heap s) r else []))\<rparr>"
      using None c cloneAddrs_read [OF c] by (simp add: return_copy_def)
  qed (use assms(1,2) wf fr in \<open>auto intro: returns_ok_fresh entries_ok_fresh fresh_grows fresh_wf\<close>)
next
  case (Some e)
  show ?thesis
    by (rule that [of "sl_ret s" "sl_heap s"]) (use assms Some in \<open>auto simp: return_copy_def\<close>)
qed

lemma return_copy_inv:
  assumes inv: "slice_inv inner c0 calls s" and i: "i < length (sy_threads (sl_sys s))"
    and unfin: "\<And>v. pc_at (sl_sys s) i \<noteq> Finished v"
    and cinv: "cache_inv inner c0 calls (set_pc i (Finished (cached_result addrs err)) (sl_sys s))"
    and r: "\<And>l. r = Some l \<Longrightarrow> l < sl_next (sl_heap s)"
    and res: "err = None \<Longrightarrow> faithful (sl_touched s) (slice_read (sl_heap s) r) addrs \<or> leader_wrote s (key_at (sl_sys s) i)"
  shows "slice_inv inner c0 calls
    ((return_copy i r err s)\<lparr>sl_sys := set_pc i (Finished (cached_result addrs err)) (sl_sys s)\<rparr>)" (is "slice_inv _ _ _ ?t")
proof -
  from inv have ok: "returns_ok (sl_heap s) (sl_ret s)" "dones_ok s" "got_ok s" "heap_wf (sl_heap s)"
    "entries_ok (sl_heap s) (sl_touched s) (sl_ret s) (sl_entry s) (c_entries (sy_cache (sl_sys s)))" by (simp_all add: slice_inv_def)
  let ?x = "if err = None then slice_read (sl_heap s) r else []"
  obtain m ret where t: "return_copy i r err s = s\<lparr>sl_heap := m, sl_ret := ret, sl_got := (sl_got s)(i \<mapsto> ?x)\<rparr>"
    and new: "returns_ok m ret" "entries_ok m (sl_touched s) ret (sl_entry s) (c_entries (sy_cache (sl_sys s)))" "heap_wf m"
    and gr: "grows (sl_heap s) m" and ret: "\<And>j. j \<noteq> i \<Longrightarrow> ret j = sl_ret s j"
    using return_copy_facts [OF ok(1,5,4) r] by metis
  have res': "faithful (sl_touched s) ?x (fst (cached_result addrs err)) \<or> leader_wrote s (key_at (sl_sys s) i)"
    using res by (auto simp: cached_result_def)
  have "dones_ok ?t" "got_ok ?t"
    by (rule finish_oks [OF ok(1-4) i unfin, where t = ?t and c = "sl_sys s" and x = ?x]; use gr ret res' in \<open>simp add: t\<close>)+
  then show ?thesis using new cinv by (simp add: slice_inv_def t)
qed

lemma return_lead_facts:
  assumes ret: "returns_ok (sl_heap s) (sl_ret s)" and ent: "entries_ok (sl_heap s) (sl_touched s) (sl_ret s) (sl_entry s) es"
    and wf: "heap_wf (sl_heap s)"
    and es: "\<And>k e. map_of es' k = Some e \<Longrightarrow> if store \<and> k = key then ce_addrs e = addrs else map_of es k = Some e"
  obtains m ent r x where
    "return_lead i key addrs store s = s\<lparr>sl_heap := m, sl_entry := ent, sl_done := (sl_done s)(i := r),
       sl_ret := (sl_ret s)(i := r), sl_got := (sl_got s)(i \<mapsto> x)\<rparr>"
    "returns_ok m ((sl_ret s)(i := r))" "entries_ok m (sl_touched s) ((sl_ret s)(i := r)) ent es'" "grows (sl_heap s) m" "heap_wf m"
    "slice_read m r = x" "map snd x = addrs"
proof -
  obtain r m where rm: "inner_slice addrs (sl_heap s) = (r, m)" by (cases "inner_slice addrs (sl_heap s)")
  obtain r' m' where rm': "(if store then cloneAddrs r m else (sl_entry s key, m)) = (r', m')"
    by (cases "if store then cloneAddrs r m else (sl_entry s key, m)")
  note fr = inner_slice_spec(1) [OF rm wf] and rd = inner_slice_spec(2) [OF rm wf]
  note wfm = fresh_wf [OF fr] and r = fresh_slice_new(2) [OF fr grows_refl]
  have cl: "fresh_slice m (r', m')" "slice_read m' r' = slice_read m r" if store
    using cloneAddrs_fresh [OF wfm, of r] r cloneAddrs_read [of r m r' m'] rm' that by simp_all
  have gr: "grows m m' \<and> heap_wf m'"
    using fresh_grows [OF cl(1)] fresh_wf [OF cl(1)] rm' wfm by (cases store) auto
  let ?ret = "(sl_ret s)(i := r)" and ?ent = "(sl_entry s)(key := r')"
  have ok: "returns_ok m ?ret" "returns_ok m' ?ret"
    using returns_ok_fresh [OF ret fr] gr by simp_all
  have keep: "entries_ok m' (sl_touched s) ?ret (sl_entry s) es" using entries_ok_fresh [OF ent wf fr] gr by simp
  have "entries_ok m' (sl_touched s) ?ret ?ent es'"
  proof (rule entries_okI)
    fix k e
    assume k: "map_of es' k = Some e"
    have old: "?ent k = sl_entry s k \<and> map_of es k = Some e" if "\<not> (store \<and> k = key)" using that es [OF k] rm' by (auto split: if_splits)
    show "faithful (sl_touched s) (slice_read m' (?ent k)) (ce_addrs e)"
    proof (cases "store \<and> k = key")
      case True
      with cl(2) rd es [OF k] show ?thesis by (simp add: faithful_exact)
    next
      case False
      with entries_okD(1) [OF keep] old show ?thesis by metis
    qed
    fix l
    assume l: "?ent k = Some l"
    show "l < sl_next m' \<and> l \<notin> ran ?ret"
    proof (cases "store \<and> k = key")
      case True
      with l have l: "r' = Some l" by simp
      have "sl_next m \<le> l" "l < sl_next m'" using fresh_slice_new(1,2) [OF cl(1) grows_refl l] True by simp_all
      with returns_okD [OF ok(1)] show ?thesis by (fastforce simp: ran_def)
    next
      case False
      with entries_okD(2,3) [OF keep] old l show ?thesis by metis
    qed
  qed
  moreover have "return_lead i key addrs store s = s\<lparr>sl_heap := m', sl_entry := ?ent,
      sl_done := (sl_done s)(i := r), sl_ret := ?ret, sl_got := (sl_got s)(i \<mapsto> slice_read m r)\<rparr>"
    using rm rm' by (simp add: return_lead_def)
  moreover have "slice_read m' r = slice_read m r" using gr r by (intro grows_read [OF _ wfm]) simp_all
  moreover have "grows (sl_heap s) m'" using fresh_grows [OF fr] gr grows_trans by blast
  ultimately show ?thesis using that ok(2) gr rd by blast
qed

lemma return_lead_inv:
  assumes inv: "slice_inv inner c0 calls s" and i: "i < length (sy_threads (sl_sys s))"
    and lead: "pc_at (sl_sys s) i = Leading" and perm: "\<And>xs. mset (iter xs) = mset xs"
    and c: "c = (sl_sys s)\<lparr>sy_cache := cache_complete iter (key_at (sl_sys s) i) v tm tm' (sy_cache (sl_sys s)),
      sy_done := (sy_done (sl_sys s))(i \<mapsto> v), sy_at := (sy_at (sl_sys s))(i \<mapsto> tm), sy_clock := tm'\<rparr>"
    and cinv: "cache_inv inner c0 calls (set_pc i (Finished v) c)"
  shows "slice_inv inner c0 calls
    ((return_lead i (key_at (sl_sys s) i) (fst v) (0 < entry_ttl (sy_cache (sl_sys s)) (fst v) (snd v)) s)
     \<lparr>sl_sys := set_pc i (Finished v) c\<rparr>)" (is "slice_inv _ _ _ ?t")
proof -
  from inv have ok: "returns_ok (sl_heap s) (sl_ret s)" "dones_ok s" "got_ok s" "heap_wf (sl_heap s)"
    "entries_ok (sl_heap s) (sl_touched s) (sl_ret s) (sl_entry s) (c_entries (sy_cache (sl_sys s)))"
    and dist: "distinct (map fst (c_entries (sy_cache (sl_sys s))))"
    by (simp_all add: slice_inv_def cache_inv_def store_inv_def)
  have cc: "sy_cache c = cache_complete iter (key_at (sl_sys s) i) v tm tm' (sy_cache (sl_sys s))" by (simp add: c)
  obtain m ent r x where t: "return_lead i (key_at (sl_sys s) i) (fst v) (0 < entry_ttl (sy_cache (sl_sys s)) (fst v) (snd v)) s =
      s\<lparr>sl_heap := m, sl_entry := ent, sl_done := (sl_done s)(i := r), sl_ret := (sl_ret s)(i := r), sl_got := (sl_got s)(i \<mapsto> x)\<rparr>"
    and new: "returns_ok m ((sl_ret s)(i := r))" "entries_ok m (sl_touched s) ((sl_ret s)(i := r)) ent (c_entries (sy_cache c))"
    and gr: "grows (sl_heap s) m" and wf: "heap_wf m" and r: "slice_read m r = x" and x: "map snd x = fst v"
    by (rule return_lead_facts [OF ok(1,5,4) map_of_complete [OF perm dist, of "key_at (sl_sys s) i" v tm tm', folded cc]])
  have "faithful (sl_touched s) x (fst v)" using x by (rule faithful_exact)
  with r have "dones_ok ?t" "got_ok ?t"
    by (rule_tac finish_oks [OF ok(1-4) i, where t = ?t and c = c and x = x and v = v]; use lead gr in \<open>simp add: t c\<close>)+
  then show ?thesis using new wf cinv by (simp add: slice_inv_def t)
qed

lemma got_ok_mono:
  assumes "got_ok s" and "sl_sys t = sl_sys s" and "\<And>k. leader_wrote s k \<Longrightarrow> leader_wrote t k"
    and "\<And>i a. was_given s i a \<Longrightarrow> was_given t i a"
  shows "got_ok t"
  using assms unfolding got_ok_def by metis

text \<open>A caller writes to the elements of its slice, or to the bytes of an address.\<close>

lemma scribble_inv:
  assumes inv: "slice_inv inner c0 calls s" and l: "sl_ret s i = Some l"
    and xs: "list_all (\<lambda>x. el_ip x < sl_bnext (sl_heap s)) xs"
  shows "slice_inv inner c0 calls
    (s\<lparr>sl_heap := (sl_heap s)\<lparr>sl_mem := (sl_mem (sl_heap s))(l := xs)\<rparr>, sl_wrote := insert i (sl_wrote s)\<rparr>)" (is "slice_inv _ _ _ ?t")
proof -
  from inv have ok: "returns_ok (sl_heap s) (sl_ret s)" "dones_ok s" "got_ok s" "heap_wf (sl_heap s)"
    "entries_ok (sl_heap s) (sl_touched s) (sl_ret s) (sl_entry s) (c_entries (sy_cache (sl_sys s)))" by (simp_all add: slice_inv_def)
  have keep: "slice_read (sl_heap ?t) r = slice_read (sl_heap s) r" if "r \<noteq> Some l" for r
    using that by (cases r) (auto simp: slice_read_def)
  have "sl_entry s k \<noteq> Some l" if "map_of (c_entries (sy_cache (sl_sys s))) k = Some e" for k e
    using entries_okD(3) [OF ok(5) that, of l] l by (auto simp: ran_def)
  then have "entries_ok (sl_heap ?t) (sl_touched ?t) (sl_ret ?t) (sl_entry ?t) (c_entries (sy_cache (sl_sys ?t)))"
    using ok(5) keep by (simp add: entries_ok_def)
  moreover have "returns_ok (sl_heap ?t) (sl_ret ?t)" using ok(1) by (simp add: returns_ok_def)
  moreover have "heap_wf (sl_heap ?t)" using ok(4) xs by (simp add: heap_wf_def)
  moreover have "sl_ret s p \<noteq> Some l" if "p \<noteq> i" for p using that l returns_ok_inj [OF ok(1)] by blast
  then have "dones_ok ?t"
    by (intro dones_okI) (use dones_okD [OF ok(2)] keep in auto)
  moreover have "got_ok ?t"
    by (rule got_ok_mono [OF ok(3)]) (auto simp: leader_wrote_def was_given_def split: option.splits)
  ultimately show ?thesis using inv by (simp add: slice_inv_def)
qed

lemma bytes_inv:
  assumes inv: "slice_inv inner c0 calls s" and touched: "sl_touched s \<subseteq> T" and wf: "heap_wf m"
    and read: "\<And>r as. (\<And>l. r = Some l \<Longrightarrow> l < sl_next (sl_heap s)) \<Longrightarrow> faithful (sl_touched s) (slice_read (sl_heap s) r) as \<Longrightarrow>
      faithful T (slice_read m r) as" and nxt: "sl_next m = sl_next (sl_heap s)"
  shows "slice_inv inner c0 calls (s\<lparr>sl_heap := m, sl_touched := T\<rparr>)" (is "slice_inv _ _ _ ?t")
proof -
  from inv have ok: "returns_ok (sl_heap s) (sl_ret s)" "dones_ok s" "got_ok s" "heap_wf (sl_heap s)"
    "entries_ok (sl_heap s) (sl_touched s) (sl_ret s) (sl_entry s) (c_entries (sy_cache (sl_sys s)))" by (simp_all add: slice_inv_def)
  have "entries_ok m T (sl_ret s) (sl_entry s) (c_entries (sy_cache (sl_sys s)))"
    by (rule entries_okI) (use entries_okD [OF ok(5)] read nxt in auto)
  moreover have "returns_ok m (sl_ret s)" using ok(1) nxt by (simp add: returns_ok_def)
  moreover have "dones_ok ?t"
    by (rule dones_okI) (use dones_okD [OF ok(2)] read returns_okD [OF ok(1)] in auto)
  moreover have "got_ok ?t"
    by (rule got_ok_mono [OF ok(3)])
       (use touched in \<open>auto simp: leader_wrote_def was_given_def intro: faithful_mono split: option.splits\<close>)
  ultimately show ?thesis using inv wf by (simp add: slice_inv_def)
qed

lemma own_inv:
  assumes inv: "slice_inv inner c0 calls s"
  shows "slice_inv inner c0 calls (s\<lparr>sl_heap := new_bytes bs (sl_heap s)\<rparr>)"
proof -
  have wf: "heap_wf (sl_heap s)" using inv by (simp add: slice_inv_def)
  have "slice_inv inner c0 calls (s\<lparr>sl_heap := new_bytes bs (sl_heap s), sl_touched := sl_touched s\<rparr>)"
    by (rule bytes_inv [OF inv])
       (use wf grows_read [OF new_bytes_grows wf] in \<open>auto simp: new_bytes_wf, simp add: new_bytes_def\<close>)
  then show ?thesis by simp
qed

lemma scribble_ip_inv:
  assumes inv: "slice_inv inner c0 calls s"
  shows "slice_inv inner c0 calls
    (s\<lparr>sl_heap := (sl_heap s)\<lparr>sl_bytes := (sl_bytes (sl_heap s))(b := bs)\<rparr>, sl_touched := insert b (sl_touched s)\<rparr>)"
proof -
  have wf: "heap_wf (sl_heap s)" using inv by (simp add: slice_inv_def)
  show ?thesis by (rule bytes_inv [OF inv]) (use wf faithful_touch in \<open>auto simp: heap_wf_def\<close>)
qed

lemma slice_step_cache:
  assumes "slice_step iter inner s t"
  shows "cache_any iter inner (sl_sys s) (sl_sys t) \<or> sl_sys t = sl_sys s"
  using assms
proof cases
  case (hit i now e)
  then have "cache_enter i (key_at (sl_sys s) i) now (sy_cache (sl_sys s)) =
      (sy_cache (sl_sys s), Finished (cached_result (ce_addrs e) (ce_err e)))" by (simp add: cache_enter_def)
  from cache_step.enter [OF hit(2,3) this, of iter inner] hit(1) show ?thesis by (simp add: cache_any_def)
next
  case (woken i p v)
  with cache_step.woken [OF woken(2-4), of iter inner] show ?thesis by (simp add: cache_any_def)
next
  case (gone i p e)
  with cache_step.gone [OF gone(2-4), of iter inner] show ?thesis by (simp add: cache_any_def)
next
  case (complete i v tm tm')
  with cache_step.complete [of i "sl_sys s" inner v tm tm' iter] show ?thesis by (simp add: cache_any_def)
qed simp_all

context map_iteration
begin

lemma slice_step_inv:
  assumes step: "slice_step iter inner s t" and inv: "slice_inv inner c0 calls s"
  shows "slice_inv inner c0 calls t"
proof -
  from inv have ok: "cache_inv inner c0 calls (sl_sys s)" "dones_ok s"
    "entries_ok (sl_heap s) (sl_touched s) (sl_ret s) (sl_entry s) (c_entries (sy_cache (sl_sys s)))"
    "returns_ok (sl_heap s) (sl_ret s)" by (simp_all add: slice_inv_def)
  then have cinv: "cache_inv inner c0 calls (sl_sys t)"
    using slice_step_cache [OF step] cache_any_inv by metis
  from step show ?thesis
  proof cases
    case (other u)
    with cinv show ?thesis by (simp add: other_inv [OF inv])
  next
    case (hit i now e)
    with cinv entries_okD(1,2) [OF ok(3) hit(4)] show ?thesis by (auto intro!: return_copy_inv [OF inv])
  next
    case (woken i p v)
    have "key_at (sl_sys s) p = key_at (sl_sys s) i"
      using ok(1) woken(2,3) pending_ok_waiter unfolding cache_inv_def pending_inv_def by blast
    then have "leader_wrote s (key_at (sl_sys s) i)" if "p \<in> sl_wrote s"
      unfolding leader_wrote_def using that dones_okD(1) [OF ok(2) woken(4)] woken(4) by blast
    then have "faithful (sl_touched s) (slice_read (sl_heap s) (sl_done s p)) (fst v) \<or> leader_wrote s (key_at (sl_sys s) i)"
      using dones_okD(3,4) [OF ok(2) woken(4)] by fastforce
    with woken cinv dones_okD(3) [OF ok(2) woken(4)] returns_okD [OF ok(4), of p] show ?thesis
      by (auto intro!: return_copy_inv [OF inv])
  next
    case (gone i p e)
    with cinv return_copy_inv [OF inv gone(2), of "[]" "Some e" None] show ?thesis by (simp add: cached_result_def)
  next
    case (complete i v tm tm')
    with cinv show ?thesis by (simp add: return_lead_inv [OF inv complete(2,3) iter_perm refl])
  next
    case (own bs)
    with own_inv [OF inv] show ?thesis by simp
  next
    case (scribble i l xs)
    with scribble_inv [OF inv scribble(2,4)] show ?thesis by simp
  next
    case (scribble_ip b bs)
    with scribble_ip_inv [OF inv] show ?thesis by simp
  qed
qed

end

sublocale map_iteration \<subseteq> sliced: refinement_map "slice_step iter inner" "slice_inv inner c0 calls" "cache_any iter inner" sl_sys
  for inner c0 calls
proof unfold_locales
  show "slice_step iter inner s t \<Longrightarrow> slice_inv inner c0 calls s \<Longrightarrow> slice_inv inner c0 calls t" for s t
    by (rule slice_step_inv)
  show "slice_step iter inner s t \<Longrightarrow> slice_inv inner c0 calls s \<Longrightarrow> (cache_any iter inner)\<^sup>*\<^sup>* (sl_sys s) (sl_sys t)" for s t
    using slice_step_cache [of iter inner s t] by auto
qed

lemma slice_inv_init:
  "slice_inv inner (NewCache pos neg mx) calls (slice_init (cache_init (NewCache pos neg mx) t calls))"
proof -
  have "dones_ok (slice_init (cache_init (NewCache pos neg mx) t calls))"
    by (rule dones_okI) (simp add: slice_init_def cache_init_def)
  moreover have "got_ok (slice_init (cache_init (NewCache pos neg mx) t calls))"
    by (rule got_okI) (simp add: slice_init_def cache_init_def)
  ultimately show ?thesis
    using cache_inv_init [of inner pos neg mx calls t]
    by (simp add: slice_inv_def slice_init_def entries_ok_def returns_ok_def heap_wf_def) (simp add: cache_init_def NewCache_def)
qed

context map_iteration
begin

lemma slice_run:
  assumes "(slice_step iter inner)\<^sup>*\<^sup>* (slice_init (cache_init (NewCache pos neg mx) t calls)) s"
  shows "slice_inv inner (NewCache pos neg mx) calls s"
    and "(cache_any iter inner)\<^sup>*\<^sup>* (cache_init (NewCache pos neg mx) t calls) (sl_sys s)"
  using sliced.run_invar [OF assms slice_inv_init] sliced.run_refines [OF assms slice_inv_init]
  by (simp_all add: slice_init_def)

end

lemma slice_run_inv:
  assumes "\<And>xs. mset (iter xs) = mset xs"
    and "(slice_step iter inner)\<^sup>*\<^sup>* (slice_init (cache_init (NewCache pos neg mx) t calls)) s"
  shows "slice_inv inner (NewCache pos neg mx) calls s"
    and "(cache_any iter inner)\<^sup>*\<^sup>* (cache_init (NewCache pos neg mx) t calls) (sl_sys s)"
  using map_iteration.slice_run [OF map_iteration.intro assms(2)] assms(1) by blast+

section \<open>A run in which the leader's caller writes\<close>

lemma returned_stays:
  assumes "cache_any iter inner s t" and "returned s i"
  shows "returned t i"
  using assms(1) unfolding cache_any_def
proof
  assume "cache_step iter inner s t"
  then show ?thesis using assms(2) by cases (auto simp: returned_def set_pc_nth split: if_splits)
next
  assume "cache_env s t"
  with assms(2) show ?thesis by (simp add: returned_def cache_env_threads)
qed

text \<open>As long as no call has returned, the cache's runs are runs of this system.\<close>

lemma quiet_run:
  assumes "(cache_any iter inner)\<^sup>*\<^sup>* c d" and "\<And>i. \<not> returned d i"
  shows "(slice_step iter inner)\<^sup>*\<^sup>* (slice_init c) (slice_init d)"
  using assms
proof (induction rule: rtranclp_induct)
  case (step d e)
  then have none: "\<And>i. \<not> returned d i" using returned_stays by blast
  have "slice_step iter inner (slice_init d) ((slice_init d)\<lparr>sl_sys := e\<rparr>)"
    using step.hyps(2) step.prems none by (intro slice_step.other) (simp_all add: slice_init_def)
  then have "slice_step iter inner (slice_init d) (slice_init e)" by (simp add: slice_init_def)
  with step.IH [OF none] show ?case by (rule rtranclp.rtrancl_into_rtrancl)
qed simp

text \<open>The leader's caller replaces the element of its slice by one with another zone; then the waiting call is woken.\<close>

definition demo_other :: "elem list" where "demo_other = [\<lparr>el_ip = 0, el_zone = ''x''\<rparr>]"

abbreviation demo_elem :: "elem list" where "demo_elem \<equiv> [\<lparr>el_ip = 0, el_zone = []\<rparr>]"

abbreviation demo_heap :: "(nat \<Rightarrow> elem list) \<Rightarrow> nat \<Rightarrow> slices" where
  "demo_heap mem n \<equiv> \<lparr>sl_mem = mem, sl_next = n, sl_bytes = (\<lambda>b. [])(0 := [9, 9, 9, 9]), sl_bnext = 1\<rparr>"

definition demo_slices :: slice_sys where
  "demo_slices = \<lparr>sl_sys = demo_stored,
     sl_heap = demo_heap ((\<lambda>l. [])(0 := demo_other, 1 := demo_elem, 2 := demo_other)) 3,
     sl_entry = (\<lambda>k. None)(demo_key := Some 1), sl_done = (\<lambda>p. None)(0 := Some 0),
     sl_ret = (\<lambda>i. None)(0 := Some 0, 1 := Some 2),
     sl_got = [0 \<mapsto> [(0, \<lparr>IP = [9, 9, 9, 9], Zone = []\<rparr>)], 1 \<mapsto> [(0, \<lparr>IP = [9, 9, 9, 9], Zone = ''x''\<rparr>)]],
     sl_wrote = {0}, sl_touched = {}\<rparr>"

lemma demo_slices_run: "(slice_step rev demo_inner)\<^sup>*\<^sup>* (slice_init (cache_init (NewCache 300 10 1) 0 demo_calls)) demo_slices"
proof -
  note simps = demo_simps slice_init_def return_lead_def return_copy_def inner_slice_def cloneAddrs_def alloc_def demo_slices_def
    demo_other_def cache_complete_def entry_ttl_def evictLocked_def cached_result_def new_bytes_def slice_read_def
  have "\<not> returned demo_waiting i" for i
    by (cases i) (auto simp: returned_def demo_waiting_def demo_thread_def)
  then have "(slice_step rev demo_inner)\<^sup>*\<^sup>* (slice_init (cache_init (NewCache 300 10 1) 0 demo_calls)) (slice_init demo_waiting)"
    using demo_runs(1) by (intro quiet_run)
  moreover obtain s1 where s1: "slice_step rev demo_inner (slice_init demo_waiting) s1"
    and e1: "s1 = \<lparr>sl_sys = demo_stored\<lparr>sy_threads := [demo_thread (Finished demo_answer), demo_thread (Waiting 0)]\<rparr>,
      sl_heap = demo_heap ((\<lambda>l. [])(0 := demo_elem, 1 := demo_elem)) 2,
      sl_entry = (\<lambda>k. None)(demo_key := Some 1), sl_done = (\<lambda>p. None)(0 := Some 0), sl_ret = (\<lambda>i. None)(0 := Some 0),
      sl_got = [0 \<mapsto> [(0, \<lparr>IP = [9, 9, 9, 9], Zone = []\<rparr>)]], sl_wrote = {}, sl_touched = {}\<rparr>"
  proof (rule that)
    show "slice_step rev demo_inner (slice_init demo_waiting)
      ((return_lead 0 (key_at demo_waiting 0) (fst demo_answer) True (slice_init demo_waiting))
       \<lparr>sl_sys := demo_stored\<lparr>sy_threads := [demo_thread (Finished demo_answer), demo_thread (Waiting 0)]\<rparr>\<rparr>)"
      using slice_step.complete [of 0 "slice_init demo_waiting" demo_inner demo_answer 0 0 rev] by (simp add: simps)
  qed (simp add: simps numeral_2_eq_2)
  moreover obtain s2 where s2: "slice_step rev demo_inner s1 s2"
    and e2: "s2 = s1\<lparr>sl_heap := demo_heap ((\<lambda>l. [])(0 := demo_other, 1 := demo_elem)) 2, sl_wrote := {0}\<rparr>"
    using slice_step.scribble [of s1 0 0 demo_other rev demo_inner] by (simp add: e1 demo_other_def fun_upd_twist)
  moreover have "slice_step rev demo_inner s2 demo_slices"
    using slice_step.woken [of 1 s2 0 demo_answer rev demo_inner] by (simp add: e1 e2 simps fun_upd_twist numeral_3_eq_3 numeral_2_eq_2)
  ultimately show ?thesis by (meson rtranclp.rtrancl_into_rtrancl)
qed

text \<open>What the waiting call gets in that run is what the leader's caller wrote.\<close>

lemma leader_write_reaches_waiter:
  "\<exists>s. (slice_step rev demo_inner)\<^sup>*\<^sup>* (slice_init (cache_init (NewCache 300 10 1) 0 demo_calls)) s \<and>
     pc_at (sl_sys s) 1 = Finished demo_answer \<and> (\<exists>xs. sl_got s 1 = Some xs \<and> map snd xs \<noteq> fst demo_answer)"
  using demo_slices_run by (intro exI [of _ demo_slices]) (simp add: demo_slices_def demo_simps)

text \<open>A caller that writes to the bytes of an address it was given changes the cache's entry: the copies share them.\<close>

lemma ip_write_reaches_entry:
  "\<exists>s. (slice_step rev demo_inner)\<^sup>*\<^sup>* (slice_init (cache_init (NewCache 300 10 1) 0 demo_calls)) s \<and>
     map_of (c_entries (sy_cache (sl_sys s))) demo_key = Some \<lparr>ce_addrs = fst demo_answer, ce_err = None, ce_expires = 300\<rparr> \<and>
     map snd (slice_read (sl_heap s) (sl_entry s demo_key)) \<noteq> fst demo_answer"
proof -
  let ?s = "demo_slices\<lparr>sl_heap := (sl_heap demo_slices)\<lparr>sl_bytes := (sl_bytes (sl_heap demo_slices))(0 := [0, 0, 0, 0])\<rparr>,
    sl_touched := insert 0 (sl_touched demo_slices)\<rparr>"
  have "slice_step rev demo_inner demo_slices ?s" by (rule slice_step.scribble_ip) (simp_all add: demo_slices_def)
  then have "(slice_step rev demo_inner)\<^sup>*\<^sup>* (slice_init (cache_init (NewCache 300 10 1) 0 demo_calls)) ?s"
    by (rule rtranclp.rtrancl_into_rtrancl [OF demo_slices_run])
  then show ?thesis by (intro exI [of _ ?s]) (simp add: demo_slices_def demo_stored_def slice_read_def demo_answer_def)
qed

section \<open>Properties\<close>

text \<open>C13: slices and aliasing.  With the addresses in shared memory to which the callers may write, the cache still is
  the cache of values: every run is one of its runs, and no two calls share a slice.  The stored entries hold its
  addresses whatever the callers write to the elements of the slices they were given; and a
  call that has returned was given the addresses it should have, unless a caller that led a lookup
  of the same key has written to the elements of its slice, which the pending lookup still refers to.  Both
  are up to the bytes of the addresses: \<open>cloneAddrs\<close> copies the elements only, so that all copies of an
  address share its bytes, and those are as they should be as long as no caller writes to them.\<close>

theorem cached_slices_isolated:
  assumes "\<And>xs. mset (iter xs) = mset xs"
    and "(slice_step iter inner)\<^sup>*\<^sup>* (slice_init (cache_init (NewCache pos neg mx) t calls)) s"
  shows "(cache_any iter inner)\<^sup>*\<^sup>* (cache_init (NewCache pos neg mx) t calls) (sl_sys s) \<and> returns_ok (sl_heap s) (sl_ret s) \<and>
    (\<forall>key e. map_of (c_entries (sy_cache (sl_sys s))) key = Some e \<longrightarrow>
       faithful (sl_touched s) (slice_read (sl_heap s) (sl_entry s key)) (ce_addrs e)) \<and>
    (\<forall>i v. i < length calls \<and> pc_at (sl_sys s) i = Finished v \<longrightarrow>
       was_given s i (fst v) \<or> leader_wrote s (key_at (sl_sys s) i))"
proof -
  note run = slice_run_inv [OF assms]
  then have "length (sy_threads (sl_sys s)) = length calls"
    by (auto simp: slice_inv_def cache_inv_def calls_of_def)
  then have "was_given s i (fst v) \<or> leader_wrote s (key_at (sl_sys s) i)"
    if "i < length calls" "pc_at (sl_sys s) i = Finished v" for i v
    using run(1) that by (intro got_okD) (simp_all add: slice_inv_def)
  with run show ?thesis by (simp add: slice_inv_def entries_ok_def)
qed

theorem cached_slices_isolated_witness:
  "map snd (slice_read (sl_heap demo_slices) (sl_entry demo_slices demo_key)) = fst demo_answer \<and>
   returns_ok (sl_heap demo_slices) (sl_ret demo_slices) \<and> \<not> was_given demo_slices 1 (fst demo_answer) \<and>
   leader_wrote demo_slices demo_key"
proof -
  note p = cached_slices_isolated [OF _ demo_slices_run]
  have "map_of (c_entries (sy_cache (sl_sys demo_slices))) demo_key = Some \<lparr>ce_addrs = fst demo_answer, ce_err = None, ce_expires = 300\<rparr>"
    and f: "pc_at (sl_sys demo_slices) 1 = Finished demo_answer" and k: "key_at (sl_sys demo_slices) 1 = demo_key"
    by (simp_all add: demo_slices_def demo_stored_def demo_thread_def th_key_def demo_key_def)
  with p have "faithful (sl_touched demo_slices) (slice_read (sl_heap demo_slices) (sl_entry demo_slices demo_key)) (fst demo_answer)"
    by fastforce
  moreover have "sl_touched demo_slices = {}" by (simp add: demo_slices_def)
  moreover have n: "\<not> was_given demo_slices 1 (fst demo_answer)"
    by (simp add: was_given_def demo_slices_def demo_answer_def faithful_def)
  moreover have "1 < length demo_calls" by (simp add: demo_calls_def)
  with p f n k have "leader_wrote demo_slices demo_key" by fastforce
  ultimately show ?thesis using p by (simp add: faithful_untouched)
qed

end
