(* ===== verification/Dns.thy ===== *)
theory Dns
  imports Cache Config
begin

text \<open>
  Package \<open>dns\<close>: the resolver the proxy uses.  \<open>NewDns\<close> builds a cache over a chain of the configured
  upstreams, \<open>ResolveHost\<close> answers for a host.  A value of the interface \<open>Resolver\<close> is one of the
  five implementations; \<open>Resolver_Resolve\<close> is the call through the interface.  The record
  \<open>dns_world\<close> collects what lies outside the sources.
\<close>

section \<open>Resolvers\<close>

text \<open>A \<open>Cache\<close> has the arguments of \<open>NewCache\<close>, a \<open>ChainResolver\<close> its time per try; times are in
  milliseconds here.\<close>

datatype Resolver =
    General GeneralResolver
  | DOH DOHResolver
  | System
  | ChainOf "Resolver list" nat
  | CacheOf Resolver int int int

fun Resolver_String :: "Resolver \<Rightarrow> string" where
  "Resolver_String (General r) = GeneralResolver_String r"
| "Resolver_String (DOH r) = DOHResolver_String r"
| "Resolver_String System = SystemResolver_String"
| "Resolver_String (ChainOf rs perTry) = ChainResolver_String (map Resolver_String rs)"
| "Resolver_String (CacheOf r pos neg mx) = Cache_String (Resolver_String r)"

definition NewChainResolver :: "Resolver list \<Rightarrow> nat \<Rightarrow> Resolver" where
  "NewChainResolver resolvers perTry = ChainOf resolvers perTry"

record dns_world =
  w_env :: net_env
  w_fqdn :: "string \<Rightarrow> string"
  w_exchange :: ExchangeContext
  w_doh :: doh_env
  w_LookupIP :: LookupIP
  w_prio :: "(string \<times> cacheEntry) list \<Rightarrow> string \<Rightarrow> nat"
  w_ParseIP :: "string \<Rightarrow> bytes option"
  w_IPString :: "bytes \<Rightarrow> string"

fun Resolver_Resolve :: "dns_world \<Rightarrow> Resolver \<Rightarrow> resolve_rel" where
  "Resolver_Resolve w (General r) = GeneralResolver_Resolve (w_env w) (w_fqdn w) (w_exchange w) r"
| "Resolver_Resolve w (DOH r) = DOHResolver_Resolve (w_env w) (w_fqdn w) (w_doh w) r"
| "Resolver_Resolve w System = (\<lambda>host qTypes v. v = SystemResolver_Resolve (w_env w) (w_LookupIP w) host qTypes)"
| "Resolver_Resolve w (ChainOf rs perTry) = chain_returns (map (\<lambda>r. (Resolver_String r, Resolver_Resolve w r)) rs)"
| "Resolver_Resolve w (CacheOf r pos neg mx) =
     cache_returns (iter_by (w_prio w)) (Resolver_Resolve w r) (NewCache pos neg mx)"

section \<open>Construction\<close>

record Dns =
  d_systemClient :: Resolver
  d_bypassClient :: Resolver
  d_qTypes :: "uint16 list"
  d_totalBudget :: nat

text \<open>\<open>addPlain\<close> on the servers seen so far and the chain.\<close>

definition addPlain :: "string \<Rightarrow> string \<Rightarrow> string list \<times> Resolver list \<Rightarrow> string list \<times> Resolver list" where
  "addPlain port addr0 acc =
     (let addr = strings_TrimSpace addr0
      in if addr = [] then acc
         else let server = net_JoinHostPort addr port
              in if server \<in> set (fst acc) then acc
                 else (fst acc @ [server], snd acc @ [General (NewGeneralResolver server)]))"

definition upstream_chain :: "doh_env \<Rightarrow> Config \<Rightarrow> Resolver list" where
  "upstream_chain doh config =
     (let port = strconv_Itoa (DnsPort config);
          chain = snd (fold (addPlain port) (DnsFallback config) (addPlain port (DnsAddr config) ([], [])))
      in if EnableDoh config \<and> DohUrl config \<noteq> []
         then chain @ [DOH (NewDOHResolver doh (DohUrl config) (DohBootstrapIp config))] else chain)"

definition NewDns :: "doh_env \<Rightarrow> Config \<Rightarrow> Dns" where
  "NewDns doh config =
     \<lparr>d_systemClient = System,
      d_bypassClient = CacheOf (NewChainResolver (upstream_chain doh config) 1500) 300000 10000 4096,
      d_qTypes = (if DnsIPv4Only config then [TypeA] else [TypeAAAA, TypeA]),
      d_totalBudget = 3000\<rparr>"

section \<open>ResolveHost\<close>

definition IPAddr_String :: "dns_world \<Rightarrow> net_IPAddr \<Rightarrow> string" where
  "IPAddr_String w a = (if Zone a \<noteq> [] then w_IPString w (IP a) @ ''%'' @ Zone a else w_IPString w (IP a))"

definition parseIpAddr :: "dns_world \<Rightarrow> string \<Rightarrow> net_IPAddr result" where
  "parseIpAddr w addr =
     (case w_ParseIP w addr of
        None \<Rightarrow> Inl (ErrString ''not an ip address'')
      | Some ip \<Rightarrow> Inr \<lparr>IP = ip, Zone = []\<rparr>)"

definition resolved :: "dns_world \<Rightarrow> Resolver \<Rightarrow> string \<Rightarrow> resolve_result \<Rightarrow> string result" where
  "resolved w clt host v =
     (case snd v of
        Some err \<Rightarrow> Inl (ErrWrap (Resolver_String clt) err)
      | None \<Rightarrow>
          if fst v = [] then Inl (ErrString (Resolver_String clt @ '' returned no addresses for '' @ host))
          else Inr (IPAddr_String w (fst v ! 0)))"

definition client_for :: "Dns \<Rightarrow> bool \<Rightarrow> Resolver" where
  "client_for d useSystemDns = (if useSystemDns then d_systemClient d else d_bypassClient d)"

definition ResolveHost :: "dns_world \<Rightarrow> Dns \<Rightarrow> string \<Rightarrow> bool \<Rightarrow> bool \<Rightarrow> string result \<Rightarrow> bool" where
  "ResolveHost w d host enableDoh useSystemDns v \<longleftrightarrow>
     (case parseIpAddr w host of
        Inr ip \<Rightarrow> v = Inr (IPAddr_String w ip)
      | Inl err \<Rightarrow>
          (\<exists>r. Resolver_Resolve w (client_for d useSystemDns) host (d_qTypes d) r \<and>
               v = resolved w (client_for d useSystemDns) host r))"

lemma ResolveHost_lookup:
  assumes "w_ParseIP w host = None" and "Resolver_Resolve w (client_for d sys) host (d_qTypes d) (addrs, None)"
    and "addrs \<noteq> []"
  shows "ResolveHost w d host enableDoh sys (Inr (IPAddr_String w (addrs ! 0)))"
proof -
  have "Inr (IPAddr_String w (addrs ! 0)) = resolved w (client_for d sys) host (addrs, None)"
    using assms(3) by (simp add: resolved_def)
  with assms(2) have "\<exists>r. Resolver_Resolve w (client_for d sys) host (d_qTypes d) r \<and>
      Inr (IPAddr_String w (addrs ! 0)) = resolved w (client_for d sys) host r" by blast
  then show ?thesis using assms(1) by (simp only: ResolveHost_def parseIpAddr_def option.case sum.case)
qed

section \<open>Every resolver keeps the contract\<close>

text \<open>The upstreams a resolver is made of, and that one of them gave an address.\<close>

fun leaves :: "Resolver \<Rightarrow> Resolver list" where
  "leaves (ChainOf rs perTry) = concat (map leaves rs)"
| "leaves (CacheOf r pos neg mx) = leaves r"
| "leaves r = [r]"

fun leaf_gave :: "dns_world \<Rightarrow> Resolver \<Rightarrow> string \<Rightarrow> uint16 list \<Rightarrow> net_IPAddr \<Rightarrow> bool" where
  "leaf_gave w (General r) = answered (w_fqdn w) (general_exchange (w_exchange w) r)"
| "leaf_gave w (DOH r) = answered (w_fqdn w) (doh_exchange (w_doh w) r)"
| "leaf_gave w System = system_genuine (w_LookupIP w)"
| "leaf_gave w r = (\<lambda>host qTypes a. False)"

definition upstream_gave :: "dns_world \<Rightarrow> Resolver \<Rightarrow> string \<Rightarrow> uint16 list \<Rightarrow> net_IPAddr \<Rightarrow> bool" where
  "upstream_gave w r host qTypes a \<longleftrightarrow> (\<exists>leaf \<in> set (leaves r). leaf_gave w leaf host qTypes a)"

lemma resolver_interface_mono:
  assumes "resolver_interface r g" and "\<And>h qs a. g h qs a \<Longrightarrow> g' h qs a"
  shows "resolver_interface r g'"
  using assms unfolding resolver_interface_def by blast

lemma Resolver_interface: "resolver_interface (Resolver_Resolve w r) (upstream_gave w r)"
proof (induction r)
  case (General r)
  show ?case
    by (rule resolver_interface_mono)
       (simp_all add: general.resolver_interface_axioms upstream_gave_def)
next
  case (DOH r)
  show ?case
    by (rule resolver_interface_mono)
       (simp_all add: doh.resolver_interface_axioms upstream_gave_def)
next
  case System
  show ?case
    by (rule resolver_interface_mono)
       (simp_all add: system.resolver_interface_axioms upstream_gave_def)
next
  case (ChainOf rs perTry)
  have "resolver_interface (Resolver_Resolve w r) (upstream_gave w (ChainOf rs perTry))" if "r \<in> set rs" for r
    by (rule resolver_interface_mono [OF ChainOf.IH [OF that]]) (use that in \<open>auto simp: upstream_gave_def\<close>)
  then have "resolver_chain (map (\<lambda>r. (Resolver_String r, Resolver_Resolve w r)) rs) (upstream_gave w (ChainOf rs perTry))"
    by (intro resolver_chain.intro) auto
  then show ?case unfolding Resolver_Resolve.simps by (rule resolver_chain.chain_interface)
next
  case (CacheOf r pos neg mx)
  then have "cached_resolver (Resolver_Resolve w r) (upstream_gave w r) (iter_by (w_prio w))"
    by (simp add: cached_resolver_def go_map.map_iteration_axioms)
  then have "resolver_interface (Resolver_Resolve w (CacheOf r pos neg mx)) (upstream_gave w r)"
    unfolding Resolver_Resolve.simps by (rule cached_resolver.cache_interface)
  then show ?case by (rule resolver_interface_mono) (simp add: upstream_gave_def)
qed

text \<open>The interfaces between cache, chain and upstreams, on the resolvers of the program.\<close>

interpretation any: resolver_interface "Resolver_Resolve w r" "upstream_gave w r" for w r
  by (rule Resolver_interface)

interpretation upstreams: resolver_chain
  "map (\<lambda>r. (Resolver_String r, Resolver_Resolve w r)) rs" "upstream_gave w (ChainOf rs perTry)" for w rs perTry
proof (rule resolver_chain.intro)
  fix r
  assume "r \<in> set (map (\<lambda>r. (Resolver_String r, Resolver_Resolve w r)) rs)"
  then obtain q where q: "q \<in> set rs" "snd r = Resolver_Resolve w q" by auto
  show "resolver_interface (snd r) (upstream_gave w (ChainOf rs perTry))"
    unfolding q(2) by (rule resolver_interface_mono [OF Resolver_interface]) (use q(1) in \<open>auto simp: upstream_gave_def\<close>)
qed

interpretation bypass: cached_resolver "Resolver_Resolve w r" "upstream_gave w r" "iter_by (w_prio w)" for w r
  by (simp add: cached_resolver_def go_map.map_iteration_axioms Resolver_interface)

section \<open>The chain that is built\<close>

abbreviation plain :: "string \<Rightarrow> Resolver" where
  "plain server \<equiv> General (NewGeneralResolver server)"

definition server_of :: "string \<Rightarrow> string \<Rightarrow> string list" where
  "server_of port addr = (let a = strings_TrimSpace addr in if a = [] then [] else [net_JoinHostPort a port])"

definition plain_ok :: "string list \<times> Resolver list \<Rightarrow> bool" where
  "plain_ok acc \<longleftrightarrow> distinct (fst acc) \<and> snd acc = map plain (fst acc)"

lemma addPlain_ok:
  assumes "plain_ok acc"
  shows "plain_ok (addPlain port addr acc)"
    and "set (fst (addPlain port addr acc)) = set (fst acc) \<union> set (server_of port addr)"
  using assms by (auto simp: addPlain_def plain_ok_def server_of_def Let_def)

lemma fold_addPlain_ok:
  assumes "plain_ok acc"
  shows "plain_ok (fold (addPlain port) addrs acc) \<and>
    set (fst (fold (addPlain port) addrs acc)) = set (fst acc) \<union> (\<Union>a \<in> set addrs. set (server_of port a))"
  using assms
proof (induction addrs arbitrary: acc)
  case Nil
  then show ?case by simp
next
  case (Cons a addrs)
  from Cons.IH [OF addPlain_ok(1) [OF Cons.prems, of port a]] addPlain_ok(2) [OF Cons.prems, of port a]
  show ?case by auto
qed

lemma upstream_chain_cases:
  obtains servers where "distinct servers"
    and "set servers = (\<Union>a \<in> set (DnsAddr config # DnsFallback config). set (server_of (strconv_Itoa (DnsPort config)) a))"
    and "upstream_chain doh config = map plain servers @
      (if EnableDoh config \<and> DohUrl config \<noteq> [] then [DOH (NewDOHResolver doh (DohUrl config) (DohBootstrapIp config))] else [])"
proof -
  let ?port = "strconv_Itoa (DnsPort config)"
  have ok0: "plain_ok ([], [])" by (simp add: plain_ok_def)
  note ok1 = addPlain_ok [OF ok0, of ?port "DnsAddr config"]
  note ok = fold_addPlain_ok [OF ok1(1), of ?port "DnsFallback config"]
  let ?acc = "fold (addPlain ?port) (DnsFallback config) (addPlain ?port (DnsAddr config) ([], []))"
  show ?thesis
    by (rule that [of "fst ?acc"]) (use ok ok1(2) in \<open>auto simp: plain_ok_def upstream_chain_def Let_def\<close>)
qed

lemma leaves_upstream_chain: "concat (map leaves (upstream_chain doh config)) = upstream_chain doh config"
  by (rule upstream_chain_cases [of config doh]) (auto simp: comp_def List.concat_map_singleton)

text \<open>An address that is returned for a name was given by an upstream of the client that was asked.\<close>

lemma ResolveHost_literal: "ResolveHost w d host enableDoh sys (Inr s) \<Longrightarrow> w_ParseIP w host = Some ip \<Longrightarrow> s = w_IPString w ip"
  by (simp add: ResolveHost_def parseIpAddr_def IPAddr_String_def)

lemma ResolveHost_leaf:
  assumes "ResolveHost w (NewDns (w_doh w) config) host enableDoh sys (Inr s)" and "w_ParseIP w host = None"
  shows "\<exists>a r. s = IPAddr_String w a \<and> leaf_gave w r host (d_qTypes (NewDns (w_doh w) config)) a \<and>
    (if sys then r = System else r \<in> set (upstream_chain (w_doh w) config))"
proof -
  let ?d = "NewDns (w_doh w) config"
  from assms obtain v where v: "Resolver_Resolve w (client_for ?d sys) host (d_qTypes ?d) v"
    and s: "Inr s = resolved w (client_for ?d sys) host v"
    by (auto simp: ResolveHost_def parseIpAddr_def)
  obtain addrs err where ve: "v = (addrs, err)" by (cases v)
  with s have "err = None" "addrs \<noteq> []" "s = IPAddr_String w (addrs ! 0)"
    by (auto simp: resolved_def split: option.splits if_splits)
  with any.resolve_first [of w "client_for ?d sys" host "d_qTypes ?d" addrs] v ve
  have "upstream_gave w (client_for ?d sys) host (d_qTypes ?d) (addrs ! 0)" by simp
  moreover have "set (leaves (client_for ?d sys)) = (if sys then {System} else set (upstream_chain (w_doh w) config))"
    by (simp add: client_for_def NewDns_def NewChainResolver_def leaves_upstream_chain [simplified])
  ultimately have "\<exists>r. leaf_gave w r host (d_qTypes ?d) (addrs ! 0) \<and> (if sys then r = System else r \<in> set (upstream_chain (w_doh w) config))"
    unfolding upstream_gave_def by (cases sys) auto
  with \<open>s = _\<close> show ?thesis by blast
qed

lemma Resolver_total: "\<exists>v. Resolver_Resolve w r host qTypes v"
proof (induction r)
  case (General g)
  then show ?case using lookup_returns_all [of "w_fqdn w" host "general_exchange (w_exchange w) g" qTypes "w_env w"]
    by (simp del: split_paired_Ex add: GeneralResolver_Resolve_def) blast
next
  case (DOH d)
  then show ?case using lookup_returns_all [of "w_fqdn w" host "doh_exchange (w_doh w) d" qTypes "w_env w"]
    by (simp del: split_paired_Ex add: DOHResolver_Resolve_def) blast
next
  case System
  then show ?case by simp
next
  case (ChainOf rs perTry)
  then show ?case unfolding Resolver_Resolve.simps by (intro chain_returns_total) auto
next
  case (CacheOf r pos neg mx)
  then show ?case unfolding Resolver_Resolve.simps using cache_returns_fresh by blast
qed

lemma ResolveHost_total: "\<exists>v. ResolveHost w d host enableDoh sys v"
  using Resolver_total [of w "client_for d sys" host "d_qTypes d"]
  by (cases "parseIpAddr w host") (auto simp: ResolveHost_def)

section \<open>Properties\<close>

text \<open>C19: the resolver for bypassed traffic consults exactly the configured upstreams: one plain resolver for
  each different non-blank server address, the DNS-over-HTTPS resolver when it is enabled, and never
  the system's own resolver.\<close>

theorem bypass_chain_upstreams:
  "\<exists>servers. leaves (d_bypassClient (NewDns doh config)) = map plain servers @
       (if EnableDoh config \<and> DohUrl config \<noteq> [] then [DOH (NewDOHResolver doh (DohUrl config) (DohBootstrapIp config))] else []) \<and>
     distinct servers \<and>
     set servers = {net_JoinHostPort (strings_TrimSpace a) (strconv_Itoa (DnsPort config)) | a.
       a \<in> set (DnsAddr config # DnsFallback config) \<and> strings_TrimSpace a \<noteq> []} \<and>
     System \<notin> set (leaves (d_bypassClient (NewDns doh config)))"
proof (rule upstream_chain_cases [of config doh])
  fix servers
  assume "distinct servers"
    and set: "set servers = (\<Union>a \<in> set (DnsAddr config # DnsFallback config). set (server_of (strconv_Itoa (DnsPort config)) a))"
    and chain: "upstream_chain doh config = map plain servers @
      (if EnableDoh config \<and> DohUrl config \<noteq> [] then [DOH (NewDOHResolver doh (DohUrl config) (DohBootstrapIp config))] else [])"
  moreover have "leaves (d_bypassClient (NewDns doh config)) = upstream_chain doh config"
    by (simp add: NewDns_def NewChainResolver_def leaves_upstream_chain)
  moreover have "set servers = {net_JoinHostPort (strings_TrimSpace a) (strconv_Itoa (DnsPort config)) | a.
       a \<in> set (DnsAddr config # DnsFallback config) \<and> strings_TrimSpace a \<noteq> []}"
    unfolding set server_of_def Let_def by (auto split: if_splits)
  ultimately show ?thesis by (intro exI [of _ servers]) auto
qed

text \<open>C18: an address the proxy dials for a bypassed host was given for that host by one of the configured
  upstreams, through chain and cache and whatever the interleaving of concurrent lookups; a
  host that is an address already is used as it is, without any lookup.\<close>

theorem ResolveHost_from_upstream:
  assumes "ResolveHost w (NewDns (w_doh w) config) host enableDoh False (Inr s)"
  shows "(\<exists>ip. w_ParseIP w host = Some ip \<and> s = w_IPString w ip) \<or>
    (w_ParseIP w host = None \<and>
     (\<exists>a r. s = IPAddr_String w a \<and> r \<in> set (upstream_chain (w_doh w) config) \<and>
        leaf_gave w r host (d_qTypes (NewDns (w_doh w) config)) a))"
proof (cases "w_ParseIP w host")
  case (Some ip)
  with ResolveHost_literal [OF assms Some] show ?thesis by simp
next
  case None
  with ResolveHost_leaf [OF assms None] show ?thesis by auto
qed

text \<open>A configuration with one plain server, which answers every query with one address.\<close>

definition demo_world :: dns_world where
  "demo_world =
     \<lparr>w_env = demo_env, w_fqdn = (\<lambda>h. h @ ''.''), w_exchange = (\<lambda>c q server. demo_exchange q),
      w_doh = \<lparr>url_Parse = (\<lambda>s. Inl ErrInvalid), url_String = url_Host, http_NewRequest = (\<lambda>s. None),
        http_Do = (\<lambda>u a. Inl ErrTimeout), msg_Pack = (\<lambda>q. Inl ErrInvalid), msg_Unpack = (\<lambda>b. Inl ErrInvalid),
        RcodeToString = format_nat\<rparr>,
      w_LookupIP = (\<lambda>n h. Inl ErrTimeout), w_prio = (\<lambda>es k. 0),
      w_ParseIP = (\<lambda>s. if s = ''9.9.9.9'' then Some [9, 9, 9, 9] else None), w_IPString = (\<lambda>ip. ''9.9.9.9'')\<rparr>"

definition demo_config :: Config where
  "demo_config = zero_Config\<lparr>Port := 8080, DnsAddr := ''9.9.9.9'', DnsPort := 53, DnsIPv4Only := True, WindowSize := 5\<rparr>"

lemma demo_upstreams: "upstream_chain doh demo_config = [plain ''9.9.9.9:53'']"
  by (simp add: upstream_chain_def demo_config_def zero_Config_def addPlain_def Let_def strings_TrimSpace_def is_space_def
      net_JoinHostPort_def strconv_Itoa_def format_nat.simps digit_char_def) (simp add: char_of_def bit_iff_odd)

lemma demo_resolves:
  assumes "host \<noteq> ''9.9.9.9''"
  shows "ResolveHost demo_world (NewDns (w_doh demo_world) demo_config) host False False (Inr ''9.9.9.9'')"
proof -
  let ?a = "\<lparr>IP = [9, 9, 9, 9], Zone = []\<rparr>" and ?g = "NewGeneralResolver ''9.9.9.9:53''"
  let ?x = "general_exchange (w_exchange demo_world) ?g"
  let ?r = "lookupType (\<lambda>h. h @ ''.'') host TypeA ?x"
  have x: "?x q = demo_exchange q" for q
    by (simp add: general_exchange_def demo_world_def demo_exchange_def)
  obtain rcvd where "mset rcvd = {#?r#}"
    and ret: "lookup_returns demo_env (\<lambda>h. h @ ''.'') ?x host [TypeA] (lookup_outcome demo_env None rcvd)"
    using lookup_returns_all [of "\<lambda>h. h @ ''.''" host ?x "[TypeA]" demo_env] by auto
  then have "rcvd = [?r]" by simp
  moreover have "result_addrs ?r = [?a]"
    by (simp add: result_addrs_def lookupType_def x demo_exchange_def parseAddrsFromMsg_def)
  ultimately have "lookup_outcome demo_env None rcvd = ([?a], None)"
    by (simp add: lookup_outcome_def stable_sort_short)
  with ret have "Resolver_Resolve demo_world (General ?g) host [TypeA] ([?a], None)"
    by (simp add: GeneralResolver_Resolve_def demo_world_def)
  then have "Resolver_Resolve demo_world (ChainOf [General ?g] 1500) host [TypeA] ([?a], None)"
    by (simp add: chain_returns_single)
  then have "Resolver_Resolve demo_world (CacheOf (ChainOf [General ?g] 1500) 300000 10000 4096) host [TypeA] ([?a], None)"
    unfolding Resolver_Resolve.simps(5) by (rule cache_returns_fresh)
  moreover have "client_for (NewDns doh demo_config) False = CacheOf (ChainOf [General ?g] 1500) 300000 10000 4096"
    and "d_qTypes (NewDns doh demo_config) = [TypeA]" for doh
    by (simp_all add: client_for_def NewDns_def NewChainResolver_def demo_upstreams) (simp add: demo_config_def)
  moreover have "w_ParseIP demo_world host = None" using assms by (simp add: demo_world_def)
  ultimately show ?thesis
    using ResolveHost_lookup [of demo_world host "NewDns (w_doh demo_world) demo_config" False "[?a]" False]
    by (simp add: IPAddr_String_def del: Resolver_Resolve.simps) (simp add: demo_world_def)
qed

theorem ResolveHost_from_upstream_witness:
  "ResolveHost demo_world (NewDns (w_doh demo_world) demo_config) ''a.tr'' False False (Inr ''9.9.9.9'') \<and>
   (\<exists>a r. ''9.9.9.9'' = IPAddr_String demo_world a \<and> r \<in> set (upstream_chain (w_doh demo_world) demo_config) \<and>
      leaf_gave demo_world r ''a.tr'' [TypeA] a)"
  using ResolveHost_from_upstream [OF demo_resolves [of "''a.tr''"]] demo_resolves [of "''a.tr''"]
  by (simp add: demo_world_def NewDns_def NewChainResolver_def demo_config_def zero_Config_def)

end
