(* ===== verification/Chunks.thy ===== *)
theory Chunks
  imports Go_IO
begin

text \<open>
  Package \<open>proxy/handler\<close>, file \<open>https.go\<close>: the fragmentation of the ClientHello.  An iterator is the
  list of the fragments it yields; \<open>writeChunks\<close> writes each of them with a call of its own, so each
  is a segment of the sink.
\<close>

text \<open>\<open>slices.Chunk\<close> for a positive size.\<close>

function slices_Chunk :: "bytes \<Rightarrow> nat \<Rightarrow> bytes list" where
  "slices_Chunk s n = (if s = [] \<or> n = 0 then [] else take n s # slices_Chunk (drop n s) n)"
  by pat_completeness auto
termination by (relation "measure (\<lambda>(s, n). length s)") auto

declare slices_Chunk.simps [simp del]

definition splitInChunks :: "bytes \<Rightarrow> int \<Rightarrow> bytes list" where
  "splitInChunks bs siz =
     (if siz \<le> 0 then
        (if length bs = 0 then []
         else if length bs < 2 then [bs]
         else [take 1 bs, drop 1 bs])
      else slices_Chunk bs (nat siz))"

text \<open>The loop of \<open>writeChunks\<close>: number of bytes written, error, connection.\<close>

fun write_chunks_from :: "nat \<Rightarrow> nat \<Rightarrow> sink \<Rightarrow> bytes list \<Rightarrow> nat \<times> go_error option \<times> sink" where
  "write_chunks_from tot i k [] = (tot, None, k)"
| "write_chunks_from tot i k (c # cs) =
     (case conn_Write k c of
        (n, Some err, k') \<Rightarrow> (tot + n, Some (ErrWrap (''chunk '' @ format_nat (Suc i)) err), k')
      | (n, None, k') \<Rightarrow> write_chunks_from (tot + n) (Suc i) k' cs)"

definition writeChunks :: "sink \<Rightarrow> bytes list \<Rightarrow> nat \<times> go_error option \<times> sink" where
  "writeChunks k chunks = write_chunks_from 0 0 k chunks"

section \<open>Lemmas\<close>

lemma slices_Chunk_Nil [simp]: "slices_Chunk [] n = []"
  by (simp add: slices_Chunk.simps [of "[]"])

lemma concat_slices_Chunk: "0 < n \<Longrightarrow> concat (slices_Chunk s n) = s"
proof (induction s n rule: slices_Chunk.induct)
  case (1 s n)
  then show ?case by (cases "s = []") (simp_all add: slices_Chunk.simps [of s n])
qed

lemma slices_Chunk_sizes:
  assumes "0 < n" and "c \<in> set (slices_Chunk s n)"
  shows "0 < length c \<and> length c \<le> n"
  using assms
proof (induction s n rule: slices_Chunk.induct)
  case (1 s n)
  show ?case
  proof (cases "s = []")
    case True
    with 1 show ?thesis by (simp add: slices_Chunk.simps [of s n])
  next
    case False
    with "1.prems" have "c = take n s \<or> c \<in> set (slices_Chunk (drop n s) n)"
      by (simp add: slices_Chunk.simps [of s n])
    with False 1 show ?thesis by auto
  qed
qed

lemma slices_Chunk_full: "0 < n \<Longrightarrow> c \<in> set (butlast (slices_Chunk s n)) \<Longrightarrow> length c = n"
proof (induction s n rule: slices_Chunk.induct)
  case (1 s n)
  show ?case
  proof (cases "s = []")
    case True
    with 1 show ?thesis by (simp add: slices_Chunk.simps [of s n])
  next
    case False
    have eq: "slices_Chunk s n = take n s # slices_Chunk (drop n s) n"
      using False "1.prems"(1) by (simp add: slices_Chunk.simps [of s n])
    have rest: "slices_Chunk (drop n s) n \<noteq> []" using "1.prems"(2) eq by auto
    then have "n < length s" by (metis drop_eq_Nil not_le slices_Chunk_Nil)
    moreover have "c = take n s \<or> c \<in> set (butlast (slices_Chunk (drop n s) n))"
      using "1.prems"(2) rest unfolding eq by simp
    moreover have "length c = n" if "c \<in> set (butlast (slices_Chunk (drop n s) n))"
      using "1.IH" False "1.prems"(1) that by simp
    ultimately show ?thesis by auto
  qed
qed

lemma length_slices_Chunk: "0 < n \<Longrightarrow> length (slices_Chunk s n) = (length s + n - 1) div n"
proof (induction s n rule: slices_Chunk.induct)
  case (1 s n)
  show ?case
  proof (cases "s = []")
    case True
    with 1 show ?thesis by (simp add: slices_Chunk.simps [of s n])
  next
    case False
    have IH: "length (slices_Chunk (drop n s) n) = (length s - n + n - 1) div n"
      using 1 False by simp
    have eq: "length (slices_Chunk s n) = Suc (length (slices_Chunk (drop n s) n))"
      using False "1.prems" by (simp add: slices_Chunk.simps [of s n])
    show ?thesis
    proof (cases "n \<le> length s")
      case True
      with "1.prems" have "length s + n - 1 = (length s - n + n - 1) + n" by simp
      then have "(length s + n - 1) div n = (length s - n + n - 1) div n + 1"
        using "1.prems" by (simp only: div_add_self2 neq0_conv)
      then show ?thesis unfolding eq IH by simp
    next
      case short: False
      from False have "0 < length s" by simp
      with short have "length s + n - 1 = (length s - 1) + n" "length s - 1 < n" by linarith+
      then have "(length s + n - 1) div n = 1"
        using "1.prems" by (simp only: div_add_self2 neq0_conv div_less)
      moreover have "slices_Chunk (drop n s) n = []" using short by simp
      ultimately show ?thesis unfolding eq by simp
    qed
  qed
qed

text \<open>Without a write error everything is written, one segment per chunk; an error tells which chunk
  failed and everything before it, with a part of it, is written.\<close>

lemma write_chunks_from_spec:
  assumes "write_chunks_from tot i k cs = (n, err, k')"
  shows "\<exists>m p. m \<le> length cs \<and>
    sk_segments k' = sk_segments k @ take m cs @ p \<and> n = tot + length (concat (take m cs @ p)) \<and>
    (case err of
       None \<Rightarrow> m = length cs \<and> p = []
     | Some e \<Rightarrow> m < length cs \<and> (\<exists>j e0. p = [take j (cs ! m)] \<and> j < length (cs ! m) \<and>
         e = ErrWrap (''chunk '' @ format_nat (Suc (i + m))) e0))"
  using assms
proof (induction tot i k cs rule: write_chunks_from.induct)
  case (1 tot i k)
  then show ?case by auto
next
  case (2 tot i k c cs)
  obtain w e k1 where w: "conn_Write k c = (w, e, k1)" by (metis prod_cases3)
  note spec = conn_Write_spec [OF w]
  show ?case
  proof (cases e)
    case (Some err0)
    with spec(1,3) have "w < length c" by simp
    with Some spec w "2.prems" show ?thesis
      by (intro exI [of _ 0] exI [of _ "[take w c]"]) (auto intro!: exI [of _ w])
  next
    case None
    with spec have "take w c = c" "w = length c" by auto
    moreover from None w "2.prems" have "write_chunks_from (tot + w) (Suc i) k1 cs = (n, err, k')" by simp
    from "2.IH" [OF w [symmetric] refl None this] obtain m p where "m \<le> length cs"
      "sk_segments k' = sk_segments k1 @ take m cs @ p" "n = tot + w + length (concat (take m cs @ p))"
      "case err of None \<Rightarrow> m = length cs \<and> p = [] | Some e \<Rightarrow> m < length cs \<and> (\<exists>j e0. p = [take j (cs ! m)] \<and>
         j < length (cs ! m) \<and> e = ErrWrap (''chunk '' @ format_nat (Suc (Suc i + m))) e0)"
      by blast
    ultimately show ?thesis
      using spec(2) by (intro exI [of _ "Suc m"] exI [of _ p]) (auto split: option.splits)
  qed
qed

lemma splitInChunks_concat [simp]: "concat (splitInChunks msg win) = msg"
  by (cases msg; cases "tl msg") (auto simp: splitInChunks_def concat_slices_Chunk)

section \<open>Properties\<close>

text \<open>C24: the fragments of a ClientHello are non-empty and together are exactly the message.  With a
  positive window they all have the window's size, but for a shorter last one, and there are
  \<open>\<lceil>len / window\<rceil>\<close> of them; without a window a message of two or more bytes is split after its first
  byte.\<close>

theorem splitInChunks_partition:
  "concat (splitInChunks msg win) = msg \<and> [] \<notin> set (splitInChunks msg win) \<and>
   (0 < win \<longrightarrow> (\<forall>c \<in> set (butlast (splitInChunks msg win)). int (length c) = win) \<and>
      (\<forall>c \<in> set (splitInChunks msg win). int (length c) \<le> win) \<and>
      length (splitInChunks msg win) = (length msg + nat win - 1) div nat win) \<and>
   (win \<le> 0 \<and> 2 \<le> length msg \<longrightarrow> splitInChunks msg win = [[msg ! 0], tl msg])"
proof (cases "win \<le> 0")
  case True
  then show ?thesis by (cases msg; cases "tl msg") (auto simp: splitInChunks_def)
next
  case False
  then have pos: "0 < nat win" and eq: "splitInChunks msg win = slices_Chunk msg (nat win)"
    by (simp_all add: splitInChunks_def)
  show ?thesis
    unfolding eq using False concat_slices_Chunk [OF pos] slices_Chunk_sizes [OF pos] slices_Chunk_full [OF pos]
      length_slices_Chunk [OF pos] by fastforce
qed

theorem splitInChunks_partition_witness:
  "splitInChunks [22, 3, 1] 2 = [[22, 3], [1]] \<and> length (splitInChunks [22, 3, 1] 2) = 2 \<and>
   splitInChunks [22, 3, 1] 0 = [[22], [3, 1]]"
  using splitInChunks_partition [of "[22, 3, 1]" 2] splitInChunks_partition [of "[22, 3, 1]" 0]
  by (simp add: splitInChunks_def slices_Chunk.simps)

text \<open>C25: \<open>writeChunks\<close> reports success exactly when every chunk was written in full, each as a segment of
  its own, with the total as result; otherwise the error names the number of the chunk that
  failed, and what was written is a proper prefix of the message, counted exactly.\<close>

theorem writeChunks_reports:
  assumes "writeChunks k chunks = (n, err, k')"
  shows "sink_bytes k' = sink_bytes k @ take n (concat chunks) \<and>
    (case err of
       None \<Rightarrow> sk_segments k' = sk_segments k @ chunks \<and> n = length (concat chunks)
     | Some e \<Rightarrow> n < length (concat chunks) \<and>
         (\<exists>m j e0. m < length chunks \<and> e = ErrWrap (''chunk '' @ format_nat (Suc m)) e0 \<and>
            sk_segments k' = sk_segments k @ take m chunks @ [take j (chunks ! m)]))"
proof -
  from write_chunks_from_spec [OF assms [unfolded writeChunks_def]] obtain m p where
    m: "m \<le> length chunks" "sk_segments k' = sk_segments k @ take m chunks @ p"
    "n = length (concat (take m chunks @ p))"
    and c: "case err of None \<Rightarrow> m = length chunks \<and> p = []
      | Some e \<Rightarrow> m < length chunks \<and> (\<exists>j e0. p = [take j (chunks ! m)] \<and> j < length (chunks ! m) \<and>
         e = ErrWrap (''chunk '' @ format_nat (Suc (0 + m))) e0)"
    by auto
  show ?thesis
  proof (cases err)
    case None
    with m c show ?thesis by (simp add: sink_bytes_def)
  next
    case (Some e)
    with c obtain j e0 where j: "m < length chunks" "p = [take j (chunks ! m)]" "j < length (chunks ! m)"
      "e = ErrWrap (''chunk '' @ format_nat (Suc m)) e0" by auto
    have "chunks = take m chunks @ chunks ! m # drop (Suc m) chunks" using j(1) by (rule id_take_nth_drop)
    then have all: "concat chunks = concat (take m chunks) @ chunks ! m @ concat (drop (Suc m) chunks)"
      by (metis concat.simps(2) concat_append)
    with m j have "n < length (concat chunks)" "take n (concat chunks) = concat (take m chunks) @ take j (chunks ! m)"
      by simp_all
    with Some m j show ?thesis by (auto simp: sink_bytes_def)
  qed
qed

theorem writeChunks_reports_witness:
  "writeChunks \<lparr>sk_segments = [], sk_budget = Some 3, sk_failed = False\<rparr> [[1, 2], [3, 4]] =
     (3, Some (ErrWrap (''chunk '' @ format_nat 2) (ErrString ''write'')), \<lparr>sk_segments = [[1, 2], [3]], sk_budget = Some 0, sk_failed = True\<rparr>) \<and>
   sink_bytes \<lparr>sk_segments = [[1, 2], [3]], sk_budget = Some 0, sk_failed = True\<rparr> = [1, 2, 3]"
proof -
  have w: "writeChunks \<lparr>sk_segments = [], sk_budget = Some 3, sk_failed = False\<rparr> [[1, 2], [3, 4]] =
     (3, Some (ErrWrap (''chunk '' @ format_nat 2) (ErrString ''write'')), \<lparr>sk_segments = [[1, 2], [3]], sk_budget = Some 0, sk_failed = True\<rparr>)"
    by (simp add: writeChunks_def conn_Write_def numeral_2_eq_2)
  from writeChunks_reports [OF w] w show ?thesis by (simp add: sink_bytes_def)
qed

end
