(* ===== verification/Pipe.thy ===== *)
theory Pipe
  imports Chunks
begin

text \<open>
  Package \<open>proxy/handler\<close>, file \<open>https.go\<close>: \<open>copyWithTimeout\<close> and \<open>pipe\<close>, the relay between client and
  server.  A connection is what the peer will still send, what was written to it, and which halves
  are closed; a read deadline that passes is an end of the incoming stream with \<open>ErrTimeout\<close>.
  The two goroutines of \<open>pipe\<close> and the wait for both are the step relation \<open>pipe_step\<close>: one step is
  one turn of a copy loop, with any number of bytes that a read may deliver.  A copy loop that reads from a
  silent peer without a deadline takes no step.  The shared
  buffers are the subject of theory \<open>Buffers\<close>.
\<close>

section \<open>Connections\<close>

record conn =
  cn_in :: reader
  cn_out :: sink
  cn_rclosed :: bool
  cn_wclosed :: bool
  cn_closed :: bool

definition new_conn :: "reader \<Rightarrow> sink \<Rightarrow> conn" where
  "new_conn r k = \<lparr>cn_in = r, cn_out = k, cn_rclosed = False, cn_wclosed = False, cn_closed = False\<rparr>"

definition Conn_Write :: "conn \<Rightarrow> bytes \<Rightarrow> nat \<times> go_error option \<times> conn" where
  "Conn_Write c bs =
     (if cn_closed c \<or> cn_wclosed c then (0, Some ErrClosed, c)
      else case conn_Write (cn_out c) bs of (n, err, k) \<Rightarrow> (n, err, c\<lparr>cn_out := k\<rparr>))"

definition Conn_Close :: "conn \<Rightarrow> conn" where "Conn_Close c = c\<lparr>cn_closed := True\<rparr>"
definition Conn_CloseRead :: "conn \<Rightarrow> conn" where "Conn_CloseRead c = c\<lparr>cn_rclosed := True\<rparr>"
definition Conn_CloseWrite :: "conn \<Rightarrow> conn" where "Conn_CloseWrite c = c\<lparr>cn_wclosed := True\<rparr>"

text \<open>What a \<open>Read\<close> into a buffer of \<open>bufSize\<close> bytes delivers when the kernel has \<open>n\<close> bytes ready:
  at least one byte and at most the buffer, or the error that ends the stream.\<close>

definition Conn_Read :: "nat \<Rightarrow> nat \<Rightarrow> conn \<Rightarrow> bytes result \<times> conn" where
  "Conn_Read bufSize n c =
     (if cn_closed c then (Inl ErrClosed, c)
      else if cn_rclosed c then (Inl EOF, c)
      else if rd_data (cn_in c) = [] then (Inl (rd_end (cn_in c)), c)
      else let k = max 1 (min n bufSize)
           in (Inr (take k (rd_data (cn_in c))), c\<lparr>cn_in := (cn_in c)\<lparr>rd_data := drop k (rd_data (cn_in c))\<rparr>\<rparr>))"

section \<open>Copying\<close>

text \<open>One turn of the loop of \<open>copyWithTimeout\<close>: both connections afterwards, and whether it goes on.
  \<open>SetReadDeadline\<close> fails on a closed connection.\<close>

definition copy_turn :: "nat \<Rightarrow> int \<Rightarrow> nat \<Rightarrow> conn \<Rightarrow> conn \<Rightarrow> conn \<times> conn \<times> bool" where
  "copy_turn bufSize timeoutMs n from to =
     (if 0 < timeoutMs \<and> cn_closed from then (from, to, False)
      else case Conn_Read bufSize n from of
        (Inl err, from') \<Rightarrow> (from', to, False)
      | (Inr bs, from') \<Rightarrow>
          (case Conn_Write to bs of
             (k, Some werr, to') \<Rightarrow> (from', to', False)
           | (k, None, to') \<Rightarrow> (from', to', True)))"

text \<open>A read that does not return: all data is read, the peer stays silent and there is no deadline.\<close>

definition read_blocks :: "int \<Rightarrow> conn \<Rightarrow> bool" where
  "read_blocks timeoutMs c \<longleftrightarrow>
     timeoutMs \<le> 0 \<and> \<not> cn_closed c \<and> \<not> cn_rclosed c \<and> rd_data (cn_in c) = [] \<and> rd_end (cn_in c) = NeverReturns"

section \<open>Both directions\<close>

datatype dir_pc = Copying | Closing | Ended

record pipe_state =
  pp_l :: conn
  pp_r :: conn
  pp_up :: dir_pc
  pp_down :: dir_pc
  pp_done :: bool

definition pipe_init :: "conn \<Rightarrow> conn \<Rightarrow> pipe_state" where
  "pipe_init lConn rConn = \<lparr>pp_l = lConn, pp_r = rConn, pp_up = Copying, pp_down = Copying, pp_done = False\<rparr>"

inductive pipe_step :: "nat \<Rightarrow> int \<Rightarrow> pipe_state \<Rightarrow> pipe_state \<Rightarrow> bool" for bufSize timeoutMs where
  up_copy: "pp_up s = Copying \<Longrightarrow> copy_turn bufSize timeoutMs n (pp_l s) (pp_r s) = (l, r, cont) \<Longrightarrow>
    \<not> read_blocks timeoutMs (pp_l s) \<Longrightarrow>
    pipe_step bufSize timeoutMs s (s\<lparr>pp_l := l, pp_r := r, pp_up := (if cont then Copying else Closing)\<rparr>)"
| up_close: "pp_up s = Closing \<Longrightarrow>
    pipe_step bufSize timeoutMs s
      (s\<lparr>pp_r := Conn_CloseWrite (pp_r s), pp_l := Conn_CloseRead (pp_l s), pp_up := Ended\<rparr>)"
| down_copy: "pp_down s = Copying \<Longrightarrow> copy_turn bufSize timeoutMs n (pp_r s) (pp_l s) = (r, l, cont) \<Longrightarrow>
    \<not> read_blocks timeoutMs (pp_r s) \<Longrightarrow>
    pipe_step bufSize timeoutMs s (s\<lparr>pp_r := r, pp_l := l, pp_down := (if cont then Copying else Closing)\<rparr>)"
| down_close: "pp_down s = Closing \<Longrightarrow>
    pipe_step bufSize timeoutMs s
      (s\<lparr>pp_l := Conn_CloseWrite (pp_l s), pp_r := Conn_CloseRead (pp_r s), pp_down := Ended\<rparr>)"
| finish: "pp_up s = Ended \<Longrightarrow> pp_down s = Ended \<Longrightarrow> \<not> pp_done s \<Longrightarrow>
    pipe_step bufSize timeoutMs s (s\<lparr>pp_l := Conn_Close (pp_l s), pp_r := Conn_Close (pp_r s), pp_done := True\<rparr>)"

inductive_cases pipe_stepE: "pipe_step bufSize timeoutMs s t"

section \<open>One direction\<close>

text \<open>
  The state of a direction, relative to the connections \<open>from0\<close> and \<open>to0\<close> it began with: what was read is
  a prefix of the incoming data, what was written is a prefix of what was read; while the copy goes on
  and as long as no write can fail the two are the same, and when they are it ends only at the end of the data.
\<close>

definition dir_ok :: "conn \<Rightarrow> conn \<Rightarrow> conn \<Rightarrow> conn \<Rightarrow> dir_pc \<Rightarrow> bool" where
  "dir_ok from0 to0 from to pc \<longleftrightarrow>
     (\<exists>j i. j \<le> i \<and> i \<le> length (rd_data (cn_in from0)) \<and>
        rd_data (cn_in from) = drop i (rd_data (cn_in from0)) \<and>
        sink_bytes (cn_out to) = sink_bytes (cn_out to0) @ take j (rd_data (cn_in from0)) \<and>
        (pc = Copying \<longrightarrow> j = i) \<and> (pc \<noteq> Copying \<longrightarrow> j = i \<longrightarrow> rd_data (cn_in from) = []) \<and>
        (sk_failed (cn_out to) \<longleftrightarrow> sk_failed (cn_out to0) \<or> j < i) \<and>
        (sk_budget (cn_out to0) = None \<longrightarrow>
           j = i \<and> sk_budget (cn_out to) = None \<and> (pc \<noteq> Copying \<longrightarrow> rd_data (cn_in from) = []))) \<and>
     rd_end (cn_in from) = rd_end (cn_in from0) \<and> (cn_rclosed from \<longleftrightarrow> pc = Ended) \<and> (cn_wclosed to \<longleftrightarrow> pc = Ended)"

lemma length_drop_some [simp]: "xs \<noteq> [] \<Longrightarrow> Suc (length xs - max (Suc 0) k) \<le> length xs"
  by (cases xs) auto

lemma Conn_Write_frame:
  assumes "Conn_Write c bs = (n, err, c')"
  shows "cn_in c' = cn_in c" "cn_closed c' = cn_closed c" "cn_rclosed c' = cn_rclosed c" "cn_wclosed c' = cn_wclosed c"
  using assms by (auto simp: Conn_Write_def split: if_splits prod.splits)

lemma Conn_Read_frame:
  assumes "Conn_Read bufSize n c = (res, c')"
  shows "cn_out c' = cn_out c" "rd_end (cn_in c') = rd_end (cn_in c)" "cn_rclosed c' = cn_rclosed c"
    "cn_wclosed c' = cn_wclosed c" "cn_closed c' = cn_closed c"
    "length (rd_data (cn_in c')) + of_bool (\<exists>bs. res = Inr bs) \<le> length (rd_data (cn_in c))"
  using assms by (auto simp: Conn_Read_def Let_def split: if_splits)

lemma copy_turn_frame:
  assumes "copy_turn bufSize timeoutMs n from to = (from', to', cont)"
  shows "cn_out from' = cn_out from" "cn_in to' = cn_in to" "rd_end (cn_in from') = rd_end (cn_in from)"
    "cn_rclosed from' = cn_rclosed from" "cn_wclosed from' = cn_wclosed from" "cn_closed from' = cn_closed from"
    "cn_rclosed to' = cn_rclosed to" "cn_wclosed to' = cn_wclosed to" "cn_closed to' = cn_closed to"
    "length (rd_data (cn_in from')) + of_bool cont \<le> length (rd_data (cn_in from))"
proof -
  obtain res f where rd: "Conn_Read bufSize n from = (res, f)" by fastforce
  have "cn_out from' = cn_out from \<and> cn_in to' = cn_in to \<and> rd_end (cn_in from') = rd_end (cn_in from) \<and>
    cn_rclosed from' = cn_rclosed from \<and> cn_wclosed from' = cn_wclosed from \<and> cn_closed from' = cn_closed from \<and>
    cn_rclosed to' = cn_rclosed to \<and> cn_wclosed to' = cn_wclosed to \<and> cn_closed to' = cn_closed to \<and>
    length (rd_data (cn_in from')) + of_bool cont \<le> length (rd_data (cn_in from))"
  proof (cases res)
    case (Inl err)
    with assms rd Conn_Read_frame [OF rd] show ?thesis by (auto simp: copy_turn_def split: if_splits)
  next
    case (Inr bs)
    obtain k werr to1 where w: "Conn_Write to bs = (k, werr, to1)" by (metis prod_cases3)
    from Inr assms rd w Conn_Read_frame [OF rd] Conn_Write_frame [OF w] show ?thesis
      by (auto simp: copy_turn_def split: if_splits option.splits)
  qed
  then show "cn_out from' = cn_out from" "cn_in to' = cn_in to" "rd_end (cn_in from') = rd_end (cn_in from)"
    "cn_rclosed from' = cn_rclosed from" "cn_wclosed from' = cn_wclosed from" "cn_closed from' = cn_closed from"
    "cn_rclosed to' = cn_rclosed to" "cn_wclosed to' = cn_wclosed to" "cn_closed to' = cn_closed to"
    "length (rd_data (cn_in from')) + of_bool cont \<le> length (rd_data (cn_in from))" by simp_all
qed

lemma copy_turn_cases:
  assumes "copy_turn bufSize timeoutMs n from to = (from', to', cont)"
    and "\<not> cn_closed from" "\<not> cn_rclosed from" "\<not> cn_closed to" "\<not> cn_wclosed to"
  shows "(\<not> cont \<and> from' = from \<and> to' = to \<and> rd_data (cn_in from) = []) \<or>
    (\<exists>k w err out. conn_Write (cn_out to) (take k (rd_data (cn_in from))) = (w, err, out) \<and>
       (cont \<longleftrightarrow> err = None) \<and> to' = to\<lparr>cn_out := out\<rparr> \<and>
       from' = from\<lparr>cn_in := (cn_in from)\<lparr>rd_data := drop k (rd_data (cn_in from))\<rparr>\<rparr>)"
proof (cases "rd_data (cn_in from) = []")
  case True
  with assms show ?thesis by (auto simp: copy_turn_def Conn_Read_def split: if_splits)
next
  case False
  let ?k = "max 1 (min n bufSize)"
  obtain w err out where w: "conn_Write (cn_out to) (take ?k (rd_data (cn_in from))) = (w, err, out)"
    by (metis prod_cases3)
  with False assms show ?thesis
    by (intro disjI2 exI [of _ ?k] exI [of _ w] exI [of _ err] exI [of _ out])
       (auto simp: copy_turn_def Conn_Read_def Conn_Write_def Let_def split: option.splits)
qed

lemma dir_ok_turn:
  assumes ok: "dir_ok from0 to0 from to Copying" and turn: "copy_turn bufSize timeoutMs n from to = (from', to', cont)"
    and nc: "\<not> cn_closed from" "\<not> cn_closed to"
  shows "dir_ok from0 to0 from' to' (if cont then Copying else Closing)"
proof -
  let ?d = "rd_data (cn_in from0)"
  from ok obtain i where i: "i \<le> length ?d" "rd_data (cn_in from) = drop i ?d"
    "sink_bytes (cn_out to) = sink_bytes (cn_out to0) @ take i ?d"
    and b: "sk_budget (cn_out to0) = None \<longrightarrow> sk_budget (cn_out to) = None"
    and fl: "sk_failed (cn_out to) \<longleftrightarrow> sk_failed (cn_out to0)" and e: "rd_end (cn_in from) = rd_end (cn_in from0)"
    and op: "\<not> cn_rclosed from" "\<not> cn_wclosed to"
    by (auto simp: dir_ok_def)
  from copy_turn_cases [OF turn nc(1) op(1) nc(2) op(2)] show ?thesis
  proof (elim disjE exE conjE)
    assume "\<not> cont" "from' = from" "to' = to" "rd_data (cn_in from) = []"
    with i b fl e op show ?thesis unfolding dir_ok_def by (intro conjI exI [of _ i]) auto
  next
    fix k w err out
    assume w: "conn_Write (cn_out to) (take k (rd_data (cn_in from))) = (w, err, out)" and c: "cont \<longleftrightarrow> err = None"
      and t: "to' = to\<lparr>cn_out := out\<rparr>"
      and f: "from' = from\<lparr>cn_in := (cn_in from)\<lparr>rd_data := drop k (rd_data (cn_in from))\<rparr>\<rparr>"
    note spec = conn_Write_spec [OF w]
    let ?i = "i + min k (length ?d - i)"
    have len: "length (take k (rd_data (cn_in from))) = min k (length ?d - i)" using i by (simp add: min.commute)
    have wi: "i + w \<le> ?i" "?i \<le> length ?d" "cont \<longleftrightarrow> i + w = ?i"
      using spec(1,3) c i(1) unfolding len by linarith+
    have "sink_bytes out = sink_bytes (cn_out to) @ take w (take k (drop i ?d))"
      using spec(2) i(2) by (simp add: sink_bytes_def)
    moreover have "w \<le> k" using spec(1) unfolding len by simp
    then have "take w (take k (drop i ?d)) = take w (drop i ?d)" by (simp add: min_absorb1)
    ultimately have bytes: "sink_bytes out = sink_bytes (cn_out to0) @ take (i + w) ?d"
      using i(3) by (simp add: take_add)
    have rest: "drop k (drop i ?d) = drop ?i ?d" by (simp add: min_def add.commute)
    have "cont \<and> sk_budget out = None" if "sk_budget (cn_out to0) = None"
      using w b that c by (auto simp: conn_Write_open)
    moreover have "sk_failed out \<longleftrightarrow> sk_failed (cn_out to0) \<or> i + w < ?i" using spec(4) fl c wi by auto
    ultimately show ?thesis using wi bytes rest e op i(2)
      unfolding dir_ok_def t f by (intro conjI exI [of _ "i + w"] exI [of _ ?i]) auto
  qed
qed

lemma dir_ok_close:
  "dir_ok from0 to0 from to Closing \<Longrightarrow> dir_ok from0 to0 (Conn_CloseRead from) (Conn_CloseWrite to) Ended"
  by (auto simp: dir_ok_def Conn_CloseRead_def Conn_CloseWrite_def)

text \<open>The other direction leaves it alone.\<close>

lemma dir_ok_frame:
  assumes "dir_ok from0 to0 from to pc" and "cn_in from' = cn_in from" "cn_rclosed from' = cn_rclosed from"
    and "cn_out to' = cn_out to" "cn_wclosed to' = cn_wclosed to"
  shows "dir_ok from0 to0 from' to' pc"
  using assms by (simp add: dir_ok_def)

section \<open>The invariant\<close>

definition pipe_inv :: "conn \<Rightarrow> conn \<Rightarrow> pipe_state \<Rightarrow> bool" where
  "pipe_inv l0 r0 s \<longleftrightarrow>
     dir_ok l0 r0 (pp_l s) (pp_r s) (pp_up s) \<and> dir_ok r0 l0 (pp_r s) (pp_l s) (pp_down s) \<and>
     (cn_closed (pp_l s) \<longleftrightarrow> pp_done s) \<and> (cn_closed (pp_r s) \<longleftrightarrow> pp_done s) \<and>
     (pp_done s \<longrightarrow> pp_up s = Ended \<and> pp_down s = Ended)"

definition fresh_conn :: "conn \<Rightarrow> bool" where
  "fresh_conn c \<longleftrightarrow> \<not> cn_closed c \<and> \<not> cn_rclosed c \<and> \<not> cn_wclosed c"

lemma pipe_inv_init: "fresh_conn l \<Longrightarrow> fresh_conn r \<Longrightarrow> pipe_inv l r (pipe_init l r)"
  by (auto simp: pipe_inv_def pipe_init_def dir_ok_def fresh_conn_def intro!: exI [of _ 0])

lemma pipe_step_inv:
  assumes "pipe_step bufSize timeoutMs s t" and inv: "pipe_inv l0 r0 s"
  shows "pipe_inv l0 r0 t"
  using assms(1)
proof cases
  case (up_copy n l r cont)
  note fr = copy_turn_frame [OF up_copy(3)]
  from inv up_copy(2) have "dir_ok l0 r0 (pp_l s) (pp_r s) Copying" "\<not> cn_closed (pp_l s)" "\<not> cn_closed (pp_r s)"
    by (auto simp: pipe_inv_def)
  then have "dir_ok l0 r0 l r (if cont then Copying else Closing)" by (rule dir_ok_turn [OF _ up_copy(3)])
  moreover have "dir_ok r0 l0 r l (pp_down s)"
    by (rule dir_ok_frame [of r0 l0 "pp_r s" "pp_l s"]) (use inv fr in \<open>simp_all add: pipe_inv_def\<close>)
  ultimately show ?thesis using inv fr up_copy by (auto simp: pipe_inv_def)
next
  case (down_copy n r l cont)
  note fr = copy_turn_frame [OF down_copy(3)]
  from inv down_copy(2) have "dir_ok r0 l0 (pp_r s) (pp_l s) Copying" "\<not> cn_closed (pp_r s)" "\<not> cn_closed (pp_l s)"
    by (auto simp: pipe_inv_def)
  then have "dir_ok r0 l0 r l (if cont then Copying else Closing)" by (rule dir_ok_turn [OF _ down_copy(3)])
  moreover have "dir_ok l0 r0 l r (pp_up s)"
    by (rule dir_ok_frame [of l0 r0 "pp_l s" "pp_r s"]) (use inv fr in \<open>simp_all add: pipe_inv_def\<close>)
  ultimately show ?thesis using inv fr down_copy by (auto simp: pipe_inv_def)
next
  case up_close
  with inv show ?thesis
    by (auto simp: pipe_inv_def dir_ok_close)
       (auto simp: Conn_CloseRead_def Conn_CloseWrite_def intro: dir_ok_frame)
next
  case down_close
  with inv show ?thesis
    by (auto simp: pipe_inv_def dir_ok_close)
       (auto simp: Conn_CloseRead_def Conn_CloseWrite_def intro: dir_ok_frame)
next
  case finish
  with inv show ?thesis
    by (auto simp: pipe_inv_def Conn_Close_def intro: dir_ok_frame)
qed

interpretation pipe: invariant_system "pipe_step bufSize timeoutMs" "pipe_inv l0 r0" for bufSize timeoutMs l0 r0
  by unfold_locales (rule pipe_step_inv)

section \<open>Termination\<close>

fun dir_rank :: "dir_pc \<Rightarrow> nat" where
  "dir_rank Copying = 2"
| "dir_rank Closing = 1"
| "dir_rank Ended = 0"

definition pipe_msr :: "pipe_state \<Rightarrow> nat" where
  "pipe_msr s = length (rd_data (cn_in (pp_l s))) + length (rd_data (cn_in (pp_r s))) +
     dir_rank (pp_up s) + dir_rank (pp_down s) + of_bool (\<not> pp_done s)"

interpretation pipe_prog: measured_system "pipe_step bufSize timeoutMs" "\<lambda>_. True" pipe_msr for bufSize timeoutMs
proof unfold_locales
  fix s t
  assume "pipe_step bufSize timeoutMs s t"
  then show "pipe_msr t < pipe_msr s"
  proof cases
    case (up_copy n l r cont)
    with copy_turn_frame(2,10) [OF up_copy(3)] show ?thesis by (auto simp: pipe_msr_def)
  next
    case (down_copy n r l cont)
    with copy_turn_frame(2,10) [OF down_copy(3)] show ?thesis by (auto simp: pipe_msr_def)
  qed (auto simp: pipe_msr_def Conn_CloseRead_def Conn_CloseWrite_def Conn_Close_def)
qed simp

text \<open>A direction that waits for a silent peer.\<close>

definition pipe_waits :: "int \<Rightarrow> pipe_state \<Rightarrow> bool" where
  "pipe_waits timeoutMs s \<longleftrightarrow>
     pp_up s = Copying \<and> read_blocks timeoutMs (pp_l s) \<or> pp_down s = Copying \<and> read_blocks timeoutMs (pp_r s)"

lemma pipe_waits_silent:
  assumes "pipe_inv l0 r0 s" and "pipe_waits timeoutMs s"
  shows "timeoutMs \<le> 0 \<and> (rd_end (cn_in l0) = NeverReturns \<or> rd_end (cn_in r0) = NeverReturns)"
  using assms by (auto simp: pipe_waits_def read_blocks_def pipe_inv_def dir_ok_def)

lemma pipe_progress:
  assumes "\<not> pp_done s" and "\<not> pipe_waits timeoutMs s"
  shows "\<exists>t. pipe_step bufSize timeoutMs s t"
proof (cases "pp_up s")
  case Copying
  obtain l r cont where "copy_turn bufSize timeoutMs 0 (pp_l s) (pp_r s) = (l, r, cont)" by (metis prod_cases3)
  with Copying assms(2) [unfolded pipe_waits_def] show ?thesis by (blast intro: pipe_step.up_copy)
next
  case Closing
  then show ?thesis by (blast intro: pipe_step.up_close)
next
  case up: Ended
  show ?thesis
  proof (cases "pp_down s")
    case Copying
    obtain r l cont where "copy_turn bufSize timeoutMs 0 (pp_r s) (pp_l s) = (r, l, cont)" by (metis prod_cases3)
    with Copying assms(2) [unfolded pipe_waits_def] show ?thesis by (blast intro: pipe_step.down_copy)
  next
    case Closing
    then show ?thesis by (blast intro: pipe_step.down_close)
  next
    case Ended
    with up assms(1) show ?thesis by (blast intro: pipe_step.finish)
  qed
qed

text \<open>With a deadline, or without a silent peer, a relay without a step is complete.\<close>

lemma pipe_final_done:
  assumes "pipe_inv l0 r0 s" and "\<forall>t. \<not> pipe_step bufSize timeoutMs s t"
    and "0 < timeoutMs \<or> rd_end (cn_in l0) \<noteq> NeverReturns \<and> rd_end (cn_in r0) \<noteq> NeverReturns"
  shows "pp_done s"
  using pipe_progress assms(2) pipe_waits_silent [OF assms(1), of timeoutMs] assms(3) by fastforce

lemma pipe_completes:
  assumes "fresh_conn l0" and "fresh_conn r0"
    and "0 < timeoutMs \<or> rd_end (cn_in l0) \<noteq> NeverReturns \<and> rd_end (cn_in r0) \<noteq> NeverReturns"
  obtains s where "(pipe_step bufSize timeoutMs)\<^sup>*\<^sup>* (pipe_init l0 r0) s" and "pipe_inv l0 r0 s" and "pp_done s"
    and "\<forall>t. \<not> pipe_step bufSize timeoutMs s t"
proof -
  obtain s where s: "(pipe_step bufSize timeoutMs)\<^sup>*\<^sup>* (pipe_init l0 r0) s" "\<forall>t. \<not> pipe_step bufSize timeoutMs s t"
    using pipe_prog.reaches_final by blast
  have inv: "pipe_inv l0 r0 s" using s(1) pipe_inv_init [OF assms(1,2)] by (rule pipe.run_invar)
  show ?thesis by (rule that [OF s(1) inv pipe_final_done [OF inv s(2) assms(3)] s(2)])
qed

lemma dir_ok_delivered:
  assumes "dir_ok from0 to0 from to pc" and "sk_budget (cn_out to0) = None" and "cn_wclosed to"
  shows "sink_bytes (cn_out to) = sink_bytes (cn_out to0) @ rd_data (cn_in from0)"
  using assms unfolding dir_ok_def by (elim conjE exE) simp

lemma pipe_inv_delivered:
  assumes "pipe_inv l0 r0 s"
  shows "sk_budget (cn_out r0) = None \<Longrightarrow> cn_wclosed (pp_r s) \<Longrightarrow>
      sink_bytes (cn_out (pp_r s)) = sink_bytes (cn_out r0) @ rd_data (cn_in l0)"
    and "sk_budget (cn_out l0) = None \<Longrightarrow> cn_wclosed (pp_l s) \<Longrightarrow>
      sink_bytes (cn_out (pp_l s)) = sink_bytes (cn_out l0) @ rd_data (cn_in r0)"
  using assms dir_ok_delivered unfolding pipe_inv_def by blast+

lemma pipe_inv_closed: "pipe_inv l0 r0 s \<Longrightarrow> cn_closed (pp_l s) \<or> cn_closed (pp_r s) \<Longrightarrow>
  cn_wclosed (pp_l s) \<and> cn_wclosed (pp_r s)"
  by (auto simp: pipe_inv_def dir_ok_def)


section \<open>Properties\<close>

text \<open>C5: the relay is transparent and half-closes correctly.  At every moment the server has received a
  prefix of what the client sent and the client a prefix of what the server sent, nothing added or
  reordered.  As long as writes succeed, the server sees the end of the client's stream only after
  all of it, and likewise the other way round; and neither connection is closed before both
  directions are complete, so a client that stops sending still gets the whole response.\<close>

theorem pipe_transparent:
  assumes "fresh_conn l0" and "fresh_conn r0" and "(pipe_step bufSize timeoutMs)\<^sup>*\<^sup>* (pipe_init l0 r0) s"
  shows "(\<exists>i. sink_bytes (cn_out (pp_r s)) = sink_bytes (cn_out r0) @ take i (rd_data (cn_in l0))) \<and>
    (\<exists>i. sink_bytes (cn_out (pp_l s)) = sink_bytes (cn_out l0) @ take i (rd_data (cn_in r0))) \<and>
    (sk_budget (cn_out r0) = None \<and> (cn_wclosed (pp_r s) \<or> cn_closed (pp_r s)) \<longrightarrow>
       sink_bytes (cn_out (pp_r s)) = sink_bytes (cn_out r0) @ rd_data (cn_in l0)) \<and>
    (sk_budget (cn_out l0) = None \<and> (cn_wclosed (pp_l s) \<or> cn_closed (pp_l s)) \<longrightarrow>
       sink_bytes (cn_out (pp_l s)) = sink_bytes (cn_out l0) @ rd_data (cn_in r0))"
proof -
  have inv: "pipe_inv l0 r0 s" using assms(3) pipe_inv_init [OF assms(1,2)] by (rule pipe.run_invar)
  then have "\<exists>i. sink_bytes (cn_out (pp_r s)) = sink_bytes (cn_out r0) @ take i (rd_data (cn_in l0))"
    and "\<exists>i. sink_bytes (cn_out (pp_l s)) = sink_bytes (cn_out l0) @ take i (rd_data (cn_in r0))"
    unfolding pipe_inv_def dir_ok_def by blast+
  with pipe_inv_delivered [OF inv] pipe_inv_closed [OF inv] show ?thesis by blast
qed


definition demo_l :: conn where "demo_l = new_conn \<lparr>rd_data = [1, 2, 3], rd_end = EOF\<rparr> open_sink"
definition demo_r :: conn where "demo_r = new_conn \<lparr>rd_data = [7], rd_end = ErrTimeout\<rparr> open_sink"

lemma demo_fresh [simp]: "fresh_conn demo_l" "fresh_conn demo_r"
  by (simp_all add: fresh_conn_def demo_l_def demo_r_def new_conn_def)

lemma demo_ends [simp]: "rd_end (cn_in demo_l) = EOF" "rd_end (cn_in demo_r) = ErrTimeout"
  by (simp_all add: demo_l_def demo_r_def new_conn_def)


theorem pipe_transparent_witness:
  "\<exists>s. (pipe_step 4096 0)\<^sup>*\<^sup>* (pipe_init demo_l demo_r) s \<and>
     sink_bytes (cn_out (pp_r s)) = [1, 2, 3] \<and> sink_bytes (cn_out (pp_l s)) = [7]"
proof -
  obtain s where s: "(pipe_step 4096 0)\<^sup>*\<^sup>* (pipe_init demo_l demo_r) s" "pipe_inv demo_l demo_r s" "pp_done s"
    by (rule pipe_completes [OF demo_fresh, of 0 4096]) simp_all
  from s(2,3) have "cn_closed (pp_l s)" "cn_closed (pp_r s)" by (simp_all add: pipe_inv_def)
  with pipe_transparent [OF demo_fresh s(1)]
  have "sink_bytes (cn_out (pp_r s)) = [1, 2, 3] \<and> sink_bytes (cn_out (pp_l s)) = [7]"
    by (simp add: demo_l_def demo_r_def new_conn_def open_sink_def sink_bytes_def)
  with s(1) show ?thesis by blast
qed

end
