(* ===== verification/Relay_Spec.thy ===== *)
theory Relay_Spec
  imports Pipe
begin

text \<open>
  What \<open>pipe\<close> promises, without connections, buffers and goroutines: two independent links, each of which
  passes the bytes of its source on in order, a few at a time, until a write fails, which loses bytes, and ends only
  when a write has failed or there are no bytes left.  The relay of theory \<open>Pipe\<close> refines this specification.
\<close>

section \<open>The specification\<close>

record link =
  ln_pending :: bytes
  ln_delivered :: bytes
  ln_failed :: bool
  ln_eof :: bool

inductive link_step :: "link \<Rightarrow> link \<Rightarrow> bool" where
  deliver: "\<not> ln_eof k \<Longrightarrow> \<not> ln_failed k \<Longrightarrow> ln_pending k = xs @ ys \<Longrightarrow> xs \<noteq> [] \<Longrightarrow>
    link_step k (k\<lparr>ln_pending := ys, ln_delivered := ln_delivered k @ xs\<rparr>)"
| fail: "\<not> ln_eof k \<Longrightarrow> \<not> ln_failed k \<Longrightarrow> ln_pending k = xs @ zs @ ys \<Longrightarrow> zs \<noteq> [] \<Longrightarrow>
    link_step k (k\<lparr>ln_pending := ys, ln_delivered := ln_delivered k @ xs, ln_failed := True\<rparr>)"
| shut: "\<not> ln_eof k \<Longrightarrow> ln_failed k \<or> ln_pending k = [] \<Longrightarrow> link_step k (k\<lparr>ln_eof := True\<rparr>)"

inductive_cases link_stepE: "link_step k k'"

text \<open>Some bytes are taken: \<open>xs\<close> arrive and \<open>zs\<close> are lost.\<close>

lemma link_moves:
  assumes "\<not> ln_eof k" and "\<not> ln_failed k" and "ln_pending k = xs @ zs @ ys"
  shows "link_step\<^sup>*\<^sup>* k (k\<lparr>ln_pending := ys, ln_delivered := ln_delivered k @ xs, ln_failed := zs \<noteq> []\<rparr>)"
proof -
  consider "zs \<noteq> []" | "zs = []" "xs \<noteq> []" | "zs = []" "xs = []" by blast
  then show ?thesis
  proof cases
    case 1
    with link_step.fail [OF assms] show ?thesis by auto
  next
    case 2
    moreover have "k\<lparr>ln_pending := ys, ln_delivered := ln_delivered k @ xs, ln_failed := False\<rparr> =
        k\<lparr>ln_pending := ys, ln_delivered := ln_delivered k @ xs\<rparr>" by (rule link.equality) (use assms(2) in simp_all)
    ultimately show ?thesis using link_step.deliver [OF assms(1,2), of xs ys] assms(3) by auto
  next
    case 3
    then have "k\<lparr>ln_pending := ys, ln_delivered := ln_delivered k @ xs, ln_failed := zs \<noteq> []\<rparr> = k"
      by (intro link.equality) (use assms in simp_all)
    then show ?thesis by simp
  qed
qed

text \<open>A relay is a pair of links, which proceed in any order.\<close>

inductive duplex_step :: "link \<times> link \<Rightarrow> link \<times> link \<Rightarrow> bool" where
  upstream: "link_step u u' \<Longrightarrow> duplex_step (u, d) (u', d)"
| downstream: "link_step d d' \<Longrightarrow> duplex_step (u, d) (u, d')"

inductive_cases duplex_stepE: "duplex_step p q"

text \<open>Nothing is added or reordered; bytes are missing exactly when a write has failed, and the end is not signalled
  early without a failed write.\<close>

definition link_inv :: "bytes \<Rightarrow> link \<Rightarrow> bool" where
  "link_inv src k \<longleftrightarrow>
     (\<exists>lost. ln_delivered k @ lost @ ln_pending k = src \<and> (ln_failed k \<longleftrightarrow> lost \<noteq> [])) \<and>
     (ln_eof k \<longrightarrow> ln_failed k \<or> ln_pending k = [])"

definition duplex_inv :: "bytes \<Rightarrow> bytes \<Rightarrow> link \<times> link \<Rightarrow> bool" where
  "duplex_inv up down p \<longleftrightarrow> link_inv up (fst p) \<and> link_inv down (snd p)"

lemma link_invI:
  "ln_delivered k @ lost @ ln_pending k = src \<Longrightarrow> ln_failed k \<longleftrightarrow> lost \<noteq> [] \<Longrightarrow>
   (ln_eof k \<Longrightarrow> ln_failed k \<or> ln_pending k = []) \<Longrightarrow> link_inv src k"
  by (auto simp: link_inv_def)

lemma link_step_inv: "link_step k k' \<Longrightarrow> link_inv src k \<Longrightarrow> link_inv src k'"
proof (induction rule: link_step.induct)
  case (fail k xs zs ys)
  then show ?case by (intro link_invI [where lost = zs]) (auto simp: link_inv_def)
qed (auto simp: link_inv_def)

interpretation duplex: invariant_system duplex_step "duplex_inv up down" for up down
  by (rule invariant_system.intro) (auto simp: duplex_inv_def elim!: duplex_stepE intro: link_step_inv)

section \<open>The relay refines it\<close>

text \<open>The link of the direction between two connections: what is still to be read, what was written, whether a \<open>Write\<close>
  has returned an error, and whether the write side is closed.\<close>

definition link_of :: "conn \<Rightarrow> conn \<Rightarrow> link" where
  "link_of from to =
     \<lparr>ln_pending = rd_data (cn_in from), ln_delivered = sink_bytes (cn_out to), ln_failed = sk_failed (cn_out to),
      ln_eof = cn_wclosed to\<rparr>"

definition duplex_of :: "pipe_state \<Rightarrow> link \<times> link" where
  "duplex_of s = (link_of (pp_l s) (pp_r s), link_of (pp_r s) (pp_l s))"

lemma dir_ok_link:
  assumes "dir_ok from0 to0 from to pc" and "\<not> sk_failed (cn_out to0)"
  shows "pc = Copying \<Longrightarrow> \<not> sk_failed (cn_out to)" and "pc \<noteq> Copying \<Longrightarrow> sk_failed (cn_out to) \<or> rd_data (cn_in from) = []"
    and "cn_wclosed to \<longleftrightarrow> pc = Ended" and "cn_rclosed from \<longleftrightarrow> pc = Ended"
  using assms unfolding dir_ok_def by (auto simp: le_less)

lemma copy_turn_link:
  assumes ok: "dir_ok from0 to0 from to Copying" and f0: "\<not> sk_failed (cn_out to0)"
    and turn: "copy_turn bufSize timeoutMs n from to = (from', to', cont)" and nc: "\<not> cn_closed from" "\<not> cn_closed to"
  shows "link_step\<^sup>*\<^sup>* (link_of from to) (link_of from' to')"
proof -
  let ?k = "link_of from to" and ?d = "rd_data (cn_in from)"
  note lk = dir_ok_link [OF ok f0]
  have "\<not> cn_rclosed from" "\<not> cn_wclosed to" using lk(3,4) by simp_all
  from copy_turn_cases [OF turn nc(1) this(1) nc(2) this(2)] show ?thesis
  proof (elim disjE exE conjE)
    assume "from' = from" "to' = to"
    then show ?thesis by simp
  next
    fix k w err out
    assume wr: "conn_Write (cn_out to) (take k ?d) = (w, err, out)" and t: "to' = to\<lparr>cn_out := out\<rparr>"
      and f: "from' = from\<lparr>cn_in := (cn_in from)\<lparr>rd_data := drop k ?d\<rparr>\<rparr>"
    note spec = conn_Write_spec [OF wr]
    let ?xs = "take w (take k ?d)" and ?zs = "drop w (take k ?d)"
    have "sink_bytes out = sink_bytes (cn_out to) @ ?xs" using spec(2) by (simp add: sink_bytes_def)
    moreover have "sk_failed out \<longleftrightarrow> ?zs \<noteq> []" using spec(1,3,4) lk(1) by auto
    ultimately have k': "link_of from' to' = ?k\<lparr>ln_pending := drop k ?d, ln_delivered := ln_delivered ?k @ ?xs, ln_failed := ?zs \<noteq> []\<rparr>"
      by (simp add: link_of_def t f)
    have "?d = ?xs @ ?zs @ drop k ?d" by (simp only: append_assoc [symmetric] append_take_drop_id)
    then show ?thesis unfolding k' by (intro link_moves) (use lk in \<open>simp_all add: link_of_def\<close>)
  qed
qed

lemma duplex_up: "link_step\<^sup>*\<^sup>* u u' \<Longrightarrow> duplex_step\<^sup>*\<^sup>* (u, d) (u', d)"
  by (induction rule: rtranclp_induct) (auto intro: rtranclp.rtrancl_into_rtrancl duplex_step.upstream)

lemma duplex_down: "link_step\<^sup>*\<^sup>* d d' \<Longrightarrow> duplex_step\<^sup>*\<^sup>* (u, d) (u, d')"
  by (induction rule: rtranclp_induct) (auto intro: rtranclp.rtrancl_into_rtrancl duplex_step.downstream)

lemma link_of_frame:
  "cn_in from' = cn_in from \<Longrightarrow> cn_out to' = cn_out to \<Longrightarrow> cn_wclosed to' = cn_wclosed to \<Longrightarrow>
   link_of from' to' = link_of from to"
  by (simp add: link_of_def)

lemma link_shut:
  assumes "dir_ok from0 to0 from to Closing" and "\<not> sk_failed (cn_out to0)"
  shows "link_step\<^sup>*\<^sup>* (link_of from to) (link_of (Conn_CloseRead from) (Conn_CloseWrite to))"
proof -
  have "link_step (link_of from to) ((link_of from to)\<lparr>ln_eof := True\<rparr>)"
    using dir_ok_link [OF assms] by (intro link_step.shut) (simp_all add: link_of_def)
  then show ?thesis by (intro r_into_rtranclp) (simp add: link_of_def Conn_CloseRead_def Conn_CloseWrite_def)
qed

lemma link_of_close: "link_of (Conn_CloseWrite from) (Conn_CloseRead to) = link_of from to"
  by (simp add: link_of_def Conn_CloseRead_def Conn_CloseWrite_def)

lemma pipe_step_simulates:
  assumes "pipe_step bufSize timeoutMs s t" and inv: "pipe_inv l0 r0 s"
    and "\<not> sk_failed (cn_out l0)" "\<not> sk_failed (cn_out r0)"
  shows "duplex_step\<^sup>*\<^sup>* (duplex_of s) (duplex_of t)"
  using assms(1)
proof cases
  case (up_copy n l r cont)
  from inv up_copy(2) have "link_step\<^sup>*\<^sup>* (link_of (pp_l s) (pp_r s)) (link_of l r)"
    by (intro copy_turn_link [of l0 r0, OF _ assms(4) up_copy(3)]) (auto simp: pipe_inv_def)
  moreover have "link_of r l = link_of (pp_r s) (pp_l s)" using copy_turn_frame [OF up_copy(3)] by (intro link_of_frame)
  ultimately show ?thesis using up_copy(1) by (simp add: duplex_of_def duplex_up)
next
  case (down_copy n r l cont)
  from inv down_copy(2) have "link_step\<^sup>*\<^sup>* (link_of (pp_r s) (pp_l s)) (link_of r l)"
    by (intro copy_turn_link [of r0 l0, OF _ assms(3) down_copy(3)]) (auto simp: pipe_inv_def)
  moreover have "link_of l r = link_of (pp_l s) (pp_r s)" using copy_turn_frame [OF down_copy(3)] by (intro link_of_frame)
  ultimately show ?thesis using down_copy(1) by (simp add: duplex_of_def duplex_down)
next
  case up_close
  with inv assms(3,4) link_shut [of l0 r0 "pp_l s" "pp_r s"] show ?thesis by (simp add: pipe_inv_def duplex_of_def duplex_up link_of_close)
next
  case down_close
  with inv assms(3,4) link_shut [of r0 l0 "pp_r s" "pp_l s"] show ?thesis by (simp add: pipe_inv_def duplex_of_def duplex_down link_of_close)
next
  case finish
  then show ?thesis by (simp add: duplex_of_def link_of_def Conn_Close_def)
qed

text \<open>The relay's invariant, with sinks on which no \<open>Write\<close> had failed at the beginning.\<close>

definition clean_inv :: "conn \<Rightarrow> conn \<Rightarrow> pipe_state \<Rightarrow> bool" where
  "clean_inv l0 r0 s \<longleftrightarrow> pipe_inv l0 r0 s \<and> \<not> sk_failed (cn_out l0) \<and> \<not> sk_failed (cn_out r0)"

interpretation relay: refinement_map "pipe_step bufSize timeoutMs" "clean_inv l0 r0" duplex_step duplex_of
  for bufSize timeoutMs l0 r0
  by unfold_locales (auto simp: clean_inv_def intro: pipe_step_inv pipe_step_simulates)

section \<open>Properties\<close>

text \<open>C7: the relay implements the specification.  Every run of the two goroutines is, seen through the bytes pending
  and delivered, whether a \<open>Write\<close> has returned an error, and the ends signalled, a run of two independent
  links; so the specification's invariant holds of every state of the relay, in both directions: nothing
  is added or reordered, bytes that were read are missing at the other side exactly when a \<open>Write\<close> has
  returned an error, and the end of the stream is not signalled early unless one has.  (Assumed: no
  \<open>Write\<close> has failed before the relay begins; \<open>Serve\<close> does not start one otherwise.)\<close>

theorem pipe_refines_duplex:
  assumes "fresh_conn l0" and "fresh_conn r0" and "\<not> sk_failed (cn_out l0)" and "\<not> sk_failed (cn_out r0)"
    and "(pipe_step bufSize timeoutMs)\<^sup>*\<^sup>* (pipe_init l0 r0) s"
  shows "duplex_step\<^sup>*\<^sup>* (duplex_of (pipe_init l0 r0)) (duplex_of s) \<and>
    duplex_inv (sink_bytes (cn_out r0) @ rd_data (cn_in l0)) (sink_bytes (cn_out l0) @ rd_data (cn_in r0)) (duplex_of s)"
proof -
  have "clean_inv l0 r0 (pipe_init l0 r0)" using pipe_inv_init [OF assms(1,2)] assms(3,4) by (simp add: clean_inv_def)
  with assms(5) have run: "duplex_step\<^sup>*\<^sup>* (duplex_of (pipe_init l0 r0)) (duplex_of s)" by (rule relay.run_refines)
  moreover have "duplex_inv (sink_bytes (cn_out r0) @ rd_data (cn_in l0)) (sink_bytes (cn_out l0) @ rd_data (cn_in r0))
      (duplex_of (pipe_init l0 r0))"
    using assms(1-4) by (simp add: duplex_inv_def link_inv_def duplex_of_def link_of_def pipe_init_def fresh_conn_def)
  ultimately show ?thesis using duplex.run_invar by blast
qed

text \<open>The witness: a server that takes two of the client's three bytes.\<close>

definition demo_small :: conn where
  "demo_small = new_conn \<lparr>rd_data = [7], rd_end = EOF\<rparr> \<lparr>sk_segments = [], sk_budget = Some 2, sk_failed = False\<rparr>"

theorem pipe_refines_duplex_witness:
  "\<exists>s. (pipe_step 4096 0)\<^sup>*\<^sup>* (pipe_init demo_l demo_small) s \<and> cn_closed (pp_r s) \<and>
     link_inv [1, 2, 3] (fst (duplex_of s)) \<and> ln_eof (fst (duplex_of s))"
proof -
  have fresh: "fresh_conn demo_l" "fresh_conn demo_small" by (simp_all add: demo_small_def fresh_conn_def new_conn_def demo_l_def)
  have clean: "\<not> sk_failed (cn_out demo_l)" "\<not> sk_failed (cn_out demo_small)"
    by (simp_all add: demo_small_def new_conn_def demo_l_def open_sink_def)
  obtain s where s: "(pipe_step 4096 0)\<^sup>*\<^sup>* (pipe_init demo_l demo_small) s" and inv: "pipe_inv demo_l demo_small s" and "pp_done s"
    by (rule pipe_completes [OF fresh, of 0 4096]) (simp_all add: demo_small_def new_conn_def)
  then have cl: "cn_closed (pp_r s)" by (simp add: pipe_inv_def)
  with pipe_inv_closed [OF inv] have "ln_eof (fst (duplex_of s))" by (simp add: duplex_of_def link_of_def)
  moreover have "link_inv [1, 2, 3] (fst (duplex_of s))"
    using pipe_refines_duplex [OF fresh clean s]
    by (simp add: duplex_inv_def demo_l_def demo_small_def new_conn_def sink_bytes_def open_sink_def)
  ultimately show ?thesis using s cl by blast
qed

end
