(* ===== verification/Handlers.thy ===== *)
theory Handlers
  imports Pipe Http_Packet Tls_Packet
begin

text \<open>
  Package \<open>proxy/handler\<close>: \<open>HttpHandler.Serve\<close> (\<open>http.go\<close>) and \<open>HttpsHandler.Serve\<close> (\<open>https.go\<close>).  A call
  aborts, or hands both connections to \<open>pipe\<close>, or is stuck in a read that does not return.  Dialling is a parameter: the
  type, the stream and the sink of the connection to the server.  The
  reader that the handlers get is the buffered reader over the client's connection, so what it
  still delivers is the incoming stream of that connection.  Logging is not modelled.
\<close>

section \<open>Handlers\<close>

record HttpHandler =
  hh_bufferSize :: nat
  hh_protocol :: string
  hh_timeout :: int

definition NewHttpHandler :: "int \<Rightarrow> HttpHandler" where
  "NewHttpHandler timeout = \<lparr>hh_bufferSize = 4 * 1024, hh_protocol = ''HTTP'', hh_timeout = timeout\<rparr>"

definition defaultBufSize :: nat where "defaultBufSize = 4 * 1024"

record 'p HttpsHandler =
  hs_bufferSize :: nat
  hs_protocol :: string
  hs_timeout :: int
  hs_windowSize :: int
  hs_exploit :: bool
  hs_allowedPatterns :: 'p

definition NewHttpsHandler :: "int \<Rightarrow> int \<Rightarrow> 'p \<Rightarrow> bool \<Rightarrow> 'p HttpsHandler" where
  "NewHttpsHandler timeout windowSize allowedPatterns exploit =
     \<lparr>hs_bufferSize = defaultBufSize, hs_protocol = ''HTTPS'', hs_timeout = timeout, hs_windowSize = windowSize,
      hs_exploit = exploit, hs_allowedPatterns = allowedPatterns\<rparr>"

text \<open>Dialling gives the name of the connection's type, its stream and its sink.\<close>

type_synonym dialer = "string \<Rightarrow> (string \<times> reader \<times> sink) result"

abbreviation tcpConn :: string where "tcpConn \<equiv> ''*net.TCPConn''"

definition dialTCP :: "dialer \<Rightarrow> string \<Rightarrow> int \<Rightarrow> conn result" where
  "dialTCP dial ip port =
     (case dial (net_JoinHostPort ip (strconv_Itoa port)) of
        Inl err \<Rightarrow> Inl err
      | Inr (ty, r, k) \<Rightarrow>
          if ty = tcpConn then Inr (new_conn r k) else Inl (ErrString (''expected *net.TCPConn, got '' @ ty)))"

text \<open>The port to dial: the default, or the one given if it is a number from 1 to 65535.\<close>

definition serve_port :: "int \<Rightarrow> HttpRequest \<Rightarrow> int option" where
  "serve_port dflt pkt =
     (if hr_port pkt \<noteq> [] then
        (case strconv_Atoi (hr_port pkt) of
           (parsed, err) \<Rightarrow> if err \<noteq> None \<or> parsed \<le> 0 \<or> 65535 < parsed then None else Some parsed)
      else Some dflt)"

datatype served = Aborted conn "conn option" | Relayed conn conn | Stuck conn "conn option"

definition HttpHandler_Serve :: "dialer \<Rightarrow> HttpHandler \<Rightarrow> conn \<Rightarrow> HttpRequest \<Rightarrow> string \<Rightarrow> served" where
  "HttpHandler_Serve dial h lConn pkt ip =
     (case serve_port 80 pkt of
        None \<Rightarrow> Aborted (Conn_Close lConn) None
      | Some port \<Rightarrow>
          (case dialTCP dial ip port of
             Inl err \<Rightarrow> Aborted (Conn_Close lConn) None
           | Inr rConn \<Rightarrow>
               (case Conn_Write rConn (raw pkt) of
                  (n, Some err, rConn1) \<Rightarrow> Aborted (Conn_Close lConn) (Some (Conn_Close rConn1))
                | (n, None, rConn1) \<Rightarrow> Relayed lConn rConn1)))"

definition established :: "HttpRequest \<Rightarrow> bytes" where
  "established pkt = bytes_of_string (hr_version pkt @ '' 200 Connection Established'' @ crlf @ crlf)"

text \<open>Writing the ClientHello, in chunks or in one piece.\<close>

definition write_hello :: "'p HttpsHandler \<Rightarrow> conn \<Rightarrow> bytes \<Rightarrow> go_error option \<times> conn" where
  "write_hello h rConn clientHello =
     (if hs_exploit h then
        (case writeChunks (cn_out rConn) (splitInChunks clientHello (hs_windowSize h)) of
           (n, err, k) \<Rightarrow> (err, rConn\<lparr>cn_out := k\<rparr>))
      else (case Conn_Write rConn clientHello of (n, err, rConn1) \<Rightarrow> (err, rConn1)))"

definition HttpsHandler_Serve :: "dialer \<Rightarrow> 'p HttpsHandler \<Rightarrow> conn \<Rightarrow> HttpRequest \<Rightarrow> string \<Rightarrow> served" where
  "HttpsHandler_Serve dial h lConn initPkt ip =
     (case serve_port 443 initPkt of
        None \<Rightarrow> Aborted (Conn_Close lConn) None
      | Some port \<Rightarrow>
          (case dialTCP dial ip port of
             Inl err \<Rightarrow> Aborted (Conn_Close lConn) None
           | Inr rConn \<Rightarrow>
               (case Conn_Write lConn (established initPkt) of
                  (n, Some err, lConn1) \<Rightarrow> Aborted (Conn_Close lConn1) (Some (Conn_Close rConn))
                | (n, None, lConn1) \<Rightarrow>
                    (case ReadTLSMessage (cn_in lConn1) of
                       (Inl err, lReader) \<Rightarrow>
                         if err = NeverReturns then Stuck (lConn1\<lparr>cn_in := lReader\<rparr>) (Some rConn)
                         else Aborted (Conn_Close (lConn1\<lparr>cn_in := lReader\<rparr>)) (Some (Conn_Close rConn))
                     | (Inr m, lReader) \<Rightarrow>
                         let lConn2 = lConn1\<lparr>cn_in := lReader\<rparr>
                         in if \<not> IsClientHello m then Aborted (Conn_Close lConn2) (Some (Conn_Close rConn))
                            else (case write_hello h rConn (Raw m) of
                                    (Some err, rConn1) \<Rightarrow> Aborted (Conn_Close lConn2) (Some (Conn_Close rConn1))
                                  | (None, rConn1) \<Rightarrow> Relayed lConn2 rConn1)))))"

section \<open>The interface Handler\<close>

text \<open>What the connections are when the call has returned: as the abort left them, or as the relay did.\<close>

inductive served_ends :: "nat \<Rightarrow> int \<Rightarrow> served \<Rightarrow> conn \<Rightarrow> conn option \<Rightarrow> bool" for bufSize timeoutMs where
  aborted: "served_ends bufSize timeoutMs (Aborted l r) l r"
| relayed: "(pipe_step bufSize timeoutMs)\<^sup>*\<^sup>* (pipe_init l r) s \<Longrightarrow> pp_done s \<Longrightarrow>
    served_ends bufSize timeoutMs (Relayed l r) (pp_l s) (Some (pp_r s))"

inductive_cases served_endsE: "served_ends bufSize timeoutMs v l r"

lemma served_ends_relayed:
  assumes "fresh_conn l" and "fresh_conn r"
    and "0 < timeoutMs \<or> rd_end (cn_in l) \<noteq> NeverReturns \<and> rd_end (cn_in r) \<noteq> NeverReturns"
  shows "\<exists>l' r'. served_ends bufSize timeoutMs (Relayed l r) l' (Some r')"
  by (rule pipe_completes [OF assms, of bufSize]) (blast intro: served_ends.relayed)

locale connection_handler =
  fixes serve :: "conn \<Rightarrow> HttpRequest \<Rightarrow> string \<Rightarrow> served"
  assumes abort_closes: "serve l pkt ip = Aborted l' r' \<Longrightarrow> cn_closed l' \<and> (\<forall>r. r' = Some r \<longrightarrow> cn_closed r)"
    and relay_open: "fresh_conn l \<Longrightarrow> serve l pkt ip = Relayed l1 r1 \<Longrightarrow> fresh_conn l1 \<and> fresh_conn r1"
    and stuck_silent: "serve l pkt ip = Stuck l' r' \<Longrightarrow> rd_end (cn_in l) = NeverReturns"
begin

text \<open>The three ways in which a call goes on: both connections are closed, or a relay starts between open connections, or the
  call waits for a silent client.\<close>

lemma serve_outcome:
  assumes "fresh_conn l"
  shows "case serve l pkt ip of
      Aborted l' r' \<Rightarrow> cn_closed l' \<and> (\<forall>r. r' = Some r \<longrightarrow> cn_closed r)
    | Relayed l1 r1 \<Rightarrow> fresh_conn l1 \<and> fresh_conn r1
    | Stuck l' r' \<Rightarrow> rd_end (cn_in l) = NeverReturns"
  using abort_closes relay_open [OF assms] stuck_silent by (auto split: served.split)

end

lemma fresh_Write [wf_intros]: "fresh_conn c \<Longrightarrow> Conn_Write c bs = (n, err, c') \<Longrightarrow> fresh_conn c'"
  using Conn_Write_frame [of c bs n err c'] by (simp add: fresh_conn_def)

lemma fresh_new [simp, wf_intros]: "fresh_conn (new_conn r k)"
  by (simp add: fresh_conn_def new_conn_def)

lemma dialTCP_ok: "dialTCP dial ip port = Inr c \<Longrightarrow>
  \<exists>r k. dial (net_JoinHostPort ip (strconv_Itoa port)) = Inr (tcpConn, r, k) \<and> c = new_conn r k"
  by (auto simp: dialTCP_def split: sum.splits prod.splits if_splits)

lemma write_hello_fresh [wf_intros]: "fresh_conn c \<Longrightarrow> write_hello h c hello = (err, c') \<Longrightarrow> fresh_conn c'"
  by (auto simp: write_hello_def fresh_conn_def split: if_splits prod.splits dest: Conn_Write_frame)

lemma closed_Close [simp]: "cn_closed (Conn_Close c)"
  by (simp add: Conn_Close_def)

interpretation http_handler: connection_handler "HttpHandler_Serve dial h" for dial h
  by unfold_locales
    (auto simp: HttpHandler_Serve_def split: option.splits sum.splits prod.splits
      dest!: dialTCP_ok intro: wf_intros)

interpretation https_handler: connection_handler "HttpsHandler_Serve dial h" for dial h
proof
  fix l pkt ip l' r'
  assume "HttpsHandler_Serve dial h l pkt ip = Aborted l' r'"
  then show "cn_closed l' \<and> (\<forall>r. r' = Some r \<longrightarrow> cn_closed r)"
    by (auto simp: HttpsHandler_Serve_def Let_def split: option.splits sum.splits prod.splits if_splits)
next
  fix l pkt ip l1 r1
  assume "fresh_conn l" and "HttpsHandler_Serve dial h l pkt ip = Relayed l1 r1"
  then show "fresh_conn l1 \<and> fresh_conn r1"
    by (auto simp: HttpsHandler_Serve_def Let_def split: option.splits sum.splits prod.splits if_splits
        dest!: dialTCP_ok intro: wf_intros)
       (auto simp: fresh_conn_def dest: Conn_Write_frame)
next
  fix l pkt ip l' r'
  assume "HttpsHandler_Serve dial h l pkt ip = Stuck l' r'"
  then show "rd_end (cn_in l) = NeverReturns"
    by (auto simp: HttpsHandler_Serve_def Let_def split: option.splits sum.splits prod.splits if_splits
        dest!: ReadTLS_blocks dest: Conn_Write_frame(1))
qed

section \<open>What the handlers send\<close>

lemma serve_port_range: "serve_port dflt pkt = Some port \<Longrightarrow> dflt \<in> {1..65535} \<Longrightarrow> port \<in> {1..65535}"
  by (auto simp: serve_port_def split: if_splits prod.splits)

lemma fresh_Write_ok:
  assumes "fresh_conn c" and "Conn_Write c bs = (n, None, c')"
  shows "sk_segments (cn_out c') = sk_segments (cn_out c) @ [bs]"
  using assms by (auto simp: Conn_Write_def fresh_conn_def split: prod.splits dest: conn_Write_ok)

definition hello_segments :: "'p HttpsHandler \<Rightarrow> bytes \<Rightarrow> bytes list" where
  "hello_segments h hello = (if hs_exploit h then splitInChunks hello (hs_windowSize h) else [hello])"

lemma write_hello_ok:
  assumes "fresh_conn c" and "write_hello h c hello = (None, c')"
  shows "sk_segments (cn_out c') = sk_segments (cn_out c) @ hello_segments h hello" and "cn_in c' = cn_in c"
proof -
  have wc: "sk_segments k' = sk_segments k @ cs" if "writeChunks k cs = (n, None, k')" for k cs n k'
    using write_chunks_from_spec [OF that [unfolded writeChunks_def]] by auto
  show "sk_segments (cn_out c') = sk_segments (cn_out c) @ hello_segments h hello"
    using assms by (auto simp: write_hello_def hello_segments_def split: if_splits prod.splits dest: wc fresh_Write_ok)
  show "cn_in c' = cn_in c"
    using assms by (auto simp: write_hello_def split: if_splits prod.splits dest: Conn_Write_frame)
qed

lemma write_hello_open:
  assumes "fresh_conn c" and "sk_budget (cn_out c) = None"
  shows "\<exists>c'. write_hello h c hello = (None, c')"
proof -
  have "\<exists>n k'. write_chunks_from t i k cs = (n, None, k')" if "sk_budget k = None" for t i k cs
    using that by (induction t i k cs rule: write_chunks_from.induct) (auto simp: conn_Write_open)
  with assms show ?thesis
    by (auto simp: write_hello_def writeChunks_def Conn_Write_def fresh_conn_def conn_Write_open split: prod.splits)
       (metis option.distinct(1) prod.inject)
qed

lemma https_relayed_cases:
  assumes "fresh_conn l" and "HttpsHandler_Serve dial h l pkt ip = Relayed l' r'"
  obtains port sr k m where "serve_port 443 pkt = Some port"
    and "dial (net_JoinHostPort ip (strconv_Itoa port)) = Inr (tcpConn, sr, k)"
    and "IsClientHello m" and "rd_data (cn_in l) = Raw m @ rd_data (cn_in l')" and "rd_end (cn_in l') = rd_end (cn_in l)"
    and "cn_in r' = sr" and "sk_segments (cn_out l') = sk_segments (cn_out l) @ [established pkt]"
    and "sk_segments (cn_out r') = sk_segments k @ hello_segments h (Raw m)"
proof -
  from assms(2) obtain port rConn n l1 m lr where port: "serve_port 443 pkt = Some port"
    and d: "dialTCP dial ip port = Inr rConn" and w: "Conn_Write l (established pkt) = (n, None, l1)"
    and t: "ReadTLSMessage (cn_in l1) = (Inr m, lr)" and m: "IsClientHello m"
    and h: "write_hello h rConn (Raw m) = (None, r')" and l': "l' = l1\<lparr>cn_in := lr\<rparr>"
    by (auto simp: HttpsHandler_Serve_def Let_def split: option.splits sum.splits prod.splits if_splits)
  from dialTCP_ok [OF d] obtain sr k where sk: "dial (net_JoinHostPort ip (strconv_Itoa port)) = Inr (tcpConn, sr, k)"
    "rConn = new_conn sr k" by blast
  note hello = write_hello_ok [OF _ h]
  show ?thesis
    by (rule that [OF port sk(1) m])
       (use ReadTLS_split [OF t] Conn_Write_frame [OF w] fresh_Write_ok [OF assms(1) w] hello sk(2) l'
        in \<open>simp_all add: new_conn_def fresh_conn_def\<close>)
qed

lemma http_relayed_cases:
  assumes "HttpHandler_Serve dial h l pkt ip = Relayed l' r'"
  obtains port sr k where "serve_port 80 pkt = Some port"
    and "dial (net_JoinHostPort ip (strconv_Itoa port)) = Inr (tcpConn, sr, k)" and "l' = l"
    and "cn_in r' = sr" and "sk_segments (cn_out r') = sk_segments k @ [raw pkt]"
proof -
  from assms obtain port rConn n where port: "serve_port 80 pkt = Some port"
    and d: "dialTCP dial ip port = Inr rConn" and w: "Conn_Write rConn (raw pkt) = (n, None, r')" and l: "l' = l"
    by (auto simp: HttpHandler_Serve_def split: option.splits sum.splits prod.splits)
  from dialTCP_ok [OF d] obtain sr k where sk: "dial (net_JoinHostPort ip (strconv_Itoa port)) = Inr (tcpConn, sr, k)"
    "rConn = new_conn sr k" by blast
  show ?thesis
    by (rule that [OF port sk(1) l])
       (use Conn_Write_frame(1) [OF w] fresh_Write_ok [OF _ w] sk(2) in \<open>simp_all add: new_conn_def fresh_conn_def\<close>)
qed

lemma https_relays_hello:
  assumes "fresh_conn l" and "sk_budget (cn_out l) = None" and "serve_port 443 pkt = Some port"
    and "dial (net_JoinHostPort ip (strconv_Itoa port)) = Inr (tcpConn, sr, k)" and "sk_budget k = None"
    and "rd_data (cn_in l) = tls_record 0x16 vhi vlo (1 # body) @ rest" and "length body < 16384"
  shows "\<exists>l' r'. HttpsHandler_Serve dial h l pkt ip = Relayed l' r' \<and> rd_data (cn_in l') = rest"
proof -
  from assms(1,2) obtain n l1 where w: "Conn_Write l (established pkt) = (n, None, l1)"
    by (auto simp: Conn_Write_def fresh_conn_def conn_Write_open)
  have "rd_data (cn_in l1) = tls_record 0x16 vhi vlo (1 # body) @ rest"
    using Conn_Write_frame(1) [OF w] assms(6) by simp
  moreover have "length (1 # body) \<le> 16384" using assms(7) by simp
  ultimately have t: "ReadTLSMessage (cn_in l1) = (Inr (message_of (tls_record 0x16 vhi vlo (1 # body))), (cn_in l1)\<lparr>rd_data := rest\<rparr>)"
    by (intro ReadTLS_record)
  have "\<exists>r'. write_hello h (new_conn sr k) (Raw (message_of (tls_record 0x16 vhi vlo (1 # body)))) = (None, r')"
    using assms(5) by (intro write_hello_open) (simp_all add: new_conn_def fresh_conn_def)
  with assms(3,4) w t show ?thesis
    by (auto simp: HttpsHandler_Serve_def dialTCP_def Let_def IsClientHello_record)
qed

lemma hello_segments_concat [simp]: "concat (hello_segments h hello) = hello"
  by (simp add: hello_segments_def)

lemma conn_Write_budget: "conn_Write k bs = (n, err, k') \<Longrightarrow> sk_budget k = None \<Longrightarrow> sk_budget k' = None"
  by (simp add: conn_Write_def split: option.splits) auto

lemma Conn_Write_budget: "Conn_Write c bs = (n, err, c') \<Longrightarrow> sk_budget (cn_out c) = None \<Longrightarrow> sk_budget (cn_out c') = None"
  by (auto simp: Conn_Write_def split: if_splits prod.splits dest: conn_Write_budget)

lemma write_chunks_budget: "write_chunks_from t i k cs = (n, err, k') \<Longrightarrow> sk_budget k = None \<Longrightarrow> sk_budget k' = None"
  by (induction t i k cs rule: write_chunks_from.induct)
     (auto simp: conn_Write_open split: prod.splits option.splits dest: conn_Write_budget)

lemma write_hello_budget: "write_hello h c bs = (err, c') \<Longrightarrow> sk_budget (cn_out c) = None \<Longrightarrow> sk_budget (cn_out c') = None"
  by (auto simp: write_hello_def writeChunks_def split: if_splits prod.splits dest: write_chunks_budget Conn_Write_budget)

text \<open>Sinks that never refuse a write stay so.\<close>

lemma https_relayed_budgets:
  assumes "HttpsHandler_Serve dial h l pkt ip = Relayed l' r'" and "sk_budget (cn_out l) = None"
    and "\<And>addr b sr k. dial addr = Inr (b, sr, k) \<Longrightarrow> sk_budget k = None"
  shows "sk_budget (cn_out l') = None \<and> sk_budget (cn_out r') = None"
  using assms
  by (auto simp: HttpsHandler_Serve_def Let_def new_conn_def split: option.splits sum.splits prod.splits if_splits
      dest!: dialTCP_ok write_hello_budget dest: Conn_Write_budget)

lemma http_relayed_budgets:
  assumes "HttpHandler_Serve dial h l pkt ip = Relayed l' r'"
    and "\<And>addr b sr k. dial addr = Inr (b, sr, k) \<Longrightarrow> sk_budget k = None"
  shows "sk_budget (cn_out r') = None"
  using assms
  by (auto simp: HttpHandler_Serve_def new_conn_def split: option.splits sum.splits prod.splits
      dest!: dialTCP_ok dest: Conn_Write_budget)

lemma served_relayed_done:
  assumes "fresh_conn l" "fresh_conn r" and "served_ends bufSize timeoutMs (Relayed l r) l' r'"
  obtains s where "pipe_inv l r s" "pp_done s" "l' = pp_l s" "r' = Some (pp_r s)"
  using assms(3)
proof cases
  case (relayed s)
  have "pipe_inv l r s" using relayed(3) pipe_inv_init [OF assms(1,2)] by (rule pipe.run_invar)
  then show ?thesis using relayed that by blast
qed

text \<open>A relay that has come to its end has delivered both streams whole when the sinks refuse nothing.\<close>

lemma relay_delivers:
  assumes "fresh_conn l" and "fresh_conn r" and "sk_budget (cn_out l) = None" and "sk_budget (cn_out r) = None"
    and "served_ends bufSize timeoutMs (Relayed l r) l' (Some r')"
  shows "sink_bytes (cn_out r') = sink_bytes (cn_out r) @ rd_data (cn_in l)"
    and "sink_bytes (cn_out l') = sink_bytes (cn_out l) @ rd_data (cn_in r)" and "cn_closed l'" and "cn_closed r'"
proof -
  obtain s where inv: "pipe_inv l r s" and dn: "pp_done s" and ends: "l' = pp_l s" "r' = pp_r s"
    using served_relayed_done [OF assms(1,2,5)] by blast
  have closed: "cn_closed (pp_l s)" "cn_closed (pp_r s)" using inv dn by (simp_all add: pipe_inv_def)
  with pipe_inv_closed [OF inv] have "cn_wclosed (pp_l s)" "cn_wclosed (pp_r s)" by simp_all
  with pipe_inv_delivered [OF inv] assms(3,4) closed
  show "sink_bytes (cn_out r') = sink_bytes (cn_out r) @ rd_data (cn_in l)"
    "sink_bytes (cn_out l') = sink_bytes (cn_out l) @ rd_data (cn_in r)" "cn_closed l'" "cn_closed r'"
    by (simp_all add: ends)
qed

section \<open>Properties\<close>

text \<open>C26: a well-formed CONNECT is relayed: with a valid or absent port, a server that accepts the
  connection, open sinks, and a client that sends a ClientHello record of at most 16384 bytes of
  payload, \<open>Serve\<close> does not abort, whatever the client sends after it.\<close>

theorem https_serve_relays:
  assumes "fresh_conn l" and "sk_budget (cn_out l) = None" and "serve_port 443 pkt = Some port"
    and "dial (net_JoinHostPort ip (strconv_Itoa port)) = Inr (tcpConn, sr, k)" and "sk_budget k = None"
    and "rd_data (cn_in l) = tls_record 0x16 vhi vlo (1 # body) @ rest" and "length body < 16384"
  shows "\<exists>l' r'. HttpsHandler_Serve dial h l pkt ip = Relayed l' r' \<and> rd_data (cn_in l') = rest"
  using assms by (rule https_relays_hello)

text \<open>C27: a server is not contacted with anything but a ClientHello.  With a valid or absent port and a
  server that accepts the connection, when the client's first message is incomplete, oversized
  or no ClientHello, \<open>Serve\<close> starts no relay: it closes both connections, and not a byte was written to the server;
  or, when the client stays silent in the middle of the message, it waits, with nothing written either.\<close>

theorem https_serve_refuses:
  assumes "fresh_conn l" and "serve_port 443 pkt = Some port"
    and "dial (net_JoinHostPort ip (strconv_Itoa port)) = Inr (tcpConn, sr, k)"
    and "\<forall>m rest. ReadTLSMessage (cn_in l) = (Inr m, rest) \<longrightarrow> \<not> IsClientHello m"
  shows "case HttpsHandler_Serve dial h l pkt ip of
      Aborted l' r' \<Rightarrow> cn_closed l' \<and> (\<exists>r. r' = Some r \<and> cn_closed r \<and> cn_out r = k)
    | Stuck l' r' \<Rightarrow> rd_end (cn_in l) = NeverReturns \<and> (\<exists>r. r' = Some r \<and> cn_out r = k)
    | Relayed l' r' \<Rightarrow> False"
proof -
  have d: "dialTCP dial ip port = Inr (new_conn sr k)" using assms(3) by (simp add: dialTCP_def)
  obtain n err l1 where w: "Conn_Write l (established pkt) = (n, err, l1)" by (metis prod_cases3)
  have "ReadTLSMessage (cn_in l1) = ReadTLSMessage (cn_in l)" using Conn_Write_frame(1) [OF w] by simp
  with assms(2,4) d w show ?thesis
    by (auto simp: HttpsHandler_Serve_def Let_def Conn_Close_def new_conn_def dest: ReadTLS_blocks
        split: option.splits sum.splits prod.splits)
qed

text \<open>A plain request is forwarded as rewritten: the server gets the request's bytes first, in one
  piece, on a port from 1 to 65535; nothing of the rest of the client's stream is consumed.\<close>

lemma http_serve_sends:
  assumes "HttpHandler_Serve dial h l pkt ip = Relayed l' r'"
  shows "\<exists>port sr k. port \<in> {1..65535} \<and> dial (net_JoinHostPort ip (strconv_Itoa port)) = Inr (tcpConn, sr, k) \<and>
    l' = l \<and> cn_in r' = sr \<and> sk_segments (cn_out r') = sk_segments k @ [raw pkt]"
proof (rule http_relayed_cases [OF assms])
  fix port sr k
  assume "serve_port 80 pkt = Some port"
  then have "port \<in> {1..65535}" by (rule serve_port_range) simp
  moreover assume "dial (net_JoinHostPort ip (strconv_Itoa port)) = Inr (tcpConn, sr, k)" and "l' = l"
    and "cn_in r' = sr" and "sk_segments (cn_out r') = sk_segments k @ [raw pkt]"
  ultimately show ?thesis by blast
qed

text \<open>A client that opens a tunnel and sends a ClientHello of six bytes and three more bytes.\<close>

definition demo_dial :: dialer where
  "demo_dial addr = (if addr = ''9.9.9.9:443'' \<or> addr = ''9.9.9.9:80'' then Inr (tcpConn, \<lparr>rd_data = [7], rd_end = EOF\<rparr>, open_sink) else Inl ErrTimeout)"

definition demo_connect :: HttpRequest where
  "demo_connect = \<lparr>raw = [67, 13, 10, 13, 10], hr_method = ''CONNECT'', hr_domain = ''a.tr'', hr_port = ''443'', hr_path = ''/'', hr_version = ''HTTP/1.1''\<rparr>"

definition demo_client :: conn where
  "demo_client = new_conn \<lparr>rd_data = tls_record 0x16 3 1 [1] @ [8, 8, 8], rd_end = EOF\<rparr> open_sink"

lemma demo_443: "strconv_Itoa 443 = ''443''" "strconv_Itoa 80 = ''80''"
  by (simp_all add: strconv_Itoa_def format_nat.simps digit_char_def) (simp_all add: char_of_def bit_iff_odd)

lemma demo_port: "serve_port 443 demo_connect = Some 443"
proof -
  have "strconv_Atoi ''443'' = (443, None)" using Atoi_Itoa [of 443] by (simp add: demo_443)
  then show ?thesis by (simp add: serve_port_def demo_connect_def)
qed

theorem https_serve_relays_witness:
  "\<exists>l' r'. HttpsHandler_Serve demo_dial (NewHttpsHandler 0 2 () True) demo_client demo_connect ''9.9.9.9'' = Relayed l' r' \<and>
     rd_data (cn_in l') = [8, 8, 8]"
  using https_serve_relays [of demo_client demo_connect 443 demo_dial "''9.9.9.9''" "\<lparr>rd_data = [7], rd_end = EOF\<rparr>" open_sink
      3 1 "[]" "[8, 8, 8]" "NewHttpsHandler 0 2 () True"] demo_port
  by (simp add: demo_client_def new_conn_def fresh_conn_def open_sink_def demo_dial_def demo_443 net_JoinHostPort_def)

lemma demo_relayed:
  "\<exists>l' r'. HttpsHandler_Serve demo_dial h demo_client (demo_connect\<lparr>hr_domain := d, raw := bs\<rparr>) ''9.9.9.9'' = Relayed l' r'"
proof -
  have "serve_port 443 (demo_connect\<lparr>hr_domain := d, raw := bs\<rparr>) = Some 443"
    using demo_port by (simp add: serve_port_def demo_connect_def)
  moreover have "demo_dial (net_JoinHostPort ''9.9.9.9'' (strconv_Itoa 443)) = Inr (tcpConn, \<lparr>rd_data = [7], rd_end = EOF\<rparr>, open_sink)"
    by (simp add: demo_dial_def demo_443 net_JoinHostPort_def)
  moreover have "rd_data (cn_in demo_client) = tls_record 0x16 3 1 (1 # []) @ [8, 8, 8]"
    by (simp add: demo_client_def new_conn_def)
  moreover have "fresh_conn demo_client" "sk_budget (cn_out demo_client) = None" "sk_budget open_sink = None"
    by (simp_all add: demo_client_def new_conn_def open_sink_def fresh_conn_def)
  ultimately show ?thesis
    using https_relays_hello [of demo_client "demo_connect\<lparr>hr_domain := d, raw := bs\<rparr>" 443 demo_dial "''9.9.9.9''"
        "\<lparr>rd_data = [7], rd_end = EOF\<rparr>" open_sink 3 1 "[]" "[8, 8, 8]" h] by auto
qed

theorem https_serve_refuses_witness:
  "\<exists>l' r'. HttpsHandler_Serve demo_dial (NewHttpsHandler 0 2 () True) (new_conn \<lparr>rd_data = [71, 69, 84], rd_end = EOF\<rparr> open_sink)
       demo_connect ''9.9.9.9'' = Aborted l' (Some r') \<and> cn_closed l' \<and> cn_closed r' \<and> cn_out r' = open_sink"
proof -
  let ?l = "new_conn \<lparr>rd_data = [71, 69, 84], rd_end = EOF\<rparr> open_sink"
  have t: "ReadTLSMessage \<lparr>rd_data = [71, 69, 84], rd_end = EOF\<rparr> = (Inl ErrUnexpectedEOF, \<lparr>rd_data = [], rd_end = EOF\<rparr>)"
    by (simp add: ReadTLSMessage_eq TLSHeaderLen_def)
  have "demo_dial (net_JoinHostPort ''9.9.9.9'' (strconv_Itoa 443)) = Inr (tcpConn, \<lparr>rd_data = [7], rd_end = EOF\<rparr>, open_sink)"
    by (simp add: demo_dial_def demo_443 net_JoinHostPort_def)
  with https_serve_refuses [of ?l demo_connect 443 demo_dial "''9.9.9.9''" "\<lparr>rd_data = [7], rd_end = EOF\<rparr>" open_sink
      "NewHttpsHandler 0 2 () True"] demo_port t show ?thesis
    by (simp add: new_conn_def fresh_conn_def split: served.splits)
qed

end
