(* ===== verification/Buffers.thy ===== *)
theory Buffers
  imports Handlers "HOL-Library.Sublist"
begin

text \<open>
  Package \<open>proxy/handler\<close>, file \<open>https.go\<close>: the buffers of \<open>copyWithTimeout\<close>.  All copy loops of all relays
  share the pool \<open>bufPool\<close>; a loop takes a buffer from it (or makes one), reads into it and writes out of
  it, and puts it back when it returns.  Memory is explicit here: a buffer is an address, and
  the reads and writes of different loops interleave.  The theory shows that the relay may be analysed
  with values, as \<open>Pipe\<close> does: what a loop writes is what it has read.
\<close>

section \<open>Memory, pool and loops\<close>

datatype loop_pc = Ready | Holding nat | Full nat nat | Returned

record buf_state =
  bs_pool :: "nat list"
  bs_next :: nat
  bs_mem :: "nat \<Rightarrow> bytes"
  bs_loop :: "nat \<Rightarrow> loop_pc"
  bs_read :: "nat \<Rightarrow> bytes"
  bs_written :: "nat \<Rightarrow> bytes"

definition buf_init :: buf_state where
  "buf_init = \<lparr>bs_pool = [], bs_next = 0, bs_mem = (\<lambda>b. []), bs_loop = (\<lambda>d. Ready),
     bs_read = (\<lambda>d. []), bs_written = (\<lambda>d. [])\<rparr>"

text \<open>The deferred \<open>Put\<close>: only loops with the default size use the pool.\<close>

definition put_back :: "nat \<Rightarrow> nat \<Rightarrow> nat list \<Rightarrow> nat list" where
  "put_back bufSize b pool = (if bufSize = defaultBufSize then b # pool else pool)"

text \<open>
  \<open>bufSize\<close> gives the size each loop is called with.  The pool may drop a buffer at any time; it makes a new
  one when it has none to give, or does not want to.  A write may fail after some of its bytes.
\<close>

inductive buf_step :: "(nat \<Rightarrow> nat) \<Rightarrow> buf_state \<Rightarrow> buf_state \<Rightarrow> bool" for bufSize where
  take: "bs_loop s d = Ready \<Longrightarrow> bufSize d = defaultBufSize \<Longrightarrow> b \<in> set (bs_pool s) \<Longrightarrow>
    buf_step bufSize s (s\<lparr>bs_pool := remove1 b (bs_pool s), bs_loop := (bs_loop s)(d := Holding b)\<rparr>)"
| make: "bs_loop s d = Ready \<Longrightarrow>
    buf_step bufSize s (s\<lparr>bs_next := Suc (bs_next s), bs_mem := (bs_mem s)(bs_next s := replicate (bufSize d) 0),
      bs_loop := (bs_loop s)(d := Holding (bs_next s))\<rparr>)"
| read: "bs_loop s d = Holding b \<Longrightarrow> data \<noteq> [] \<Longrightarrow> length data \<le> length (bs_mem s b) \<Longrightarrow>
    buf_step bufSize s (s\<lparr>bs_mem := (bs_mem s)(b := data @ drop (length data) (bs_mem s b)),
      bs_loop := (bs_loop s)(d := Full b (length data)), bs_read := (bs_read s)(d := bs_read s d @ data)\<rparr>)"
| flush: "bs_loop s d = Full b n \<Longrightarrow>
    buf_step bufSize s (s\<lparr>bs_written := (bs_written s)(d := bs_written s d @ take n (bs_mem s b)),
      bs_loop := (bs_loop s)(d := Holding b)\<rparr>)"
| flush_fails: "bs_loop s d = Full b n \<Longrightarrow> k < n \<Longrightarrow>
    buf_step bufSize s (s\<lparr>bs_written := (bs_written s)(d := bs_written s d @ take k (bs_mem s b)),
      bs_loop := (bs_loop s)(d := Returned), bs_pool := put_back (bufSize d) b (bs_pool s)\<rparr>)"
| read_ends: "bs_loop s d = Holding b \<Longrightarrow>
    buf_step bufSize s (s\<lparr>bs_loop := (bs_loop s)(d := Returned), bs_pool := put_back (bufSize d) b (bs_pool s)\<rparr>)"
| drop: "b \<in> set (bs_pool s) \<Longrightarrow> buf_step bufSize s (s\<lparr>bs_pool := remove1 b (bs_pool s)\<rparr>)"

inductive_cases buf_stepE: "buf_step bufSize s t"

section \<open>Ownership\<close>

fun owned :: "loop_pc \<Rightarrow> nat option" where
  "owned (Holding b) = Some b"
| "owned (Full b n) = Some b"
| "owned pc = None"

definition owners_inv :: "(nat \<Rightarrow> nat) \<Rightarrow> buf_state \<Rightarrow> bool" where
  "owners_inv bufSize s \<longleftrightarrow>
     distinct (bs_pool s) \<and> (\<forall>b \<in> set (bs_pool s). b < bs_next s \<and> length (bs_mem s b) = defaultBufSize) \<and>
     (\<forall>d b. owned (bs_loop s d) = Some b \<longrightarrow> b < bs_next s \<and> b \<notin> set (bs_pool s) \<and> length (bs_mem s b) = bufSize d) \<and>
     (\<forall>d d' b. owned (bs_loop s d) = Some b \<longrightarrow> owned (bs_loop s d') = Some b \<longrightarrow> d = d')"

text \<open>What a loop has written, relative to what it has read.\<close>

definition copied :: "buf_state \<Rightarrow> nat \<Rightarrow> bool" where
  "copied s d \<longleftrightarrow>
     (case bs_loop s d of
        Full b n \<Rightarrow> n \<le> length (bs_mem s b) \<and> bs_read s d = bs_written s d @ take n (bs_mem s b)
      | Returned \<Rightarrow> prefix (bs_written s d) (bs_read s d)
      | _ \<Rightarrow> bs_written s d = bs_read s d)"

definition buf_inv :: "(nat \<Rightarrow> nat) \<Rightarrow> buf_state \<Rightarrow> bool" where
  "buf_inv bufSize s \<longleftrightarrow> owners_inv bufSize s \<and> (\<forall>d. copied s d)"

lemma owners_inv_cong:
  assumes "owners_inv bufSize s" and "bs_pool t = bs_pool s" "bs_next t = bs_next s"
    and "\<And>d. owned (bs_loop t d) = owned (bs_loop s d)" "\<And>b. length (bs_mem t b) = length (bs_mem s b)"
  shows "owners_inv bufSize t"
  using assms(1) unfolding owners_inv_def assms(2-) .

lemma owners_inv_put:
  assumes inv: "owners_inv bufSize s" and b: "owned (bs_loop s d) = Some b"
  shows "owners_inv bufSize (s\<lparr>bs_loop := (bs_loop s)(d := Returned), bs_pool := put_back (bufSize d) b (bs_pool s)\<rparr>)"
proof -
  have "b < bs_next s" "b \<notin> set (bs_pool s)" "length (bs_mem s b) = bufSize d"
    using inv b unfolding owners_inv_def by blast+
  moreover have "d' = d" if "owned (bs_loop s d') = Some b" for d' using inv b that unfolding owners_inv_def by blast
  ultimately show ?thesis using inv by (auto simp: owners_inv_def put_back_def split: if_splits)
qed

lemma owners_inv_step:
  assumes "buf_step bufSize s t" and "owners_inv bufSize s"
  shows "owners_inv bufSize t"
  using assms(1)
proof cases
  case (take d b)
  then show ?thesis using assms(2) by (auto simp: owners_inv_def split: if_splits)
next
  case (make d)
  then show ?thesis using assms(2) by (fastforce simp: owners_inv_def split: if_splits)
next
  case (read d b data)
  then show ?thesis by (intro owners_inv_cong [OF assms(2)]) auto
next
  case (flush d b n)
  then show ?thesis by (intro owners_inv_cong [OF assms(2)]) auto
next
  case (flush_fails d b n k)
  then have "owned (bs_loop s d) = Some b" by simp
  from owners_inv_put [OF assms(2) this] flush_fails show ?thesis by (auto intro: owners_inv_cong)
next
  case (read_ends d b)
  then show ?thesis using owners_inv_put [OF assms(2)] by simp
next
  case (drop b)
  then show ?thesis using assms(2) by (auto simp: owners_inv_def)
qed

text \<open>A loop is untouched by the steps of the others as long as its buffer is.\<close>

lemma copied_frame:
  assumes "copied s d" and "bs_loop t d = bs_loop s d" "bs_read t d = bs_read s d" "bs_written t d = bs_written s d"
    and "\<And>b n. bs_loop s d = Full b n \<Longrightarrow> bs_mem t b = bs_mem s b"
  shows "copied t d"
  using assms by (auto simp: copied_def split: loop_pc.splits)

lemma copied_step:
  assumes "buf_step bufSize s t" and "buf_inv bufSize s"
  shows "copied t d"
proof -
  from assms(2) have own: "owners_inv bufSize s" and cp: "copied s d" by (simp_all add: buf_inv_def)
  have other: "b' \<noteq> b" if "owned (bs_loop s d') = Some b" "bs_loop s d = Full b' n" "d' \<noteq> d" for d' b b' n
  proof
    assume "b' = b"
    with that have "owned (bs_loop s d) = Some b" by simp
    with that own show False unfolding owners_inv_def by blast
  qed
  have fresh: "b' \<noteq> bs_next s" if "bs_loop s d = Full b' n" for b' n
  proof -
    have "owned (bs_loop s d) = Some b'" using that by simp
    with own have "b' < bs_next s" unfolding owners_inv_def by blast
    then show ?thesis by simp
  qed
  from assms(1) show ?thesis
  proof cases
    case (take d1 b)
    then show ?thesis using cp by (cases "d = d1") (auto simp: copied_def split: loop_pc.splits)
  next
    case (make d1)
    then show ?thesis using cp fresh by (cases "d = d1") (auto simp: copied_def split: loop_pc.splits)
  next
    case (read d1 b data)
    then show ?thesis using cp other [of d1 b] by (cases "d = d1") (auto simp: copied_def split: loop_pc.splits)
  next
    case (flush d1 b n)
    then show ?thesis using cp by (cases "d = d1") (auto simp: copied_def split: loop_pc.splits)
  next
    case (flush_fails d1 b n k)
    have "prefix (take k (bs_mem s b)) (take n (bs_mem s b))"
      using take_is_prefix [of k "take n (bs_mem s b)"] flush_fails by (simp add: min_def)
    then show ?thesis using cp flush_fails by (cases "d = d1") (auto simp: copied_def split: loop_pc.splits)
  next
    case (read_ends d1 b)
    then show ?thesis using cp by (cases "d = d1") (auto simp: copied_def split: loop_pc.splits)
  next
    case (drop b)
    then show ?thesis using cp by (auto simp: copied_def split: loop_pc.splits)
  qed
qed

interpretation buffers: invariant_system "buf_step bufSize" "buf_inv bufSize" for bufSize
  by (rule invariant_system.intro) (auto simp: buf_inv_def intro: owners_inv_step copied_step)

lemma buf_inv_init: "buf_inv bufSize buf_init"
  by (simp add: buf_inv_def owners_inv_def copied_def buf_init_def)

section \<open>Properties\<close>

text \<open>C28: the shared buffer pool mixes nothing up.  However the copy loops of all relays interleave, no two of
  them hold the same buffer, and what a loop writes to its destination is exactly what it has read
  from its source: all of it whenever it is about to read again, a prefix if a write
  failed.\<close>

theorem copy_loops_do_not_interfere:
  assumes "(buf_step bufSize)\<^sup>*\<^sup>* buf_init s"
  shows "(owned (bs_loop s d) = Some b \<and> owned (bs_loop s d') = Some b \<longrightarrow> d = d') \<and>
    (bs_loop s d = Holding b \<longrightarrow> bs_written s d = bs_read s d) \<and> prefix (bs_written s d) (bs_read s d)"
proof -
  have inv: "buf_inv bufSize s" using assms buf_inv_init by (rule buffers.run_invar)
  then have "copied s d" and "owners_inv bufSize s" by (simp_all add: buf_inv_def)
  then show ?thesis by (auto simp: copied_def owners_inv_def split: loop_pc.splits)
qed

text \<open>A second loop reuses the buffer of the first.\<close>

lemma demo_buffers:
  "\<exists>s. (buf_step (\<lambda>d. defaultBufSize))\<^sup>*\<^sup>* buf_init s \<and> bs_loop s 1 = Holding 0 \<and> bs_read s 0 = [1] \<and> bs_read s 1 = [2, 3]"
proof -
  let ?step = "buf_step (\<lambda>d. defaultBufSize)"
  have copies: "\<exists>t. ?step\<^sup>*\<^sup>* s t \<and> bs_loop t d = Holding b \<and> bs_read t = (bs_read s)(d := bs_read s d @ data) \<and>
      bs_pool t = bs_pool s \<and> (\<forall>d'. d' \<noteq> d \<longrightarrow> bs_loop t d' = bs_loop s d') \<and> length (bs_mem t b) = length (bs_mem s b)"
    if "bs_loop s d = Holding b" "data \<noteq> []" "length data \<le> length (bs_mem s b)" for s d b data
  proof -
    define t where "t = s\<lparr>bs_mem := (bs_mem s)(b := data @ drop (length data) (bs_mem s b)),
      bs_loop := (bs_loop s)(d := Full b (length data)), bs_read := (bs_read s)(d := bs_read s d @ data)\<rparr>"
    define u where "u = t\<lparr>bs_written := (bs_written t)(d := bs_written t d @ take (length data) (bs_mem t b)),
      bs_loop := (bs_loop t)(d := Holding b)\<rparr>"
    have "?step s t" unfolding t_def using that by (rule buf_step.read)
    moreover have "?step t u" unfolding u_def by (rule buf_step.flush) (simp add: t_def)
    ultimately have "?step\<^sup>*\<^sup>* s u" by (rule converse_rtranclp_into_rtranclp [OF _ r_into_rtranclp])
    then show ?thesis by (intro exI [of _ u]) (use that in \<open>simp add: t_def u_def\<close>)
  qed
  define s1 where "s1 = buf_init\<lparr>bs_next := 1, bs_mem := (bs_mem buf_init)(0 := replicate defaultBufSize 0),
    bs_loop := (bs_loop buf_init)(0 := Holding 0)\<rparr>"
  have s1: "?step buf_init s1" "bs_loop s1 0 = Holding 0" "length (bs_mem s1 0) = defaultBufSize" "bs_loop s1 1 = Ready"
    using buf_step.make [of buf_init 0 "\<lambda>d. defaultBufSize"] by (simp_all add: s1_def buf_init_def)
  have sz: "2 \<le> defaultBufSize" by (simp add: defaultBufSize_def)
  obtain s2 where s2: "?step\<^sup>*\<^sup>* s1 s2" "bs_loop s2 0 = Holding 0" "bs_read s2 0 = [1]" "bs_loop s2 1 = Ready" "bs_read s2 1 = []"
    "length (bs_mem s2 0) = defaultBufSize"
    using copies [OF s1(2), of "[1]"] sz s1(3,4) by (auto simp: s1_def buf_init_def)
  define s3 where "s3 = s2\<lparr>bs_loop := (bs_loop s2)(0 := Returned), bs_pool := put_back defaultBufSize 0 (bs_pool s2)\<rparr>"
  have s3: "?step s2 s3" unfolding s3_def using s2(2) by (rule buf_step.read_ends)
  define s4 where "s4 = s3\<lparr>bs_pool := remove1 0 (bs_pool s3), bs_loop := (bs_loop s3)(1 := Holding 0)\<rparr>"
  have s4: "?step s3 s4" unfolding s4_def by (rule buf_step.take) (use s2 in \<open>simp_all add: s3_def put_back_def\<close>)
  have s4': "bs_loop s4 1 = Holding 0" "bs_read s4 = bs_read s2" "length (bs_mem s4 0) = defaultBufSize"
    using s2 by (simp_all add: s3_def s4_def)
  obtain s5 where s5: "?step\<^sup>*\<^sup>* s4 s5" "bs_loop s5 1 = Holding 0" "bs_read s5 0 = [1]" "bs_read s5 1 = [2, 3]"
    using copies [OF s4'(1), of "[2, 3]"] sz s2(3,5) s4'(2,3) by auto
  have "?step\<^sup>*\<^sup>* buf_init s5" using s1(1) s2(1) s3 s4 s5(1) by (meson converse_rtranclp_into_rtranclp rtranclp_trans)
  with s5 show ?thesis by blast
qed

theorem copy_loops_do_not_interfere_witness:
  "\<exists>s. (buf_step (\<lambda>d. defaultBufSize))\<^sup>*\<^sup>* buf_init s \<and> bs_loop s 1 = Holding 0 \<and> bs_read s 0 = [1] \<and> bs_written s 1 = [2, 3]"
  using demo_buffers copy_loops_do_not_interfere [of "\<lambda>d. defaultBufSize" _ 1 0 1] by fastforce

end
