(* ===== verification/Proxy.thy ===== *)
theory Proxy
  imports Handlers Dns
begin

text \<open>
  Package \<open>proxy\<close>: the accept loop \<open>Start\<close> with its back-off, and \<open>handle\<close>, which reads a request, decides
  whether the bypass applies, resolves the host, refuses requests to itself and hands the connection to
  a handler.  \<open>handle\<close> may wait for ever for a client that sends nothing, and so may a relay without a timeout; these are
  the outcome \<open>Stuck\<close> and a relay without a step.  What the operating system and the network give (connections accepted, dialled
  connections, interface addresses) are parameters; so is \<open>http.ReadRequest\<close>.
\<close>

section \<open>The proxy\<close>

record Proxy =
  px_addr :: string
  px_port :: int
  px_timeout :: int
  px_resolver :: Dns
  px_windowSize :: int
  px_allowedPattern :: "regexp list option"

definition New :: "doh_env \<Rightarrow> Config \<Rightarrow> Proxy" where
  "New doh config =
     \<lparr>px_addr = Addr config, px_port = Port config, px_timeout = Timeout config, px_resolver = NewDns doh config,
      px_windowSize = WindowSize config, px_allowedPattern = AllowedPatterns config\<rparr>"

definition patternMatches :: "Proxy \<Rightarrow> bytes \<Rightarrow> bool" where
  "patternMatches pxy b =
     (case px_allowedPattern pxy of None \<Rightarrow> True | Some patterns \<Rightarrow> list_ex (\<lambda>pattern. pattern b) patterns)"

text \<open>\<open>InterfaceAddrs\<close> gives the host's addresses; only those of type \<open>net.IPNet\<close> are compared.\<close>

fun ipnet_equals :: "bytes \<Rightarrow> net_Addr \<Rightarrow> bool" where
  "ipnet_equals ip (IPNet a) = IP_Equal a ip"
| "ipnet_equals ip OtherAddr = False"

definition isLoopedRequest :: "net_Addr list result \<Rightarrow> bytes option \<Rightarrow> bool" where
  "isLoopedRequest interfaceAddrs ip =
     (case ip of
        None \<Rightarrow> False
      | Some ip \<Rightarrow>
          if IP_IsLoopback ip then True
          else (case interfaceAddrs of Inl err \<Rightarrow> False | Inr addrs \<Rightarrow> list_ex (ipnet_equals ip) addrs))"

section \<open>One connection\<close>

record proxy_world =
  pw_dns :: dns_world
  pw_ReadRequest :: http_ReadRequest
  pw_dial :: dialer
  pw_interfaceAddrs :: "net_Addr list result"

text \<open>Reading the request: how \<open>handle\<close> ends when there is none, or the rewritten request with the rest of the
  stream.  No deadline is set before the read.\<close>

definition admit :: "http_ReadRequest \<Rightarrow> conn \<Rightarrow> served + HttpRequest \<times> conn" where
  "admit readRequest c =
     (case ReadHttpRequest readRequest (cn_in c) of
        (Inl err, br) \<Rightarrow>
          if err = NeverReturns then Inl (Stuck (c\<lparr>cn_in := br\<rparr>) None)
          else Inl (Aborted (Conn_Close (c\<lparr>cn_in := br\<rparr>)) None)
      | (Inr p, br) \<Rightarrow>
          let pkt = Tidy p; c1 = c\<lparr>cn_in := br\<rparr>
          in if \<not> IsValidMethod pkt then Inl (Aborted (Conn_Close c1) None) else Inr (pkt, c1))"

definition bad_gateway :: "HttpRequest \<Rightarrow> bytes" where
  "bad_gateway pkt = bytes_of_string (hr_version pkt @ '' 502 Bad Gateway'' @ crlf @ crlf)"

definition matched_host :: "Proxy \<Rightarrow> HttpRequest \<Rightarrow> bool" where
  "matched_host pxy pkt = patternMatches pxy (bytes_of_string (hr_domain pkt))"

text \<open>What follows the lookup, given its result; \<open>isTCP\<close> tells whether the connection is a \<open>net.TCPConn\<close>.\<close>

definition dispatch :: "proxy_world \<Rightarrow> Proxy \<Rightarrow> bool \<Rightarrow> HttpRequest \<Rightarrow> conn \<Rightarrow> string result \<Rightarrow> served" where
  "dispatch w pxy isTCP pkt c v =
     (case v of
        Inl err \<Rightarrow> (case Conn_Write c (bad_gateway pkt) of (n, werr, c1) \<Rightarrow> Aborted (Conn_Close c1) None)
      | Inr ip \<Rightarrow>
          if hr_port pkt = strconv_Itoa (px_port pxy) \<and>
             isLoopedRequest (pw_interfaceAddrs w) (w_ParseIP (pw_dns w) ip)
          then Aborted (Conn_Close c) None
          else if \<not> isTCP then Aborted (Conn_Close c) None
          else if IsConnectMethod pkt
          then HttpsHandler_Serve (pw_dial w)
                 (NewHttpsHandler (px_timeout pxy) (px_windowSize pxy) (px_allowedPattern pxy) (matched_host pxy pkt)) c pkt ip
          else HttpHandler_Serve (pw_dial w) (NewHttpHandler (px_timeout pxy)) c pkt ip)"

definition handle :: "proxy_world \<Rightarrow> Proxy \<Rightarrow> bool \<Rightarrow> conn \<Rightarrow> served \<Rightarrow> bool" where
  "handle w pxy isTCP c out \<longleftrightarrow>
     (case admit (pw_ReadRequest w) c of
        Inl ended \<Rightarrow> out = ended
      | Inr (pkt, c1) \<Rightarrow>
          (\<exists>v. ResolveHost (pw_dns w) (px_resolver pxy) (hr_domain pkt) False (\<not> matched_host pxy pkt) v \<and>
               out = dispatch w pxy isTCP pkt c1 v))"

section \<open>The accept loop\<close>

datatype accepted = Conn conn | AcceptError go_error

definition next_delay :: "nat \<Rightarrow> nat" where
  "next_delay tempDelay =
     (let d = (if tempDelay = 0 then 5 else tempDelay * 2) in if 1000 < d then 1000 else d)"

text \<open>
  The loop over the outcomes of \<open>Accept\<close>, delays in milliseconds: the delays slept, the connections
  handed to \<open>handle\<close>, and the value returned (\<open>None\<close> while the loop goes on; \<open>Some None\<close> is nil).
\<close>

fun accept_loop :: "nat \<Rightarrow> accepted list \<Rightarrow> nat list \<times> conn list \<times> go_error option option" where
  "accept_loop tempDelay [] = ([], [], None)"
| "accept_loop tempDelay (Conn c # rest) =
     (case accept_loop 0 rest of (sleeps, conns, ret) \<Rightarrow> (sleeps, c # conns, ret))"
| "accept_loop tempDelay (AcceptError err # rest) =
     (if errors_Is err ErrClosed then ([], [], Some None)
      else if errors_Is err ErrTimeout
      then (case accept_loop (next_delay tempDelay) rest of
              (sleeps, conns, ret) \<Rightarrow> (next_delay tempDelay # sleeps, conns, ret))
      else ([], [], Some (Some err)))"

text \<open>The goroutine of \<open>Start\<close> that closes the listener when the context is cancelled: \<open>Accept\<close> then gives
  \<open>net.ErrClosed\<close>.\<close>

definition listener_closed :: "bool \<Rightarrow> accepted list \<Rightarrow> accepted list" where
  "listener_closed cancelled outcomes = outcomes @ (if cancelled then [AcceptError ErrClosed] else [])"

text \<open>\<open>Start\<close>: \<open>listen\<close> opens a listener on an address and a port; an address that does not parse is nil,
  which listens on all interfaces.\<close>

definition Start :: "dns_world \<Rightarrow> (bytes option \<Rightarrow> int \<Rightarrow> accepted list result) \<Rightarrow> Proxy \<Rightarrow>
    nat list \<times> conn list \<times> go_error option option" where
  "Start w listen pxy =
     (case listen (w_ParseIP w (px_addr pxy)) (px_port pxy) of
        Inl err \<Rightarrow> ([], [], Some (Some err))
      | Inr outcomes \<Rightarrow> accept_loop 0 outcomes)"

section \<open>Lemmas\<close>

fun conns_of :: "accepted list \<Rightarrow> conn list" where
  "conns_of [] = []"
| "conns_of (Conn c # rest) = c # conns_of rest"
| "conns_of (AcceptError e # rest) = conns_of rest"

definition transient :: "accepted \<Rightarrow> bool" where
  "transient a = (case a of Conn c \<Rightarrow> True | AcceptError e \<Rightarrow> errors_Is e ErrTimeout \<and> \<not> errors_Is e ErrClosed)"

text \<open>The loop takes outcomes as long as they are connections or transient errors, and returns at the first
  other one.\<close>

lemma accept_loop_spec:
  assumes "accept_loop d outs = (sleeps, conns, ret)"
  shows "conns = conns_of (takeWhile transient outs) \<and>
    ret = (case dropWhile transient outs of
             [] \<Rightarrow> None
           | Conn c # rest \<Rightarrow> None
           | AcceptError e # rest \<Rightarrow> Some (if errors_Is e ErrClosed then None else Some e))"
  using assms
proof (induction d outs arbitrary: sleeps conns ret rule: accept_loop.induct)
  case (1 d)
  then show ?case by simp
next
  case (2 d c rest)
  obtain sl cs rt where a: "accept_loop 0 rest = (sl, cs, rt)" by (metis prod_cases3)
  from 2(1) [OF a] 2(2) a show ?case by (simp add: transient_def)
next
  case (3 d err rest)
  obtain sl cs rt where a: "accept_loop (next_delay d) rest = (sl, cs, rt)" by (metis prod_cases3)
  from 3(1) [OF _ _ a] 3(2) a show ?case by (auto simp: transient_def split: if_splits)
qed

lemma next_delay_bounds: "d = 0 \<or> 5 \<le> d \<Longrightarrow> 5 \<le> next_delay d \<and> next_delay d \<le> 1000"
  by (auto simp: next_delay_def Let_def)

lemma accept_loop_delays: "d = 0 \<or> 5 \<le> d \<Longrightarrow> accept_loop d outs = (sleeps, conns, ret) \<Longrightarrow> set sleeps \<subseteq> {5..1000}"
proof (induction d outs arbitrary: sleeps conns ret rule: accept_loop.induct)
  case (1 d)
  then show ?case by simp
next
  case (2 d c rest)
  then show ?case by (auto split: prod.splits)
next
  case (3 d err rest)
  with next_delay_bounds [of d] show ?case by (auto split: prod.splits if_splits)
qed

lemma next_delay_iterates: "(next_delay ^^ Suc i) 0 = min 1000 (5 * 2 ^ i)"
proof (induction i)
  case 0
  then show ?case by (simp add: next_delay_def)
next
  case (Suc i)
  have "(0 :: nat) < 5 * 2 ^ i" by simp
  then show ?case
    unfolding funpow.simps(2) comp_def Suc [unfolded funpow.simps(2) comp_def] by (simp add: next_delay_def Let_def min_def)
qed

text \<open>The timeouts directly before position \<open>i\<close>.\<close>

definition timed_out :: "accepted \<Rightarrow> bool" where
  "timed_out a = (case a of Conn c \<Rightarrow> False | AcceptError e \<Rightarrow> errors_Is e ErrTimeout \<and> \<not> errors_Is e ErrClosed)"

definition burst_before :: "accepted list \<Rightarrow> nat \<Rightarrow> nat" where
  "burst_before outs i = length (takeWhile timed_out (rev (take i outs)))"

lemma timed_out_simps [simp]:
  "\<not> timed_out (Conn c)" "timed_out (AcceptError e) \<longleftrightarrow> transient (AcceptError e)" "transient (Conn c)"
  "transient (AcceptError e) \<longleftrightarrow> errors_Is e ErrTimeout \<and> \<not> errors_Is e ErrClosed"
  by (simp_all add: timed_out_def transient_def)

lemma accept_loop_sleeps:
  "fst (accept_loop ((next_delay ^^ burst_before pre (length pre)) 0) outs) =
     map (\<lambda>i. min 1000 (5 * 2 ^ burst_before (pre @ outs) i))
       (filter (\<lambda>i. timed_out ((pre @ outs) ! i)) [length pre..<length pre + length (takeWhile transient outs)])"
proof (induction outs arbitrary: pre)
  case Nil
  then show ?case by simp
next
  case (Cons a outs)
  let ?b = "burst_before pre (length pre)"
  have b: "burst_before (pre @ a # outs) (length pre) = ?b" by (simp add: burst_before_def)
  have b': "burst_before (pre @ [a]) (length (pre @ [a])) = (if timed_out a then Suc ?b else 0)"
    by (simp add: burst_before_def)
  have up: "[length pre..<length pre + Suc n] = length pre # [length (pre @ [a])..<length (pre @ [a]) + n]" for n
    by (simp add: upt_rec)
  note IH = Cons [of "pre @ [a]", unfolded b']
  show ?case
  proof (cases a)
    case (Conn c)
    have "fst (accept_loop d (a # outs)) = fst (accept_loop 0 outs)" for d by (simp add: Conn split: prod.split)
    with IH up Conn show ?thesis by (simp del: accept_loop.simps upt_Suc)
  next
    case (AcceptError e)
    show ?thesis
    proof (cases "timed_out a")
      case True
      then have "fst (accept_loop d (a # outs)) = next_delay d # fst (accept_loop (next_delay d) outs)" for d
        by (simp add: AcceptError split: prod.split)
      with IH AcceptError up b next_delay_iterates [of ?b] True show ?thesis by (simp del: accept_loop.simps upt_Suc)
    next
      case False
      with AcceptError show ?thesis by auto
    qed
  qed
qed

lemma fresh_update_in [simp]: "fresh_conn (c\<lparr>cn_in := r\<rparr>) = fresh_conn c"
  by (simp add: fresh_conn_def)

lemma admit_ok:
  assumes "admit rr c = Inr (pkt, c1)"
  shows "\<exists>p br. ReadHttpRequest rr (cn_in c) = (Inr p, br) \<and> pkt = Tidy p \<and> IsValidMethod pkt \<and> c1 = c\<lparr>cn_in := br\<rparr>"
  using assms by (auto simp: admit_def Let_def split: prod.splits sum.splits if_splits)

lemma admit_ends:
  assumes "admit rr c = Inl out"
  shows "(\<exists>l. out = Aborted l None \<and> cn_closed l) \<or>
    (\<exists>l. out = Stuck l None \<and> l = c\<lparr>cn_in := cn_in l\<rparr> \<and> fst (ReadHttpRequest rr (cn_in c)) = Inl NeverReturns)"
  using assms by (auto simp: admit_def Let_def split: prod.splits sum.splits if_splits)

text \<open>After the lookup the proxy is itself a handler.\<close>

definition dispatch_ip :: "proxy_world \<Rightarrow> Proxy \<Rightarrow> bool \<Rightarrow> conn \<Rightarrow> HttpRequest \<Rightarrow> string \<Rightarrow> served" where
  "dispatch_ip w pxy isTCP c pkt ip = dispatch w pxy isTCP pkt c (Inr ip)"

interpretation proxy_handler: connection_handler "dispatch_ip w pxy isTCP" for w pxy isTCP
proof
  fix l pkt ip l' r'
  assume "dispatch_ip w pxy isTCP l pkt ip = Aborted l' r'"
  then show "cn_closed l' \<and> (\<forall>r. r' = Some r \<longrightarrow> cn_closed r)"
    by (auto simp: dispatch_ip_def dispatch_def split: if_splits
        dest: http_handler.abort_closes https_handler.abort_closes)
next
  fix l pkt ip l1 r1
  assume "fresh_conn l" and "dispatch_ip w pxy isTCP l pkt ip = Relayed l1 r1"
  then show "fresh_conn l1 \<and> fresh_conn r1"
    by (auto simp: dispatch_ip_def dispatch_def split: if_splits
        dest: http_handler.relay_open https_handler.relay_open)
next
  fix l pkt ip l' r'
  assume "dispatch_ip w pxy isTCP l pkt ip = Stuck l' r'"
  then show "rd_end (cn_in l) = NeverReturns"
    by (auto simp: dispatch_ip_def dispatch_def split: if_splits
        dest: http_handler.stuck_silent https_handler.stuck_silent)
qed


lemma handle_relayed_cases:
  assumes "handle w pxy isTCP c (Relayed l r)"
  obtains pkt c1 ip where "admit (pw_ReadRequest w) c = Inr (pkt, c1)"
    and "ResolveHost (pw_dns w) (px_resolver pxy) (hr_domain pkt) False (\<not> matched_host pxy pkt) (Inr ip)"
    and "Relayed l r = dispatch w pxy isTCP pkt c1 (Inr ip)"
proof (cases "admit (pw_ReadRequest w) c")
  case (Inl c1)
  with assms show ?thesis by (auto simp: handle_def dest!: admit_ends)
next
  case (Inr pc)
  obtain pkt c1 where pc: "pc = (pkt, c1)" by (cases pc)
  with Inr assms obtain v where v: "ResolveHost (pw_dns w) (px_resolver pxy) (hr_domain pkt) False (\<not> matched_host pxy pkt) v"
    "Relayed l r = dispatch w pxy isTCP pkt c1 v" by (auto simp: handle_def)
  then obtain ip where "v = Inr ip" by (cases v) (auto simp: dispatch_def split: prod.splits)
  with v Inr pc show ?thesis using that by simp
qed

lemma dispatch_connect:
  assumes "IsConnectMethod pkt" and "dispatch w pxy isTCP pkt c (Inr ip) = Relayed l r"
  shows "HttpsHandler_Serve (pw_dial w)
    (NewHttpsHandler (px_timeout pxy) (px_windowSize pxy) (px_allowedPattern pxy) (matched_host pxy pkt)) c pkt ip = Relayed l r"
  using assms by (auto simp: dispatch_def split: if_splits)

lemma dispatch_plain:
  assumes "\<not> IsConnectMethod pkt" and "dispatch w pxy isTCP pkt c (Inr ip) = Relayed l r"
  shows "HttpHandler_Serve (pw_dial w) (NewHttpHandler (px_timeout pxy)) c pkt ip = Relayed l r"
  using assms by (auto simp: dispatch_def split: if_splits)

lemma isLooped_intro:
  assumes "ip = Some b" and "IP_IsLoopback b \<or> (\<exists>as a. addrs = Inr as \<and> IPNet a \<in> set as \<and> IP_Equal a b)"
  shows "isLoopedRequest addrs ip"
  using assms by (force simp: isLoopedRequest_def list_ex_iff)

lemma conns_of_errors [simp]: "conns_of (replicate k (AcceptError e)) = []"
  by (induction k) simp_all


lemma handle_relayed_fresh:
  assumes "fresh_conn c" and "handle w pxy isTCP c (Relayed l r)"
  shows "fresh_conn l \<and> fresh_conn r"
proof (rule handle_relayed_cases [OF assms(2)])
  fix pkt c1 ip
  assume "admit (pw_ReadRequest w) c = Inr (pkt, c1)" and dis: "Relayed l r = dispatch w pxy isTCP pkt c1 (Inr ip)"
  from admit_ok [OF this(1)] assms(1) have "fresh_conn c1" by auto
  moreover have "dispatch_ip w pxy isTCP c1 pkt ip = Relayed l r" unfolding dispatch_ip_def by (rule dis [symmetric])
  ultimately show ?thesis by (rule proxy_handler.relay_open)
qed

text \<open>A relay that \<open>handle\<close> has started comes to its end when both peers end their streams.\<close>

lemma handle_relay_ends:
  assumes "fresh_conn c" and "handle w pxy isTCP c (Relayed l r)"
    and "rd_end (cn_in l) \<noteq> NeverReturns" and "rd_end (cn_in r) \<noteq> NeverReturns"
  obtains l' r' where "served_ends bufSize timeoutMs (Relayed l r) l' (Some r')"
  using served_ends_relayed [of l r timeoutMs bufSize] handle_relayed_fresh [OF assms(1,2)] assms(3,4) by blast


section \<open>Properties\<close>


text \<open>C3: the bypass is applied exactly to the matching hosts.  For a relayed CONNECT the pattern decides
  both how the ClientHello goes out and who resolved the name: for a matching host it is
  fragmented and the address is a literal or an answer of the configured upstreams; for any other host
  it goes out in one piece and the address is a literal or an answer of the system's resolver.\<close>

theorem bypass_iff_pattern:
  assumes "fresh_conn c" and "handle w (New (w_doh (pw_dns w)) config) isTCP c (Relayed l r)"
    and "admit (pw_ReadRequest w) c = Inr (pkt, c1)" and "IsConnectMethod pkt"
  shows "\<exists>ip k hello. IsClientHello hello \<and> rd_data (cn_in c1) = Raw hello @ rd_data (cn_in l) \<and>
    (case w_ParseIP (pw_dns w) (hr_domain pkt) of
       Some b \<Rightarrow> ip = w_IPString (pw_dns w) b
     | None \<Rightarrow> (\<exists>a up. ip = IPAddr_String (pw_dns w) a \<and>
          leaf_gave (pw_dns w) up (hr_domain pkt) (d_qTypes (NewDns (w_doh (pw_dns w)) config)) a \<and>
          (if matched_host (New (w_doh (pw_dns w)) config) pkt
           then up \<in> set (upstream_chain (w_doh (pw_dns w)) config) else up = System))) \<and>
    (\<exists>port sr. pw_dial w (net_JoinHostPort ip (strconv_Itoa port)) = Inr (tcpConn, sr, k)) \<and>
    sk_segments (cn_out r) = sk_segments k @
      (if matched_host (New (w_doh (pw_dns w)) config) pkt then splitInChunks (Raw hello) (WindowSize config) else [Raw hello])"
proof (rule handle_relayed_cases [OF assms(2)])
  let ?pxy = "New (w_doh (pw_dns w)) config" and ?d = "NewDns (w_doh (pw_dns w)) config"
  fix pkt' c1' ip
  assume ad: "admit (pw_ReadRequest w) c = Inr (pkt', c1')"
    and res: "ResolveHost (pw_dns w) (px_resolver ?pxy) (hr_domain pkt') False (\<not> matched_host ?pxy pkt') (Inr ip)"
    and dis: "Relayed l r = dispatch w ?pxy isTCP pkt' c1' (Inr ip)"
  from ad assms(3) have eq: "pkt' = pkt" "c1' = c1" by simp_all
  have fresh: "fresh_conn c1" using admit_ok [OF assms(3)] assms(1) by auto
  have serve: "HttpsHandler_Serve (pw_dial w)
      (NewHttpsHandler (px_timeout ?pxy) (px_windowSize ?pxy) (px_allowedPattern ?pxy) (matched_host ?pxy pkt)) c1 pkt ip = Relayed l r"
    by (rule dispatch_connect [OF assms(4)]) (use dis eq in simp)
  have leaf: "case w_ParseIP (pw_dns w) (hr_domain pkt) of
       Some b \<Rightarrow> ip = w_IPString (pw_dns w) b
     | None \<Rightarrow> (\<exists>a up. ip = IPAddr_String (pw_dns w) a \<and> leaf_gave (pw_dns w) up (hr_domain pkt) (d_qTypes ?d) a \<and>
          (if matched_host ?pxy pkt then up \<in> set (upstream_chain (w_doh (pw_dns w)) config) else up = System))"
  proof -
    have "px_resolver ?pxy = ?d" by (simp add: New_def)
    note res' = res [unfolded eq this]
    from ResolveHost_literal [OF res'] ResolveHost_leaf [OF res'] show ?thesis
      by (cases "matched_host ?pxy pkt") (auto split: option.split)
  qed
  show ?thesis
  proof (rule https_relayed_cases [OF fresh serve])
    fix port sr k m
    assume d: "pw_dial w (net_JoinHostPort ip (strconv_Itoa port)) = Inr (tcpConn, sr, k)" and m: "IsClientHello m"
      and rest: "rd_data (cn_in c1) = Raw m @ rd_data (cn_in l)"
      and "sk_segments (cn_out r) = sk_segments k @ hello_segments (NewHttpsHandler (px_timeout ?pxy) (px_windowSize ?pxy)
        (px_allowedPattern ?pxy) (matched_host ?pxy pkt)) (Raw m)"
    from this(4) have segs: "sk_segments (cn_out r) = sk_segments k @
        (if matched_host ?pxy pkt then splitInChunks (Raw m) (WindowSize config) else [Raw m])"
      unfolding hello_segments_def by (simp add: NewHttpsHandler_def New_def)
    have "\<exists>port sr. pw_dial w (net_JoinHostPort ip (strconv_Itoa port)) = Inr (tcpConn, sr, k)" using d by blast
    with m rest segs leaf show ?thesis
      by (intro exI [of _ ip] exI [of _ k] exI [of _ m] conjI)
  qed
qed

text \<open>A client that opens a tunnel to the host a, which resolves to \<open>9.9.9.9\<close>.\<close>

definition demo_net :: proxy_world where
  "demo_net = \<lparr>pw_dns = demo_world, pw_ReadRequest = demo_rr, pw_dial = demo_dial, pw_interfaceAddrs = Inr []\<rparr>"

definition demo_caller :: conn where
  "demo_caller = demo_client\<lparr>cn_in := \<lparr>rd_data = [71, 13, 10, 13, 10] @ rd_data (cn_in demo_client), rd_end = EOF\<rparr>\<rparr>"

abbreviation demo_pxy :: Proxy where "demo_pxy \<equiv> New (w_doh demo_world) demo_config"

lemma demo_admit:
  obtains bs where "admit demo_rr demo_caller = Inr (demo_connect\<lparr>hr_domain := ''a'', raw := bs\<rparr>, demo_client)"
proof -
  let ?p = "demo_connect\<lparr>hr_domain := ''a'', raw := [71, 13, 10, 13, 10]\<rparr>"
  have "ReadHttpRequest demo_rr (cn_in demo_caller) = (Inr ?p, cn_in demo_client)"
    using demo_read [of "rd_data (cn_in demo_client)" EOF]
    by (simp add: demo_caller_def demo_connect_def) (simp add: demo_client_def new_conn_def)
  moreover have "Tidy ?p = ?p\<lparr>raw := raw (Tidy ?p)\<rparr>" by (simp add: Tidy_def Let_def)
  moreover have "IsValidMethod (Tidy ?p)"
    by (simp add: Tidy_def Let_def IsValidMethod_def validMethod_def demo_connect_def)
  ultimately have "admit demo_rr demo_caller = Inr (?p\<lparr>raw := raw (Tidy ?p)\<rparr>, demo_client)"
    by (simp add: admit_def Let_def) (simp add: demo_caller_def)
  then show ?thesis by (intro that) simp
qed

lemma demo_handled:
  obtains l r bs where "handle demo_net demo_pxy True demo_caller (Relayed l r)"
    and "admit demo_rr demo_caller = Inr (demo_connect\<lparr>hr_domain := ''a'', raw := bs\<rparr>, demo_client)"
    and "cn_in r = \<lparr>rd_data = [7], rd_end = EOF\<rparr>" and "rd_end (cn_in l) = EOF"
proof -
  obtain bs where ad: "admit demo_rr demo_caller = Inr (demo_connect\<lparr>hr_domain := ''a'', raw := bs\<rparr>, demo_client)"
    by (rule demo_admit)
  let ?pkt = "demo_connect\<lparr>hr_domain := ''a'', raw := bs\<rparr>"
  let ?h = "NewHttpsHandler (px_timeout demo_pxy) (px_windowSize demo_pxy) (px_allowedPattern demo_pxy) (matched_host demo_pxy ?pkt)"
  obtain l r where s: "HttpsHandler_Serve demo_dial ?h demo_client ?pkt ''9.9.9.9'' = Relayed l r"
    using demo_relayed by blast
  have m: "matched_host demo_pxy ?pkt"
    by (simp add: matched_host_def patternMatches_def New_def demo_config_def zero_Config_def)
  have "hr_port ?pkt \<noteq> strconv_Itoa (px_port demo_pxy)"
    by (simp add: New_def demo_config_def zero_Config_def demo_connect_def strconv_Itoa_def format_nat.simps)
  with s have "dispatch demo_net demo_pxy True ?pkt demo_client (Inr ''9.9.9.9'') = Relayed l r"
    by (simp add: dispatch_def demo_net_def IsConnectMethod_def) (simp add: demo_connect_def)
  moreover have "ResolveHost demo_world (px_resolver demo_pxy) (hr_domain ?pkt) False (\<not> matched_host demo_pxy ?pkt) (Inr ''9.9.9.9'')"
    using demo_resolves [of "''a''"] m by (simp add: New_def)
  ultimately have "handle demo_net demo_pxy True demo_caller (Relayed l r)"
    unfolding handle_def using ad by (auto simp: demo_net_def)
  moreover have "fresh_conn demo_client" by (simp add: demo_client_def)
  then have "cn_in r = \<lparr>rd_data = [7], rd_end = EOF\<rparr> \<and> rd_end (cn_in l) = EOF"
    by (rule https_relayed_cases [OF _ s]) (auto simp: demo_dial_def demo_client_def new_conn_def split: if_splits)
  ultimately show ?thesis using ad that by blast
qed

lemma demo_matched: "matched_host demo_pxy pkt"
  by (simp add: matched_host_def patternMatches_def New_def demo_config_def zero_Config_def)

lemma demo_caller_fresh [simp]: "fresh_conn demo_caller"
  by (simp add: demo_caller_def) (simp add: demo_client_def)



theorem bypass_iff_pattern_witness:
  "\<exists>l r hello. handle demo_net demo_pxy True demo_caller (Relayed l r) \<and> IsClientHello hello \<and>
     sk_segments (cn_out r) = splitInChunks (Raw hello) 5"
proof -
  obtain l r bs where h: "handle demo_net demo_pxy True demo_caller (Relayed l r)"
    and ad: "admit demo_rr demo_caller = Inr (demo_connect\<lparr>hr_domain := ''a'', raw := bs\<rparr>, demo_client)" by (rule demo_handled)
  have w: "pw_dns demo_net = demo_world" "pw_ReadRequest demo_net = demo_rr" "pw_dial demo_net = demo_dial"
    by (simp_all add: demo_net_def)
  have "IsConnectMethod (demo_connect\<lparr>hr_domain := ''a'', raw := bs\<rparr>)"
    by (simp add: IsConnectMethod_def demo_connect_def)
  moreover have "WindowSize demo_config = 5" by (simp add: demo_config_def)
  ultimately obtain ip k hello port sr where "IsClientHello hello"
    and d: "demo_dial (net_JoinHostPort ip (strconv_Itoa port)) = Inr (tcpConn, sr, k)"
    and "sk_segments (cn_out r) = sk_segments k @ splitInChunks (Raw hello) 5"
    using bypass_iff_pattern [of demo_caller demo_net demo_config True l r, unfolded w, OF demo_caller_fresh h ad] demo_matched
    by (auto simp del: split_paired_Ex)
  moreover from d have "k = open_sink" by (simp add: demo_dial_def split: if_splits)
  ultimately show ?thesis using h by (auto simp: open_sink_def)
qed

text \<open>C31: the accept loop.  Every accepted connection is handed to a handler exactly once and in order,
  up to the first error that is not a timeout; the loop returns nil when the listener was closed and the
  error otherwise.  It sleeps once for every timeout before that error: after the timeouts of one
  burst 5, 10, 20, ... milliseconds, up to a second, and 5 again for the first one after an accepted
  connection.\<close>

theorem Start_serves_and_backs_off:
  assumes "listen (w_ParseIP w (px_addr pxy)) (px_port pxy) = Inr outcomes"
    and "Start w listen pxy = (sleeps, conns, ret)"
  shows "conns = conns_of (takeWhile transient outcomes) \<and>
    ret = (case dropWhile transient outcomes of
             [] \<Rightarrow> None
           | Conn c # rest \<Rightarrow> None
           | AcceptError e # rest \<Rightarrow> Some (if errors_Is e ErrClosed then None else Some e)) \<and>
    set sleeps \<subseteq> {5..1000} \<and>
    sleeps = map (\<lambda>i. min 1000 (5 * 2 ^ burst_before outcomes i))
      (filter (\<lambda>i. timed_out (outcomes ! i)) [0..<length (takeWhile transient outcomes)])"
proof -
  have a: "accept_loop 0 outcomes = (sleeps, conns, ret)" using assms by (simp add: Start_def)
  have "sleeps = map (\<lambda>i. min 1000 (5 * 2 ^ burst_before outcomes i))
      (filter (\<lambda>i. timed_out (outcomes ! i)) [0..<length (takeWhile transient outcomes)])"
    using accept_loop_sleeps [of "[]" outcomes] a by (simp add: burst_before_def [of "[]"])
  with accept_loop_spec [OF a] accept_loop_delays [OF _ a] show ?thesis by blast
qed

text \<open>The witness: a burst of four timeouts, a connection, and one more timeout.\<close>

definition demo_accepts :: "accepted list" where
  "demo_accepts = [AcceptError ErrTimeout, AcceptError ErrTimeout, AcceptError ErrTimeout, AcceptError ErrTimeout,
     Conn demo_client, AcceptError ErrTimeout]"

theorem Start_serves_and_backs_off_witness:
  "Start demo_world (\<lambda>a p. Inr demo_accepts) demo_pxy = ([5, 10, 20, 40, 5], [demo_client], None)"
proof -
  obtain sl cs ret where s: "Start demo_world (\<lambda>a p. Inr demo_accepts) demo_pxy = (sl, cs, ret)" by (metis prod_cases3)
  have all: "takeWhile transient demo_accepts = demo_accepts" "dropWhile transient demo_accepts = []"
    by (simp_all add: demo_accepts_def)
  note spec = Start_serves_and_backs_off [OF refl s, unfolded all]
  have "sl = map (\<lambda>i. min 1000 (5 * 2 ^ burst_before demo_accepts i)) (filter (\<lambda>i. timed_out (demo_accepts ! i)) [0..<length demo_accepts])"
    using spec by blast
  also have "\<dots> = [5, 10, 20, 40, 5]" by (simp add: demo_accepts_def burst_before_def upt_rec)
  finally have "sl = [5, 10, 20, 40, 5]" .
  moreover have "cs = [demo_client]" "ret = None" using spec by (simp_all add: demo_accepts_def)
  ultimately show ?thesis using s by (simp only:)
qed

text \<open>C32: a request that would make the proxy connect to itself is refused: when the request names the
  proxy's own port and the host is, or resolves to, a loopback address or an address of one of the
  machine's interfaces, no connection is dialled and the client's is closed.\<close>

theorem looped_request_refused:
  assumes "handle w pxy isTCP c out" and "admit (pw_ReadRequest w) c = Inr (pkt, c1)"
    and "hr_port pkt = strconv_Itoa (px_port pxy)"
    and "\<forall>ip. ResolveHost (pw_dns w) (px_resolver pxy) (hr_domain pkt) False (\<not> matched_host pxy pkt) (Inr ip) \<longrightarrow>
      (\<exists>b. w_ParseIP (pw_dns w) ip = Some b \<and>
         (IP_IsLoopback b \<or> (\<exists>as a. pw_interfaceAddrs w = Inr as \<and> IPNet a \<in> set as \<and> IP_Equal a b)))"
  shows "\<exists>l. out = Aborted l None \<and> cn_closed l"
proof -
  from assms(1,2) obtain v where v: "ResolveHost (pw_dns w) (px_resolver pxy) (hr_domain pkt) False (\<not> matched_host pxy pkt) v"
    and out: "out = dispatch w pxy isTCP pkt c1 v" by (auto simp: handle_def)
  show ?thesis
  proof (cases v)
    case (Inl err)
    with out show ?thesis by (auto simp: dispatch_def split: prod.splits)
  next
    case (Inr ip)
    with v assms(4) obtain b where "w_ParseIP (pw_dns w) ip = Some b"
      and "IP_IsLoopback b \<or> (\<exists>as a. pw_interfaceAddrs w = Inr as \<and> IPNet a \<in> set as \<and> IP_Equal a b)" by blast
    then have "isLoopedRequest (pw_interfaceAddrs w) (w_ParseIP (pw_dns w) ip)" by (rule isLooped_intro)
    with Inr out assms(3) show ?thesis by (simp add: dispatch_def)
  qed
qed

theorem looped_request_refused_witness:
  "\<exists>l. handle (demo_net\<lparr>pw_dns := demo_world\<lparr>w_ParseIP := (\<lambda>s. Some [127, 0, 0, 1])\<rparr>\<rparr>)
      (demo_pxy\<lparr>px_port := 443\<rparr>) True demo_caller (Aborted l None) \<and> cn_closed l"
proof -
  let ?w = "demo_net\<lparr>pw_dns := demo_world\<lparr>w_ParseIP := (\<lambda>s. Some [127, 0, 0, 1])\<rparr>\<rparr>" and ?pxy = "demo_pxy\<lparr>px_port := 443\<rparr>"
  obtain bs where ad: "admit demo_rr demo_caller = Inr (demo_connect\<lparr>hr_domain := ''a'', raw := bs\<rparr>, demo_client)"
    by (rule demo_admit)
  let ?pkt = "demo_connect\<lparr>hr_domain := ''a'', raw := bs\<rparr>"
  obtain v where h: "handle ?w ?pxy True demo_caller (dispatch ?w ?pxy True ?pkt demo_client v)"
    unfolding handle_def using ad by (auto simp: demo_net_def ResolveHost_def parseIpAddr_def)
  have "IP_IsLoopback [127, 0, 0, 1]" by (simp add: IP_IsLoopback_def IP_To4_def)
  then have own: "\<forall>ip. ResolveHost (pw_dns ?w) (px_resolver ?pxy) (hr_domain ?pkt) False (\<not> matched_host ?pxy ?pkt) (Inr ip) \<longrightarrow>
      (\<exists>b. w_ParseIP (pw_dns ?w) ip = Some b \<and>
         (IP_IsLoopback b \<or> (\<exists>as a. pw_interfaceAddrs ?w = Inr as \<and> IPNet a \<in> set as \<and> IP_Equal a b)))"
    by simp
  have "hr_port ?pkt = strconv_Itoa (px_port ?pxy)" by (simp add: demo_443 demo_connect_def)
  from looped_request_refused [OF h _ this own] ad h show ?thesis by (auto simp: demo_net_def)
qed

text \<open>The check looks at the text of the port in the request, so a request without a port passes it
  whatever the host resolves to: a proxy on port 443 that is asked for a tunnel to its own address
  goes on to dial its own port.\<close>

lemma default_port_escapes_loop_check:
  assumes "hr_port pkt = []" and "IsConnectMethod pkt" and "px_port pxy = 443"
  shows "dispatch w pxy True pkt c (Inr ip) = HttpsHandler_Serve (pw_dial w)
      (NewHttpsHandler (px_timeout pxy) (px_windowSize pxy) (px_allowedPattern pxy) (matched_host pxy pkt)) c pkt ip \<and>
    serve_port 443 pkt = Some (px_port pxy)"
  using assms by (simp add: dispatch_def serve_port_def demo_443)

end
