(* ===== verification/Log_Ctx.thy ===== *)
theory Log_Ctx
  imports Prelude
begin

unbundle bit_operations_syntax

text \<open>
  Package \<open>util/log\<close>.  \<open>context.go\<close>: the scope and the trace identifier that a context carries, and the
  identifier itself, 32 hexadecimal digits made from three random numbers (a parameter: the results of
  the calls of \<open>rand.Uint64\<close>).  \<open>log.go\<close>: what the program adds to a log event and how it prepares the
  fields for the console, and which events pass its level; the library that prints them is not modelled.
\<close>

section \<open>Context values\<close>

datatype ctx_key = ScopeCtxKey | TraceIdCtxKey
type_synonym ctx = "(ctx_key \<times> string) list"

definition context_WithValue :: "ctx \<Rightarrow> ctx_key \<Rightarrow> string \<Rightarrow> ctx" where
  "context_WithValue ctx k v = (k, v) # ctx"

definition ctx_Value :: "ctx \<Rightarrow> ctx_key \<Rightarrow> string option" where
  "ctx_Value ctx k = map_of ctx k"

definition GetCtxWithScope :: "ctx \<Rightarrow> string \<Rightarrow> ctx" where
  "GetCtxWithScope ctx scope = context_WithValue ctx ScopeCtxKey scope"

definition GetScopeFromCtx :: "ctx \<Rightarrow> string \<times> bool" where
  "GetScopeFromCtx ctx = (case ctx_Value ctx ScopeCtxKey of Some scope \<Rightarrow> (scope, True) | None \<Rightarrow> ([], False))"

section \<open>Trace identifiers\<close>

definition trace_digit :: "uint64 \<Rightarrow> byte" where
  "trace_digit q = (let r = ucast (q AND 0xF) :: byte in (if 9 < r then r + 0x27 else r) + 0x30)"

function trace_loop :: "(nat \<Rightarrow> uint64) \<Rightarrow> nat \<Rightarrow> nat \<Rightarrow> uint64 \<Rightarrow> bytes" where
  "trace_loop rnd calls i q =
     (if i < 32 then
        let (q0, calls') = (if i mod 15 = 0 then (rnd calls, Suc calls) else (q, calls));
            sep = (if i AND 7 = 7 \<and> i \<noteq> 31 then [0x2D] else [])
        in trace_digit q0 # sep @ trace_loop rnd calls' (i + 1) (drop_bit 4 q0)
      else [])"
  by pat_completeness auto
termination
  by (relation "measure (\<lambda>(rnd, calls, i, q). 32 - i)") auto

declare trace_loop.simps [simp del]

definition generateTraceId :: "(nat \<Rightarrow> uint64) \<Rightarrow> string" where
  "generateTraceId rnd = string_of_bytes (trace_loop rnd 0 0 0)"

definition GetCtxWithTraceId :: "(nat \<Rightarrow> uint64) \<Rightarrow> ctx \<Rightarrow> ctx" where
  "GetCtxWithTraceId rnd ctx = context_WithValue ctx TraceIdCtxKey (generateTraceId rnd)"

definition GetTraceIdFromCtx :: "ctx \<Rightarrow> string \<times> bool" where
  "GetTraceIdFromCtx ctx = (case ctx_Value ctx TraceIdCtxKey of Some traceId \<Rightarrow> (traceId, True) | None \<Rightarrow> ([], False))"

section \<open>Log lines\<close>

datatype log_value = LogStr string | LogOther
type_synonym log_event = "(string \<times> log_value) list"

definition scopeFieldName :: string where "scopeFieldName = ''scope''"
definition traceIdFieldName :: string where "traceIdFieldName = ''trace_id''"

text \<open>\<open>fmt.Sprintf\<close> with one string argument: it goes to the first \<open>%s\<close>.\<close>

fun Sprintf_s :: "string \<Rightarrow> string \<Rightarrow> string" where
  "Sprintf_s (a # b # f) v = (if a = CHR ''%'' \<and> b = CHR ''s'' then v @ f else a # Sprintf_s (b # f) v)"
| "Sprintf_s f v = f"

definition formatFieldValue :: "(string \<rightharpoonup> log_value) \<Rightarrow> string \<Rightarrow> string \<Rightarrow> (string \<rightharpoonup> log_value)" where
  "formatFieldValue vs format field =
     (case vs field of
        Some (LogStr v) \<Rightarrow> vs(field \<mapsto> LogStr (Sprintf_s format v))
      | _ \<Rightarrow> vs(field \<mapsto> LogStr []))"

definition FormatPrepare :: "(string \<rightharpoonup> log_value) \<Rightarrow> (string \<rightharpoonup> log_value)" where
  "FormatPrepare m = formatFieldValue (formatFieldValue m ''%s'' traceIdFieldName) ''[%s]'' scopeFieldName"

definition ctxHook_Run :: "ctx \<Rightarrow> log_event \<Rightarrow> log_event" where
  "ctxHook_Run ctx e =
     (let e1 = (case GetScopeFromCtx ctx of (scope, ok) \<Rightarrow> if ok then e @ [(scopeFieldName, LogStr scope)] else e)
      in case GetTraceIdFromCtx ctx of (traceId, ok) \<Rightarrow> if ok then e1 @ [(traceIdFieldName, LogStr traceId)] else e1)"

datatype level = DebugLevel | InfoLevel | ErrorLevel

fun level_number :: "level \<Rightarrow> int" where
  "level_number DebugLevel = 0"
| "level_number InfoLevel = 1"
| "level_number ErrorLevel = 3"

text \<open>The logger writes to standard output; every event passes through \<open>ctxHook\<close> and gets a time.\<close>

record logger =
  lg_timeFormat :: string
  lg_partsOrder :: "string list"
  lg_fieldsExclude :: "string list"
  lg_level :: level
  lg_timestamp :: bool

definition InitLogger :: "bool \<Rightarrow> logger" where
  "InitLogger dbg =
     \<lparr>lg_timeFormat = ''2006-01-02T15:04:05Z07:00'',
      lg_partsOrder = [''level'', ''time'', traceIdFieldName, scopeFieldName, ''message''],
      lg_fieldsExclude = [traceIdFieldName, scopeFieldName],
      lg_level = (if dbg then DebugLevel else InfoLevel), lg_timestamp = True\<rparr>"

text \<open>A logger that carries a context, and the event that \<open>Msgf\<close> on it sends, if any: the fields the hook has added, the
  format and the error it is to show.\<close>

type_synonym ctx_logger = "logger \<times> ctx"

definition GetCtxLogger :: "logger \<Rightarrow> ctx \<Rightarrow> ctx_logger" where
  "GetCtxLogger logger ctx = (logger, ctx)"

record log_line =
  ll_level :: level
  ll_fields :: log_event
  ll_format :: string
  ll_err :: "go_error option"

definition log_Msgf :: "ctx_logger \<Rightarrow> level \<Rightarrow> string \<Rightarrow> go_error option \<Rightarrow> log_line list" where
  "log_Msgf lg lvl format err =
     (if level_number (lg_level (fst lg)) \<le> level_number lvl
      then [\<lparr>ll_level = lvl, ll_fields = ctxHook_Run (snd lg) [], ll_format = format, ll_err = err\<rparr>] else [])"

section \<open>Lemmas\<close>

text \<open>A scope set later hides an earlier one and leaves the trace identifier alone, so every log line of a
  connection names the connection and the component that wrote it.\<close>

lemma ctx_accessors [simp]:
  "GetScopeFromCtx (GetCtxWithScope ctx scope) = (scope, True)"
  "GetTraceIdFromCtx (GetCtxWithScope ctx scope) = GetTraceIdFromCtx ctx"
  "GetTraceIdFromCtx (GetCtxWithTraceId rnd ctx) = (generateTraceId rnd, True)"
  "GetScopeFromCtx (GetCtxWithTraceId rnd ctx) = GetScopeFromCtx ctx"
  "GetScopeFromCtx [] = ([], False)" "GetTraceIdFromCtx [] = ([], False)"
  by (simp_all add: GetScopeFromCtx_def GetTraceIdFromCtx_def GetCtxWithScope_def GetCtxWithTraceId_def ctx_Value_def context_WithValue_def)

lemma log_line_fields:
  assumes "set (map fst e) \<inter> {scopeFieldName, traceIdFieldName} = {}"
  shows "FormatPrepare (map_of (ctxHook_Run (GetCtxWithScope (GetCtxWithTraceId rnd ctx) scope) e)) =
    (map_of e)(traceIdFieldName \<mapsto> LogStr (generateTraceId rnd), scopeFieldName \<mapsto> LogStr (''['' @ scope @ '']''))"
proof -
  have "map_of e scopeFieldName = None" "map_of e traceIdFieldName = None"
    using assms(1) by (auto simp: map_of_eq_None_iff)
  then show ?thesis
    by (auto simp: ctxHook_Run_def FormatPrepare_def formatFieldValue_def scopeFieldName_def traceIdFieldName_def
        map_add_def fun_eq_iff split: option.splits)
qed


definition nibble_at :: "(nat \<Rightarrow> uint64) \<Rightarrow> nat \<Rightarrow> uint64" where
  "nibble_at rnd j = drop_bit (4 * (j mod 15)) (rnd (j div 15)) AND 0xF"

definition hex_digit :: "uint64 \<Rightarrow> char" where
  "hex_digit n = ''0123456789abcdef'' ! unat n"

definition trace_group :: "(nat \<Rightarrow> uint64) \<Rightarrow> nat \<Rightarrow> string" where
  "trace_group rnd g = map (\<lambda>j. hex_digit (nibble_at rnd j)) [8 * g..<8 * g + 8]"

lemma nibble_less: "unat (q AND 0xF :: uint64) < 16"
proof -
  have "(q AND 0xF) = take_bit 4 q" by (simp add: take_bit_eq_mask mask_eq_exp_minus_1)
  then show ?thesis using take_bit_nat_less_exp [of 4 "unat q"] by (simp add: unsigned_take_bit_eq)
qed

lemma nat_less_16: "n < 16 \<Longrightarrow> n \<in> {0, 1, 2, 3, 4, 5, 6, 7, 8, 9, 10, 11, 12, 13, 14, 15 :: nat}"
  by (simp, presburger)

lemma trace_digit_hex: "char_of_byte (trace_digit q) = hex_digit (q AND 0xF)"
proof -
  define n where "n = unat (q AND 0xF)"
  have "n < 16" using nibble_less n_def by simp
  moreover have q: "q AND 0xF = word_of_nat n" by (simp add: n_def)
  ultimately show ?thesis
    unfolding trace_digit_def hex_digit_def q Let_def
    by (elim nat_less_16 [THEN insertE] insertE emptyE; simp add: char_of_byte_def)
      (simp_all add: char_of_def bit_iff_odd)
qed

lemma hex_length: "length ''0123456789abcdef'' = 16"
  by simp

lemma hex_digit_inj: "unat m < 16 \<Longrightarrow> unat n < 16 \<Longrightarrow> hex_digit m = hex_digit n \<Longrightarrow> m = n"
proof -
  assume a: "unat m < 16" "unat n < 16" "hex_digit m = hex_digit n"
  have "distinct ''0123456789abcdef''" by simp
  from nth_eq_iff_index_eq [OF this, of "unat m" "unat n"] a show "m = n" by (simp add: hex_digit_def word_unat_eq_iff)
qed

abbreviation trace_sep :: "nat \<Rightarrow> bytes" where
  "trace_sep j \<equiv> (if j AND 7 = 7 \<and> j \<noteq> 31 then [0x2D] else [])"

lemma calls_before: "((i :: nat) + 14) div 15 = (if i mod 15 = 0 then i div 15 else Suc (i div 15))"
proof -
  define k m where "k = i div 15" and "m = i mod 15"
  then have i: "i = 15 * k + m" "m < 15" by simp_all
  have "(15 * k + m + 14) div 15 = k + (m + 14) div 15" by (simp add: ab_semigroup_add_class.add_ac(1))
  moreover have "(m + 14) div 15 = (if m = 0 then 0 else 1)" using i(2) by (auto intro: div_nat_eqI)
  ultimately show ?thesis unfolding k_def [symmetric] m_def [symmetric] using i by simp
qed

lemma trace_loop_closed:
  assumes "i \<le> 32" and "0 < i mod 15 \<Longrightarrow> q = drop_bit (4 * (i mod 15)) (rnd (i div 15))"
  shows "trace_loop rnd ((i + 14) div 15) i q =
    concat (map (\<lambda>j. trace_digit (drop_bit (4 * (j mod 15)) (rnd (j div 15))) # trace_sep j) [i..<32])"
  using assms
proof (induction "32 - i" arbitrary: i q)
  case 0
  then show ?case by (simp add: trace_loop.simps)
next
  case (Suc n)
  then have i: "i < 32" by simp
  let ?q = "drop_bit (4 * (i mod 15)) (rnd (i div 15))"
  have "(if i mod 15 = 0 then (rnd ((i + 14) div 15), Suc ((i + 14) div 15)) else (q, (i + 14) div 15)) =
      (?q, (i + 1 + 14) div 15)"
    using calls_before [of i] Suc.prems(2) div_add_self1 [of 15 i] by simp
  then have "trace_loop rnd ((i + 14) div 15) i q =
      trace_digit ?q # trace_sep i @ trace_loop rnd ((i + 1 + 14) div 15) (i + 1) (drop_bit 4 ?q)"
    using i by (subst trace_loop.simps) (simp only: if_True Let_def prod.case)
  moreover have "drop_bit 4 ?q = drop_bit (4 * ((i + 1) mod 15)) (rnd ((i + 1) div 15))" if "0 < (i + 1) mod 15"
  proof -
    have "(i + 1) mod 15 = Suc (i mod 15)" "(i + 1) div 15 = i div 15"
      using that by (simp_all add: mod_Suc div_Suc split: if_splits)
    then show ?thesis by (simp add: add.commute)
  qed
  ultimately show ?case
    using Suc.hyps(1) [of "i + 1" "drop_bit 4 ?q"] Suc.hyps(2) i by (simp add: upt_conv_Cons)
qed

lemma generateTraceId_groups:
  "generateTraceId rnd = trace_group rnd 0 @ ''-'' @ trace_group rnd 1 @ ''-'' @ trace_group rnd 2 @ ''-'' @ trace_group rnd 3"
proof -
  have "trace_loop rnd 0 0 0 =
    concat (map (\<lambda>j. trace_digit (drop_bit (4 * (j mod 15)) (rnd (j div 15))) # trace_sep j) [0..<32])"
    using trace_loop_closed [of 0 0 rnd] by simp
  then have "generateTraceId rnd = concat (map (\<lambda>j. hex_digit (nibble_at rnd j) # string_of_bytes (trace_sep j)) [0..<32])"
    by (simp add: generateTraceId_def string_of_bytes_def map_concat comp_def trace_digit_hex nibble_at_def)
  moreover have "[0..<32] = [0, 1, 2, 3, 4, 5, 6, 7, 8, 9, 10, 11, 12, 13, 14, 15, 16, 17, 18, 19, 20, 21, 22, 23, 24, 25, 26, 27, 28, 29, 30, 31]"
    "[0..<8] = [0, 1, 2, 3, 4, 5, 6, 7]" "[8..<16] = [8, 9, 10, 11, 12, 13, 14, 15]" "[16..<24] = [16, 17, 18, 19, 20, 21, 22, 23]" "[24..<32] = [24, 25, 26, 27, 28, 29, 30, 31]"
    by (simp_all add: upt_rec)
  ultimately show ?thesis by (simp add: trace_group_def) (simp add: char_of_byte_def char_of_def bit_iff_odd)
qed

lemma trace_group_length [simp]: "length (trace_group rnd g) = 8"
  by (simp add: trace_group_def)

text \<open>The digits of an identifier are the 32 nibbles it was made from, and these are 128 random bits.\<close>

lemma generateTraceId_nibbles:
  "generateTraceId rnd = generateTraceId rnd' \<longleftrightarrow> (\<forall>j < 32. nibble_at rnd j = nibble_at rnd' j)"
proof -
  have "(\<forall>g < 4. trace_group rnd g = trace_group rnd' g) \<longleftrightarrow> (\<forall>j < 32. nibble_at rnd j = nibble_at rnd' j)"
  proof (intro iffI allI impI)
    fix j :: nat
    assume g: "\<forall>g < 4. trace_group rnd g = trace_group rnd' g" and "j < 32"
    then have "trace_group rnd (j div 8) = trace_group rnd' (j div 8)" by simp
    moreover have "j \<in> set [8 * (j div 8)..<8 * (j div 8) + 8]" by simp
    ultimately have "hex_digit (nibble_at rnd j) = hex_digit (nibble_at rnd' j)"
      unfolding trace_group_def map_eq_conv by blast
    then show "nibble_at rnd j = nibble_at rnd' j"
      unfolding nibble_at_def by (rule hex_digit_inj [OF nibble_less nibble_less])
  next
    fix g :: nat
    assume "\<forall>j < 32. nibble_at rnd j = nibble_at rnd' j" and "g < 4"
    then show "trace_group rnd g = trace_group rnd' g" by (simp add: trace_group_def)
  qed
  moreover have "(\<forall>g < 4. P g) \<longleftrightarrow> P 0 \<and> P 1 \<and> P 2 \<and> P (3 :: nat)" for P
    by (auto simp: less_Suc_eq numeral_eq_Suc)
  ultimately show ?thesis by (simp add: generateTraceId_groups)
qed

lemma nibble_bit: "bit (nibble_at rnd j) k \<longleftrightarrow> k < 4 \<and> bit (rnd (j div 15)) (4 * (j mod 15) + k)"
proof -
  have "(15 :: uint64) = mask 4" by (simp add: mask_eq_exp_minus_1)
  then have "nibble_at rnd j = take_bit 4 (drop_bit (4 * (j mod 15)) (rnd (j div 15)))"
    by (simp only: nibble_at_def take_bit_eq_mask)
  then show ?thesis by (auto simp: bit_take_bit_iff bit_drop_bit_eq)
qed

lemma nibbles_take_bit:
  assumes "n \<le> 15"
  shows "(\<forall>i < n. nibble_at rnd (15 * c + i) = nibble_at rnd' (15 * c + i)) \<longleftrightarrow>
    take_bit (4 * n) (rnd c) = take_bit (4 * n) (rnd' c)"
proof (intro iffI allI impI)
  assume eq: "\<forall>i < n. nibble_at rnd (15 * c + i) = nibble_at rnd' (15 * c + i)"
  show "take_bit (4 * n) (rnd c) = take_bit (4 * n) (rnd' c)"
  proof (rule bit_eqI)
    fix k
    have "bit (rnd c) k \<longleftrightarrow> bit (rnd' c) k" if "k < 4 * n"
    proof -
      have i: "k div 4 < n" "k div 4 < 15" using that assms by auto
      then have "bit (nibble_at rnd (15 * c + k div 4)) (k mod 4) \<longleftrightarrow> bit (nibble_at rnd' (15 * c + k div 4)) (k mod 4)"
        using eq by simp
      with i show ?thesis by (simp add: nibble_bit)
    qed
    then show "bit (take_bit (4 * n) (rnd c)) k \<longleftrightarrow> bit (take_bit (4 * n) (rnd' c)) k"
      by (auto simp: bit_take_bit_iff)
  qed
next
  fix i
  assume eq: "take_bit (4 * n) (rnd c) = take_bit (4 * n) (rnd' c)" and "i < n"
  have "bit (rnd c) (4 * i + k) \<longleftrightarrow> bit (rnd' c) (4 * i + k)" if "k < 4" for k
  proof -
    have "4 * i + k < 4 * n" using that \<open>i < n\<close> by linarith
    with eq show ?thesis by (metis bit_take_bit_iff)
  qed
  with \<open>i < n\<close> assms show "nibble_at rnd (15 * c + i) = nibble_at rnd' (15 * c + i)"
    by (intro bit_eqI) (auto simp: nibble_bit)
qed

lemma nibbles_split: "(\<forall>j < 32. P j) \<longleftrightarrow> (\<forall>i < 15. P (15 * 0 + i)) \<and> (\<forall>i < 15. P (15 * 1 + i)) \<and> (\<forall>i < 2. P (15 * 2 + (i :: nat)))"
proof (intro iffI allI impI conjI)
  fix j :: nat
  assume "(\<forall>i < 15. P (15 * 0 + i)) \<and> (\<forall>i < 15. P (15 * 1 + i)) \<and> (\<forall>i < 2. P (15 * 2 + i))" and "j < 32"
  then show "P j"
    by (cases "j < 15"; cases "j < 30") (auto dest: spec [of _ "j - 15"] spec [of _ "j - 30"] spec [of _ j])
qed auto

section \<open>Properties\<close>

text \<open>C38: a trace identifier is four groups of eight lower-case hexadecimal digits with dashes between them, and
  two identifiers are equal exactly when the 128 random bits they are made from are equal: the lower
  60 bits of the first two random numbers and the lower 8 bits of the third.\<close>

theorem generateTraceId_unique:
  "(\<exists>g0 g1 g2 g3. generateTraceId rnd = g0 @ ''-'' @ g1 @ ''-'' @ g2 @ ''-'' @ g3 \<and>
      list_all (\<lambda>g. length g = 8 \<and> set g \<subseteq> set ''0123456789abcdef'') [g0, g1, g2, g3]) \<and>
   (generateTraceId rnd = generateTraceId rnd' \<longleftrightarrow>
      take_bit 60 (rnd 0) = take_bit 60 (rnd' 0) \<and> take_bit 60 (rnd 1) = take_bit 60 (rnd' 1) \<and>
      take_bit 8 (rnd 2) = take_bit 8 (rnd' 2))"
proof (intro conjI)
  have "set (trace_group rnd g) \<subseteq> set ''0123456789abcdef''" for g
  proof
    fix c
    assume "c \<in> set (trace_group rnd g)"
    then obtain j where "c = hex_digit (nibble_at rnd j)" by (auto simp: trace_group_def)
    then show "c \<in> set ''0123456789abcdef''"
      using nibble_less unfolding hex_digit_def nibble_at_def by (simp only: nth_mem hex_length)
  qed
  then have "list_all (\<lambda>g. length g = 8 \<and> set g \<subseteq> set ''0123456789abcdef'')
      [trace_group rnd 0, trace_group rnd 1, trace_group rnd 2, trace_group rnd 3]"
    by (simp del: set_simps)
  with generateTraceId_groups [of rnd] show "\<exists>g0 g1 g2 g3. generateTraceId rnd = g0 @ ''-'' @ g1 @ ''-'' @ g2 @ ''-'' @ g3 \<and>
      list_all (\<lambda>g. length g = 8 \<and> set g \<subseteq> set ''0123456789abcdef'') [g0, g1, g2, g3]"
    by blast
  show "generateTraceId rnd = generateTraceId rnd' \<longleftrightarrow>
      take_bit 60 (rnd 0) = take_bit 60 (rnd' 0) \<and> take_bit 60 (rnd 1) = take_bit 60 (rnd' 1) \<and>
      take_bit 8 (rnd 2) = take_bit 8 (rnd' 2)"
    unfolding generateTraceId_nibbles nibbles_split
    using nibbles_take_bit [of 15 rnd 0 rnd'] nibbles_take_bit [of 15 rnd 1 rnd'] nibbles_take_bit [of 2 rnd 2 rnd'] by simp
qed

end
