(* ===== verification/Os_Proxy.thy ===== *)
theory Os_Proxy
  imports Go_Strings
begin

text \<open>
  Package \<open>util\<close>, file \<open>os.go\<close>: setting and clearing the system-wide proxy of macOS with the command
  \<open>networksetup\<close>.  The operating system is a parameter: what the shell command that finds the default network
  prints at that moment, and what a command prints and how it ends, both given the commands run before.  The state is
  the list of \<open>networksetup\<close> commands that have been run.
\<close>

section \<open>The operating system\<close>

datatype exec_error = ExitError int | OtherExecError

type_synonym commands = "string list list"

record os_env =
  os_GOOS :: string
  os_sh :: "commands \<Rightarrow> string \<Rightarrow> string result"
  os_networksetup :: "commands \<Rightarrow> string list \<Rightarrow> string \<times> exec_error option"
  os_cmdString :: "string list \<Rightarrow> string"

section \<open>The functions of the file\<close>

definition getDefaultNetworkCMD :: string where
  "getDefaultNetworkCMD =
     ''networksetup -listnetworkserviceorder | grep'' @
     '' `(route -n get default | grep '' @ [CHR 0x27] @ ''interface'' @ [CHR 0x27] @ '' || route -n get -inet6 default | grep '' @ [CHR 0x27] @ ''interface'' @ [CHR 0x27] @ '') | cut -d '' @ [CHR 0x27] @ '':'' @ [CHR 0x27] @ '' -f2`'' @
     '' -B 1 | head -n 1 | cut -d '' @ [CHR 0x27] @ '' '' @ [CHR 0x27] @ '' -f 2-''"

definition darwinOS :: string where "darwinOS = ''darwin''"

definition permissionErrorHelpTextMacOS :: string where
  "permissionErrorHelpTextMacOS =
     ''Varsay'' @ [CHR 0xC4, CHR 0xB1] @ ''lan olarak SpoofDPI kendisini sistem genelinde bir proxy sunucusu olarak ayarlamaya '' @ [CHR 0xC3, CHR 0xA7] @ ''al'' @ [CHR 0xC4, CHR 0xB1, CHR 0xC5, CHR 0x9F, CHR 0xC4, CHR 0xB1] @ ''r.'' @ [CHR 0x0A] @
     ''Bu i'' @ [CHR 0xC5, CHR 0x9F] @ ''lem k'' @ [CHR 0xC3, CHR 0xB6] @ ''k (root) eri'' @ [CHR 0xC5, CHR 0x9F] @ ''imine ihtiya'' @ [CHR 0xC3, CHR 0xA7] @ '' duyabilir:'' @ [CHR 0x0A] @
     [CHR 0x27] @ ''Settings > Privacy & Security > Advanced > Require'' @ [CHR 0x0A] @
     '' Bir yetkili '' @ [CHR 0xC5, CHR 0x9F] @ ''ifresi girmeniz istenecektir.'' @ [CHR 0x0A] @
     ''SpoofDPI'' @ [CHR 0x27, CHR 0xC4, CHR 0xB1] @ ''n sistem genelinde bir proxy olarak hareket etmesini istemiyorsan'' @ [CHR 0xC4, CHR 0xB1] @ ''z'' @
     '' -system-proxy=false ayarlay'' @ [CHR 0xC4, CHR 0xB1] @ ''n'' @ [CHR 0xC4, CHR 0xB1] @ ''z.''"

definition isMacOSPermissionError :: "os_env \<Rightarrow> exec_error \<Rightarrow> bool" where
  "isMacOSPermissionError w err = (if os_GOOS w \<noteq> darwinOS then False else err = ExitError 14)"

definition networkSetup :: "os_env \<Rightarrow> string list \<Rightarrow> commands \<Rightarrow> go_error option \<times> commands" where
  "networkSetup w args h =
     (case os_networksetup w h args of
        (out, None) \<Rightarrow> (None, h @ [args])
      | (out, Some err) \<Rightarrow>
          (Some (ErrString (os_cmdString w args @ '': '' @
             (if isMacOSPermissionError w err then out @ permissionErrorHelpTextMacOS else out))), h @ [args]))"

definition getProxyTypes :: "string list" where
  "getProxyTypes = [''webproxy'', ''securewebproxy'']"

fun setProxy :: "os_env \<Rightarrow> string list \<Rightarrow> string \<Rightarrow> string \<Rightarrow> uint16 \<Rightarrow> commands \<Rightarrow> go_error option \<times> commands" where
  "setProxy w [] network domain port h = (None, h)"
| "setProxy w (proxyType # rest) network domain port h =
     (case networkSetup w [''-set'' @ proxyType, network, domain, format_nat (unat port)] h of
        (Some err, h') \<Rightarrow> (Some (ErrWrap (''setting '' @ proxyType) err), h')
      | (None, h') \<Rightarrow> setProxy w rest network domain port h')"

fun unsetProxy :: "os_env \<Rightarrow> string list \<Rightarrow> string \<Rightarrow> commands \<Rightarrow> go_error option \<times> commands" where
  "unsetProxy w [] network h = (None, h)"
| "unsetProxy w (proxyType # rest) network h =
     (case networkSetup w [''-set'' @ proxyType @ ''state'', network, ''off''] h of
        (Some err, h') \<Rightarrow> (Some (ErrWrap (''unsetting '' @ proxyType) err), h')
      | (None, h') \<Rightarrow> unsetProxy w rest network h')"

definition getDefaultNetwork :: "os_env \<Rightarrow> commands \<Rightarrow> string result" where
  "getDefaultNetwork w h =
     (case os_sh w h getDefaultNetworkCMD of
        Inl err \<Rightarrow> Inl err
      | Inr network \<Rightarrow>
          if length network = 0 then Inl (ErrString ''no available networks'') else Inr (strings_TrimSpace network))"

definition SetOsProxy :: "os_env \<Rightarrow> uint16 \<Rightarrow> commands \<Rightarrow> go_error option \<times> commands" where
  "SetOsProxy w port h =
     (if os_GOOS w \<noteq> darwinOS then (None, h)
      else case getDefaultNetwork w h of
        Inl err \<Rightarrow> (Some err, h)
      | Inr network \<Rightarrow> setProxy w getProxyTypes network ''127.0.0.1'' port h)"

definition UnsetOsProxy :: "os_env \<Rightarrow> commands \<Rightarrow> go_error option \<times> commands" where
  "UnsetOsProxy w h =
     (if os_GOOS w \<noteq> darwinOS then (None, h)
      else case getDefaultNetwork w h of
        Inl err \<Rightarrow> (Some err, h)
      | Inr network \<Rightarrow> unsetProxy w getProxyTypes network h)"

section \<open>Running commands in order\<close>

text \<open>Both loops run one command for each proxy type and stop at the first that fails.\<close>

definition cmd_ok :: "os_env \<Rightarrow> commands \<Rightarrow> string list \<Rightarrow> bool" where
  "cmd_ok w h args \<longleftrightarrow> snd (os_networksetup w h args) = None"

fun all_ok :: "os_env \<Rightarrow> commands \<Rightarrow> commands \<Rightarrow> bool" where
  "all_ok w h [] = True"
| "all_ok w h (c # cs) = (cmd_ok w h c \<and> all_ok w (h @ [c]) cs)"

lemma networkSetup_ran: "networkSetup w args h = (err, h') \<Longrightarrow> h' = h @ [args] \<and> (err = None \<longleftrightarrow> cmd_ok w h args)"
  by (auto simp: networkSetup_def cmd_ok_def split: prod.splits option.splits)

locale command_loop =
  fixes w :: os_env and loop :: "string list \<Rightarrow> commands \<Rightarrow> go_error option \<times> commands"
    and args_of :: "string \<Rightarrow> string list" and label :: string
  assumes loop_Nil: "loop [] h = (None, h)"
    and loop_Cons: "loop (t # ts) h =
      (case networkSetup w (args_of t) h of
         (Some err, h') \<Rightarrow> (Some (ErrWrap (label @ t) err), h')
       | (None, h') \<Rightarrow> loop ts h')"
begin

lemma loop_ran:
  assumes "loop ts h = (err, h')"
  shows "(err = None \<longleftrightarrow> all_ok w h (map args_of ts)) \<and>
    (case err of
       None \<Rightarrow> h' = h @ map args_of ts
     | Some e \<Rightarrow> (\<exists>k < length ts. h' = h @ map args_of (take (Suc k) ts) \<and> all_ok w h (map args_of (take k ts)) \<and>
         \<not> all_ok w h (map args_of (take (Suc k) ts)) \<and> (\<exists>e0. e = ErrWrap (label @ ts ! k) e0)))"
  using assms
proof (induction ts arbitrary: h)
  case Nil
  then show ?case by (simp add: loop_Nil)
next
  case (Cons t ts)
  obtain e1 h1 where n: "networkSetup w (args_of t) h = (e1, h1)" by (cases "networkSetup w (args_of t) h")
  note ran = networkSetup_ran [OF n]
  show ?case
  proof (cases e1)
    case (Some e)
    with Cons.prems n ran show ?thesis by (auto simp: loop_Cons intro!: exI [of _ 0])
  next
    case None
    with Cons.prems n ran have rec: "loop ts (h @ [args_of t]) = (err, h')" and ok: "cmd_ok w h (args_of t)"
      by (auto simp: loop_Cons)
    from Cons.IH [OF rec] ok show ?thesis
    proof (cases err)
      case (Some e)
      with Cons.IH [OF rec] obtain k where "k < length ts" "h' = h @ map args_of (take (Suc (Suc k)) (t # ts))"
        "all_ok w h (map args_of (take (Suc k) (t # ts)))" "\<not> all_ok w h (map args_of (take (Suc (Suc k)) (t # ts)))"
        "\<exists>e0. e = ErrWrap (label @ (t # ts) ! Suc k) e0"
        using ok by auto
      then have "\<exists>k < length (t # ts). h' = h @ map args_of (take (Suc k) (t # ts)) \<and> all_ok w h (map args_of (take k (t # ts))) \<and>
         \<not> all_ok w h (map args_of (take (Suc k) (t # ts))) \<and> (\<exists>e0. e = ErrWrap (label @ (t # ts) ! k) e0)" by (intro exI [of _ "Suc k"]) simp
      with Some Cons.IH [OF rec] show ?thesis by simp
    qed (use ok in simp)
  qed
qed

end

interpretation set_loop: command_loop w "\<lambda>ts h. setProxy w ts network domain port h"
  "\<lambda>t. [''-set'' @ t, network, domain, format_nat (unat port)]" "''setting ''" for w network domain port
  by unfold_locales simp_all

interpretation unset_loop: command_loop w "\<lambda>ts h. unsetProxy w ts network h"
  "\<lambda>t. [''-set'' @ t @ ''state'', network, ''off'']" "''unsetting ''" for w network
  by unfold_locales simp_all

text \<open>The two commands of each function.\<close>

definition set_commands :: "string \<Rightarrow> uint16 \<Rightarrow> commands" where
  "set_commands network port =
     [[''-setwebproxy'', network, ''127.0.0.1'', format_nat (unat port)],
      [''-setsecurewebproxy'', network, ''127.0.0.1'', format_nat (unat port)]]"

definition unset_commands :: "string \<Rightarrow> commands" where
  "unset_commands network =
     [[''-setwebproxystate'', network, ''off''], [''-setsecurewebproxystate'', network, ''off'']]"

lemma SetOsProxy_commands:
  assumes "os_GOOS w = ''darwin''" and "getDefaultNetwork w h = Inr network" and "SetOsProxy w port h = (err, h')"
  shows "h' = h @ take (if cmd_ok w h (set_commands network port ! 0) then 2 else 1) (set_commands network port) \<and>
    (err = None \<longleftrightarrow> all_ok w h (set_commands network port))"
proof -
  have "setProxy w getProxyTypes network ''127.0.0.1'' port h = (err, h')"
    using assms by (simp add: SetOsProxy_def darwinOS_def)
  from set_loop.loop_ran [OF this] show ?thesis
    by (cases err) (auto simp: getProxyTypes_def set_commands_def less_Suc_eq split: if_splits)
qed

lemma UnsetOsProxy_commands:
  assumes "os_GOOS w = ''darwin''" and "getDefaultNetwork w h = Inr network" and "UnsetOsProxy w h = (err, h')"
  shows "h' = h @ take (if cmd_ok w h (unset_commands network ! 0) then 2 else 1) (unset_commands network) \<and>
    (err = None \<longleftrightarrow> all_ok w h (unset_commands network))"
proof -
  have "unsetProxy w getProxyTypes network h = (err, h')"
    using assms by (simp add: UnsetOsProxy_def darwinOS_def)
  from unset_loop.loop_ran [OF this] show ?thesis
    by (cases err) (auto simp: getProxyTypes_def unset_commands_def less_Suc_eq split: if_splits)
qed

end
