(* ===== verification/Terminal.thy ===== *)
theory Terminal
  imports Config Log_Ctx
begin

text \<open>
  What the program itself prints: \<open>version/version.go\<close> and \<open>PrintColoredBanner\<close> of \<open>util/config.go\<close>, with the
  lines that \<open>main.go\<close> writes to standard error or to the log.  An output is the call with its arguments;
  how the library \<open>pterm\<close> draws its big letters and bullets, and how a log line looks, is theirs.  Text that is
  not ASCII is in UTF-8.
\<close>

datatype color = FgCyan | FgLightMagenta

datatype shown =
    Println "string list"
  | Fprintln_Stderr string go_error
  | BigText "(string \<times> color) list"
  | BulletList "(int \<times> string) list"
  | BasicText string
  | Logged log_line

section \<open>Version\<close>

text \<open>The embedded file \<open>VERSION\<close>, its line feed included.\<close>

definition VERSION :: string where
  "VERSION = ''0.12.0-TR'' @ [CHR 0x0A]"

definition turkiye_notice :: string where
  "turkiye_notice =
     ''Spoof DPI'' @ [CHR 0x27, CHR 0xC4, CHR 0xB1] @ ''n bu s'' @ [CHR 0xC3, CHR 0xBC] @ ''r'' @ [CHR 0xC3, CHR 0xBC] @
     ''m'' @ [CHR 0xC3, CHR 0xBC] @ '' T'' @ [CHR 0xC3, CHR 0xBC] @ ''rkiye'' @ [CHR 0x27] @ ''de kullan'' @
     [CHR 0xC4, CHR 0xB1] @ ''lmak '' @ [CHR 0xC3, CHR 0xBC] @ ''zere yap'' @ [CHR 0xC4, CHR 0xB1] @ ''land'' @
     [CHR 0xC4, CHR 0xB1] @ ''r'' @ [CHR 0xC4, CHR 0xB1] @ ''lm'' @ [CHR 0xC4, CHR 0xB1, CHR 0xC5, CHR 0x9F] @ ''t'' @
     [CHR 0xC4, CHR 0xB1] @ ''r.''"

definition PrintVersion :: "shown list" where
  "PrintVersion =
     [Println [''spoofdpi'', ''v'' @ VERSION], Println [turkiye_notice],
      Println [''https://github.com/esenmx/SpoofDPI-Turkiye'']]"

section \<open>Banner\<close>

definition quit_notice :: string where
  "quit_notice =
     [CHR 0xC3, CHR 0x87, CHR 0xC4, CHR 0xB1] @ ''kmak i'' @ [CHR 0xC3, CHR 0xA7] @ ''in '' @ [CHR 0x27] @ ''CTRL + c'' @
     [CHR 0x27] @ '' tu'' @ [CHR 0xC5, CHR 0x9F] @ '' kombinasyonunu kullan'' @ [CHR 0xC4, CHR 0xB1] @ ''n.''"

definition PrintColoredBanner :: "Config \<Rightarrow> shown list" where
  "PrintColoredBanner config =
     [BigText [(''Spoof'', FgCyan), (''DPI'', FgLightMagenta)],
      BulletList
        [(0, ''ADDR    : '' @ Addr config), (0, ''PORT    : '' @ strconv_Itoa (Port config)),
         (0, ''DNS     : '' @ DnsAddr config), (0, ''DEBUG   : '' @ show_bool (Debug config))],
      BasicText turkiye_notice, BasicText quit_notice]"

section \<open>Errors\<close>

text \<open>An output that reports an error.\<close>

fun reports :: "shown \<Rightarrow> go_error \<Rightarrow> bool" where
  "reports (Fprintln_Stderr msg err) e = (err = e)"
| "reports (Logged l) e = (ll_level l = ErrorLevel \<and> ll_err l = Some e)"
| "reports out e = False"

lemma log_Msgf_error: "log_Msgf lg ErrorLevel format err \<noteq> []"
  by (cases "lg_level (fst lg)") (simp_all add: log_Msgf_def)

text \<open>The lines of \<open>main.go\<close> have its scope and no trace identifier.\<close>

lemma log_Msgf_main:
  "log_Msgf (GetCtxLogger (InitLogger dbg) (GetCtxWithScope [] scope)) ErrorLevel format err =
     [\<lparr>ll_level = ErrorLevel, ll_fields = [(scopeFieldName, LogStr scope)], ll_format = format, ll_err = err\<rparr>]"
  by (simp add: log_Msgf_def GetCtxLogger_def InitLogger_def ctxHook_Run_def)

end
