(* ===== verification/Main_Prog.thy ===== *)
theory Main_Prog
  imports Proxy Os_Proxy Terminal
begin

text \<open>
  File \<open>main.go\<close>: \<open>run\<close>, from the command line to the exit status.  Its state is what outlives it or is
  global: the configuration, the logger, the system's proxy settings (the commands that changed
  them) and what was printed.  The outcomes of \<open>Accept\<close> up to the end are a parameter, and so is which branch the final
  \<open>select\<close> takes.  A cancelled context closes the listener, and \<open>Accept\<close> on a closed listener returns
  \<open>net.ErrClosed\<close>.  The usage text the flag package prints is left out.
\<close>

section \<open>The program\<close>

record main_env =
  me_os :: os_env
  me_world :: dns_world
  me_compile :: "string \<Rightarrow> regexp result"
  me_listen :: "bytes option \<Rightarrow> int \<Rightarrow> accepted list result"

record run_state =
  rs_commands :: commands
  rs_config :: "Config option"
  rs_logger :: "logger option"
  rs_out :: "shown list"

definition started :: "main_env \<Rightarrow> Proxy \<Rightarrow> bool \<Rightarrow> go_error option option" where
  "started env pxy cancelled =
     snd (snd (Start (me_world env)
       (\<lambda>ip port. map_sum id (listener_closed cancelled) (me_listen env ip port)) pxy))"

text \<open>The final \<open>select\<close>: the exit status, or \<open>None\<close> while \<open>errCh\<close> has nothing to receive, and what is logged.\<close>

definition await :: "main_env \<Rightarrow> ctx_logger \<Rightarrow> Proxy \<Rightarrow> bool \<Rightarrow> nat option \<times> log_line list" where
  "await env logger pxy sig =
     (if sig
      then (map_option (\<lambda>err. 0) (started env pxy True), log_Msgf logger InfoLevel ''received %s, shutting down'' None)
      else case started env pxy False of
        None \<Rightarrow> (None, [])
      | Some None \<Rightarrow> (Some 0, [])
      | Some (Some err) \<Rightarrow>
          if \<not> errors_Is err Canceled then (Some 1, log_Msgf logger ErrorLevel ''proxy exited: %s'' (Some err))
          else (Some 0, []))"

text \<open>The deferred function that switches the system's proxy off.\<close>

definition deferred_unset :: "main_env \<Rightarrow> ctx_logger \<Rightarrow> run_state \<Rightarrow> run_state" where
  "deferred_unset env logger s =
     (case UnsetOsProxy (me_os env) (rs_commands s) of
        (None, h) \<Rightarrow> s\<lparr>rs_commands := h\<rparr>
      | (Some err, h) \<Rightarrow>
          s\<lparr>rs_commands := h,
            rs_out := rs_out s @ map Logged (log_Msgf logger ErrorLevel ''error while disabling proxy: %s'' (Some err))\<rparr>)"

definition run :: "main_env \<Rightarrow> string list \<Rightarrow> bool \<Rightarrow> run_state \<Rightarrow> nat option \<times> run_state" where
  "run env argv sig s =
     (case ParseArgs (os_GOOS (me_os env)) argv of
        Inl status \<Rightarrow> (Some status, s)
      | Inr args \<Rightarrow>
          if a_Version args then (Some 0, s\<lparr>rs_out := rs_out s @ PrintVersion\<rparr>)
          else (case Config_Load (me_compile env) args (GetConfig (rs_config s)) of
            (config, Some err) \<Rightarrow>
              (Some 2, s\<lparr>rs_config := Some config, rs_out := rs_out s @ [Fprintln_Stderr ''config error:'' err]\<rparr>)
          | (config, None) \<Rightarrow>
              let lg = InitLogger (Debug config);
                  logger = GetCtxLogger lg (GetCtxWithScope [] ''MAIN'');
                  pxy = New (w_doh (me_world env)) config;
                  s1 = s\<lparr>rs_config := Some config, rs_logger := Some lg,
                         rs_out := rs_out s @ (if \<not> Silent config then PrintColoredBanner config else [])\<rparr>
              in if SystemProxy config then
                   (case SetOsProxy (me_os env) (word_of_int (Port config)) (rs_commands s1) of
                      (Some err, h) \<Rightarrow>
                        (Some 1, s1\<lparr>rs_commands := h, rs_out := rs_out s1 @
                           map Logged (log_Msgf logger ErrorLevel ''error while changing proxy settings: %s'' (Some err))\<rparr>)
                    | (None, h) \<Rightarrow>
                        (case await env logger pxy sig of
                           (None, lines) \<Rightarrow> (None, s1\<lparr>rs_commands := h, rs_out := rs_out s1 @ map Logged lines\<rparr>)
                         | (Some code, lines) \<Rightarrow>
                             (Some code, deferred_unset env logger (s1\<lparr>rs_commands := h, rs_out := rs_out s1 @ map Logged lines\<rparr>))))
                 else (case await env logger pxy sig of
                         (code, lines) \<Rightarrow> (code, s1\<lparr>rs_out := rs_out s1 @ map Logged lines\<rparr>))))"

definition main :: "main_env \<Rightarrow> string list \<Rightarrow> bool \<Rightarrow> run_state \<Rightarrow> nat option" where
  "main env argv sig s = fst (run env argv sig s)"

section \<open>Lemmas\<close>

lemma accept_loop_closed: "\<exists>sleeps conns err. accept_loop d (outcomes @ [AcceptError ErrClosed]) = (sleeps, conns, Some err)"
proof -
  obtain sl cs ret where a: "accept_loop d (outcomes @ [AcceptError ErrClosed]) = (sl, cs, ret)" by (metis prod_cases3)
  have "\<exists>e rest. dropWhile transient (outcomes @ [AcceptError ErrClosed]) = AcceptError e # rest"
    by (induction outcomes) (auto simp: transient_def split: accepted.split)
  with accept_loop_spec [OF a] a show ?thesis by auto
qed

lemma started_cancelled: "\<exists>err. started env pxy True = Some err"
proof (cases "me_listen env (w_ParseIP (me_world env) (px_addr pxy)) (px_port pxy)")
  case (Inl e)
  then show ?thesis by (simp add: started_def Start_def)
next
  case (Inr outcomes)
  obtain sl cs err where "accept_loop 0 (outcomes @ [AcceptError ErrClosed]) = (sl, cs, Some err)"
    using accept_loop_closed by blast
  with Inr show ?thesis by (simp add: started_def Start_def listener_closed_def)
qed

lemma await_signal [simp]:
  "await env logger pxy True = (Some 0, log_Msgf logger InfoLevel ''received %s, shutting down'' None)"
  using started_cancelled [of env pxy] by (auto simp: await_def)

lemma await_code: "await env logger pxy sig = (Some code, lines) \<Longrightarrow> code \<le> 1"
  by (auto simp: await_def split: if_splits option.splits)

lemma await_reports:
  assumes "await env logger pxy sig = (Some code, lines)" and "code \<noteq> 0"
  obtains e where "lines = log_Msgf logger ErrorLevel ''proxy exited: %s'' (Some e)"
  using assms by (auto simp: await_def split: if_splits option.splits)

lemma deferred_unset_commands [simp]: "rs_commands (deferred_unset env logger s) = snd (UnsetOsProxy (me_os env) (rs_commands s))"
  by (simp add: deferred_unset_def split: prod.split option.split)

lemma deferred_unset_out: "\<exists>out. rs_out (deferred_unset env logger s) = rs_out s @ out"
  by (simp add: deferred_unset_def split: prod.split option.split)

definition loads :: "main_env \<Rightarrow> string list \<Rightarrow> run_state \<Rightarrow> Config \<Rightarrow> bool" where
  "loads env argv s config \<longleftrightarrow>
     (\<exists>args. ParseArgs (os_GOOS (me_os env)) argv = Inr args \<and> \<not> a_Version args \<and>
        Config_Load (me_compile env) args (GetConfig (rs_config s)) = (config, None))"

abbreviation main_logger :: "Config \<Rightarrow> ctx_logger" where
  "main_logger config \<equiv> GetCtxLogger (InitLogger (Debug config)) (GetCtxWithScope [] ''MAIN'')"

definition loaded_state :: "run_state \<Rightarrow> Config \<Rightarrow> run_state" where
  "loaded_state s config = s\<lparr>rs_config := Some config, rs_logger := Some (InitLogger (Debug config)),
     rs_out := rs_out s @ (if \<not> Silent config then PrintColoredBanner config else [])\<rparr>"

lemma loaded_state_commands [simp]: "rs_commands (loaded_state s config) = rs_commands s"
  by (simp add: loaded_state_def)

lemma run_loaded:
  assumes "loads env argv s config"
  shows "run env argv sig s =
    (let s1 = loaded_state s config; logger = main_logger config; pxy = New (w_doh (me_world env)) config
     in if SystemProxy config then
          (case SetOsProxy (me_os env) (word_of_int (Port config)) (rs_commands s) of
             (Some err, h) \<Rightarrow>
               (Some 1, s1\<lparr>rs_commands := h, rs_out := rs_out s1 @
                  map Logged (log_Msgf logger ErrorLevel ''error while changing proxy settings: %s'' (Some err))\<rparr>)
           | (None, h) \<Rightarrow>
               (case await env logger pxy sig of
                  (None, lines) \<Rightarrow> (None, s1\<lparr>rs_commands := h, rs_out := rs_out s1 @ map Logged lines\<rparr>)
                | (Some code, lines) \<Rightarrow>
                    (Some code, deferred_unset env logger (s1\<lparr>rs_commands := h, rs_out := rs_out s1 @ map Logged lines\<rparr>))))
        else (case await env logger pxy sig of
                (code, lines) \<Rightarrow> (code, s1\<lparr>rs_out := rs_out s1 @ map Logged lines\<rparr>)))"
proof -
  from assms obtain args where "ParseArgs (os_GOOS (me_os env)) argv = Inr args" "\<not> a_Version args"
    "Config_Load (me_compile env) args (GetConfig (rs_config s)) = (config, None)" by (auto simp: loads_def)
  then show ?thesis by (simp add: run_def loaded_state_def Let_def)
qed

lemma SetOsProxy_other: "os_GOOS w \<noteq> ''darwin'' \<Longrightarrow> SetOsProxy w port h = (None, h)"
  and UnsetOsProxy_other: "os_GOOS w \<noteq> ''darwin'' \<Longrightarrow> UnsetOsProxy w h = (None, h)"
  by (simp_all add: SetOsProxy_def UnsetOsProxy_def darwinOS_def)

lemma flag_parse_status: "flag_parse argv a = Inl status \<Longrightarrow> status \<in> {0, 2}"
proof (induction argv a rule: flag_parse.induct)
  case (1 a)
  then show ?case by simp
next
  case (2 x rest a)
  from 2(4) show ?case
    by (subst (asm) flag_parse.simps)
       (auto split: option.splits if_splits prod.splits sum.splits list.splits dest: 2(1-3) [rotated -1])
qed

text \<open>The ways to end before the configuration is loaded.\<close>

lemma run_not_loaded:
  assumes "\<nexists>config. loads env argv s config"
  obtains (usage) status where "ParseArgs (os_GOOS (me_os env)) argv = Inl status" "run env argv sig s = (Some status, s)"
  | (version) args where "ParseArgs (os_GOOS (me_os env)) argv = Inr args" "a_Version args"
      "run env argv sig s = (Some 0, s\<lparr>rs_out := rs_out s @ PrintVersion\<rparr>)"
  | (config) args config err where "ParseArgs (os_GOOS (me_os env)) argv = Inr args" "\<not> a_Version args"
      "Config_Load (me_compile env) args (GetConfig (rs_config s)) = (config, Some err)"
      "run env argv sig s = (Some 2, s\<lparr>rs_config := Some config, rs_out := rs_out s @ [Fprintln_Stderr ''config error:'' err]\<rparr>)"
proof (cases "ParseArgs (os_GOOS (me_os env)) argv")
  case (Inl status)
  then show ?thesis by (intro usage) (simp_all add: run_def)
next
  case (Inr args)
  obtain cfg err where c: "Config_Load (me_compile env) args (GetConfig (rs_config s)) = (cfg, err)" by fastforce
  show ?thesis
  proof (cases "a_Version args")
    case True
    with Inr show ?thesis by (intro version) (simp_all add: run_def)
  next
    case False
    with assms Inr c obtain e where "err = Some e" by (auto simp: loads_def)
    with Inr False c show ?thesis by (intro config) (simp_all add: run_def)
  qed
qed

lemma run_loaded_code: "loads env argv s config \<Longrightarrow> run env argv sig s = (Some code, s') \<Longrightarrow> code \<le> 1"
  unfolding run_loaded Let_def
  by (auto split: if_splits prod.splits option.splits dest: await_code)

text \<open>The statuses: 2 exactly for unusable arguments or patterns, 1 for a system proxy that could not be set or
  for a proxy that failed, 0 otherwise.\<close>

lemma run_status:
  assumes "run env argv sig s = (Some code, s')"
  shows "code \<le> 2 \<and> (code = 2 \<longleftrightarrow> ParseArgs (os_GOOS (me_os env)) argv = Inl 2 \<or>
    (\<exists>args config err. ParseArgs (os_GOOS (me_os env)) argv = Inr args \<and> \<not> a_Version args \<and>
       Config_Load (me_compile env) args (GetConfig (rs_config s)) = (config, Some err)))"
proof (cases "\<exists>config. loads env argv s config")
  case True
  then obtain config where l: "loads env argv s config" ..
  with run_loaded_code [OF l assms] show ?thesis by (auto simp: loads_def)
next
  case False
  then show ?thesis
  proof (cases rule: run_not_loaded [where sig = sig])
    case (usage status)
    with assms show ?thesis by (auto simp: ParseArgs_def split: sum.splits dest: flag_parse_status)
  qed (use assms in auto)
qed

lemma error_line_reported:
  assumes "rs_out s' = rs_out (loaded_state s config) @ map Logged (log_Msgf (main_logger config) ErrorLevel fmt (Some e)) @ rest"
  shows "\<exists>out x e. rs_out s' = rs_out s @ out \<and> x \<in> set out \<and> reports x e"
  using assms
  by (intro exI [of _ "drop (length (rs_out s)) (rs_out s')"] exI [of _ e]
      exI [of _ "Logged \<lparr>ll_level = ErrorLevel, ll_fields = [(scopeFieldName, LogStr ''MAIN'')], ll_format = fmt, ll_err = Some e\<rparr>"])
     (simp add: loaded_state_def log_Msgf_main)

text \<open>Whenever the program ends with another status than 0 after its arguments were parsed, the reason has been
  printed.\<close>

lemma run_failure_reported:
  assumes "run env argv sig s = (Some code, s')" and "code \<noteq> 0" and "ParseArgs (os_GOOS (me_os env)) argv = Inr args"
  shows "\<exists>out x e. rs_out s' = rs_out s @ out \<and> x \<in> set out \<and> reports x e"
proof (cases "\<exists>config. loads env argv s config")
  case False
  then show ?thesis
  proof (cases rule: run_not_loaded [where sig = sig])
    case (config args' config err)
    with assms(1) show ?thesis
      by (intro exI [of _ "[Fprintln_Stderr ''config error:'' err]"] exI [of _ "Fprintln_Stderr ''config error:'' err"] exI [of _ err]) auto
  qed (use assms in auto)
next
  case True
  then obtain config where l: "loads env argv s config" ..
  let ?lg = "main_logger config" and ?err = "fst (SetOsProxy (me_os env) (word_of_int (Port config)) (rs_commands s))"
  obtain c lines where aw: "await env ?lg (New (w_doh (me_world env)) config) sig = (c, lines)" by fastforce
  note run = assms(1) [unfolded run_loaded [OF l] Let_def aw]
  consider err where "SystemProxy config" "?err = Some err" | "\<not> SystemProxy config" | "SystemProxy config" "?err = None" by fastforce
  then show ?thesis
  proof cases
    case 1
    with run show ?thesis by (intro error_line_reported [where rest = "[]"]) (auto split: prod.splits)
  next
    case 2
    with run have "c = Some code" by simp
    with assms(2) aw await_reports obtain e where "lines = log_Msgf ?lg ErrorLevel ''proxy exited: %s'' (Some e)" by blast
    with 2 run show ?thesis by (intro error_line_reported [where rest = "[]"]) auto
  next
    case 3
    with run obtain h where c: "c = Some code"
      and s': "s' = deferred_unset env ?lg ((loaded_state s config)\<lparr>rs_commands := h, rs_out := rs_out (loaded_state s config) @ map Logged lines\<rparr>)"
      by (auto split: prod.splits option.splits)
    with assms(2) aw await_reports obtain e where "lines = log_Msgf ?lg ErrorLevel ''proxy exited: %s'' (Some e)" by blast
    moreover obtain rest where "rs_out s' = rs_out (loaded_state s config) @ map Logged lines @ rest"
      using deferred_unset_out [of env ?lg "(loaded_state s config)\<lparr>rs_commands := h, rs_out := rs_out (loaded_state s config) @ map Logged lines\<rparr>"]
      unfolding s' by auto
    ultimately show ?thesis by (intro error_line_reported) simp
  qed
qed

text \<open>A failure to switch the system's proxy off is logged.\<close>

lemma deferred_unset_reports:
  assumes "UnsetOsProxy (me_os env) (rs_commands s) = (Some e, h)"
  shows "rs_out (deferred_unset env (main_logger config) s) \<noteq> [] \<and> reports (last (rs_out (deferred_unset env (main_logger config) s))) e"
  using assms by (simp add: deferred_unset_def log_Msgf_main)

section \<open>Properties\<close>

text \<open>C29: a signal ends the program.  Once the configuration is loaded and the system's proxy is set (or is
  not to be set), a signal leads to exit status 0 whatever the listener has done so far: the wait for
  the accept loop does not block, since cancelling closes its listener.\<close>

theorem run_signal_exits:
  assumes "loads env argv s config"
    and "SystemProxy config \<Longrightarrow> fst (SetOsProxy (me_os env) (word_of_int (Port config)) (rs_commands s)) = None"
  shows "fst (run env argv True s) = Some 0"
  using assms(2) unfolding run_loaded [OF assms(1)]
  by (auto simp: Let_def split: prod.splits option.splits)

text \<open>C30: the system's proxy is switched off at the end.  On macOS, once the proxy was set at the start (both
  commands, on the network that was the default one then), then whenever the program ends, by a
  signal or because the proxy failed, it asks for the default network again and runs the two commands
  that switch the web proxy and the secure web proxy of that network off, and nothing else; but the
  second command only if the first succeeds, and neither when there is no default network.  Every such failure
  is logged.  Nothing ties the network to the first one: when the default network has changed in between,
  the proxy of the first one stays set.\<close>

theorem run_restores_system_proxy:
  assumes "os_GOOS (me_os env) = ''darwin''" and "loads env argv s config" and "SystemProxy config"
    and "fst (SetOsProxy (me_os env) (word_of_int (Port config)) (rs_commands s)) = None"
    and "run env argv sig s = (Some code, s')"
  shows "\<exists>n1 h. getDefaultNetwork (me_os env) (rs_commands s) = Inr n1 \<and>
    h = rs_commands s @ set_commands n1 (word_of_int (Port config)) \<and>
    rs_commands s' =
      (case getDefaultNetwork (me_os env) h of
         Inl err \<Rightarrow> h
       | Inr n2 \<Rightarrow> h @ take (if cmd_ok (me_os env) h (unset_commands n2 ! 0) then 2 else 1) (unset_commands n2)) \<and>
    ((\<exists>n2. getDefaultNetwork (me_os env) h = Inr n2 \<and> all_ok (me_os env) h (unset_commands n2)) \<or>
     (\<exists>err. fst (UnsetOsProxy (me_os env) h) = Some err \<and> rs_out s' \<noteq> [] \<and> reports (last (rs_out s')) err))"
proof -
  let ?p = "word_of_int (Port config) :: uint16"
  obtain h where set: "SetOsProxy (me_os env) ?p (rs_commands s) = (None, h)"
    using assms(4) by (cases "SetOsProxy (me_os env) ?p (rs_commands s)") auto
  obtain n1 where n1: "getDefaultNetwork (me_os env) (rs_commands s) = Inr n1"
    using set assms(1) by (auto simp: SetOsProxy_def darwinOS_def split: sum.splits)
  have h: "h = rs_commands s @ set_commands n1 ?p"
    using SetOsProxy_commands [OF assms(1) n1 set] by (simp add: set_commands_def)
  obtain s0 where s': "s' = deferred_unset env (main_logger config) s0" and s0: "rs_commands s0 = h"
    using assms(3,5) set unfolding run_loaded [OF assms(2)] by (auto simp: Let_def split: prod.splits option.splits)
  obtain err h2 where unset: "UnsetOsProxy (me_os env) h = (err, h2)" by fastforce
  have cmds: "rs_commands s' = h2" using s' s0 unset by simp
  have out: "\<exists>e. fst (UnsetOsProxy (me_os env) h) = Some e \<and> rs_out s' \<noteq> [] \<and> reports (last (rs_out s')) e" if "err \<noteq> None"
    using deferred_unset_reports [of env s0 _ h2 config] unset that s0 unfolding s' by auto
  show ?thesis
  proof (cases "getDefaultNetwork (me_os env) h")
    case (Inl e)
    with unset assms(1) have "err \<noteq> None" "h2 = h" by (auto simp: UnsetOsProxy_def darwinOS_def)
    with n1 h cmds out Inl show ?thesis by auto
  next
    case (Inr n2)
    note un = UnsetOsProxy_commands [OF assms(1) Inr unset]
    with n1 h cmds out Inr show ?thesis by (intro exI [of _ n1] exI [of _ h] conjI) auto
  qed
qed

text \<open>C39: a system proxy that could be set only in part is left behind.  When the first command succeeds and the
  second fails, the program exits with status 1 and runs no further command: the web proxy of
  the default network stays set to a port on which nothing listens.\<close>

theorem partial_system_proxy_left:
  assumes "os_GOOS (me_os env) = ''darwin''" and "loads env argv s config" and "SystemProxy config"
    and "getDefaultNetwork (me_os env) (rs_commands s) = Inr n"
    and "set_commands n (word_of_int (Port config)) = [c1, c2]"
    and "cmd_ok (me_os env) (rs_commands s) c1" and "\<not> cmd_ok (me_os env) (rs_commands s @ [c1]) c2"
  shows "fst (run env argv sig s) = Some 1 \<and> rs_commands (snd (run env argv sig s)) = rs_commands s @ [c1, c2]"
proof -
  obtain err h where set: "SetOsProxy (me_os env) (word_of_int (Port config)) (rs_commands s) = (err, h)" by fastforce
  have "h = rs_commands s @ [c1, c2]" "err \<noteq> None"
    using SetOsProxy_commands [OF assms(1,4) set] assms(5-7) by simp_all
  with set assms(3) show ?thesis unfolding run_loaded [OF assms(2)] by (auto simp: Let_def)
qed

text \<open>The program on macOS without arguments, with commands that succeed and a listener that accepts nothing.\<close>

definition demo_mac :: "(commands \<Rightarrow> string list \<Rightarrow> string \<times> exec_error option) \<Rightarrow> main_env" where
  "demo_mac cmd =
     \<lparr>me_os = \<lparr>os_GOOS = ''darwin'', os_sh = (\<lambda>h c. Inr ''Wi-Fi''), os_networksetup = cmd, os_cmdString = concat\<rparr>,
      me_world = demo_world, me_compile = (\<lambda>p. Inl ErrInvalid), me_listen = (\<lambda>ip port. Inr [])\<rparr>"

definition demo_start :: run_state where
  "demo_start = \<lparr>rs_commands = [], rs_config = None, rs_logger = None, rs_out = []\<rparr>"

lemma demo_network: "getDefaultNetwork (me_os (demo_mac cmd)) h = Inr ''Wi-Fi''"
  by (simp add: getDefaultNetwork_def demo_mac_def strings_TrimSpace_def is_space_def)

lemma demo_loads: obtains config where "loads (demo_mac cmd) [] demo_start config" "SystemProxy config" "Port config = 8080"
proof -
  let ?a = "(default_Args ''darwin'')\<lparr>a_DnsFallback := [''8.8.8.8'', ''9.9.9.9'']\<rparr>"
  have "ParseArgs ''darwin'' [] = Inr ?a" by (simp add: ParseArgs_def default_Args_def)
  then have "loads (demo_mac cmd) [] demo_start (fst (Config_Load (\<lambda>p. Inl ErrInvalid) ?a (GetConfig None)))"
    unfolding loads_def by (intro exI [of _ ?a])
      (simp add: demo_mac_def demo_start_def Config_Load_def Let_def default_Args_def compileAllowedPatterns_def)
  then show ?thesis
    by (rule that) (simp_all add: Config_Load_def Let_def default_Args_def compileAllowedPatterns_def)
qed

theorem run_signal_exits_witness:
  "fst (run (demo_mac (\<lambda>h c. ([], None))) [] True demo_start) = Some 0"
proof -
  let ?e = "demo_mac (\<lambda>h c. ([], None))"
  obtain config where l: "loads ?e [] demo_start config" by (rule demo_loads)
  have "fst (SetOsProxy (me_os ?e) p (rs_commands demo_start)) = None" for p
    using SetOsProxy_commands [of "me_os ?e" "rs_commands demo_start" "''Wi-Fi''" p] demo_network [of _ "rs_commands demo_start"]
    by (cases "SetOsProxy (me_os ?e) p (rs_commands demo_start)") (simp add: demo_mac_def set_commands_def cmd_ok_def)
  with l show ?thesis by (intro run_signal_exits)
qed

theorem run_restores_system_proxy_witness:
  "rs_commands (snd (run (demo_mac (\<lambda>h c. ([], None))) [] True demo_start)) =
     set_commands ''Wi-Fi'' 8080 @ unset_commands ''Wi-Fi''"
proof -
  let ?e = "demo_mac (\<lambda>h c. ([], None))" and ?h = "rs_commands demo_start @ set_commands ''Wi-Fi'' 8080"
  obtain config where l: "loads ?e [] demo_start config" "SystemProxy config" and p: "Port config = 8080" by (rule demo_loads)
  have ok: "all_ok (me_os ?e) h cs" for h cs
    by (induction cs arbitrary: h) (simp_all add: cmd_ok_def demo_mac_def)
  then have set: "SetOsProxy (me_os ?e) 8080 (rs_commands demo_start) = (None, ?h)"
    using SetOsProxy_commands [of "me_os ?e" "rs_commands demo_start" "''Wi-Fi''" 8080] demo_network
    by (cases "SetOsProxy (me_os ?e) 8080 (rs_commands demo_start)") (simp add: demo_mac_def set_commands_def cmd_ok_def)
  have "(word_of_int 8080 :: uint16) = 8080" by simp
  with l p set obtain s' where r: "run ?e [] True demo_start = (Some 0, s')"
    unfolding run_loaded [OF l(1)] by (auto simp: Let_def)
  have "os_GOOS (me_os ?e) = ''darwin''" by (simp add: demo_mac_def)
  moreover have "fst (SetOsProxy (me_os ?e) (word_of_int (Port config)) (rs_commands demo_start)) = None" using set p by simp
  ultimately have "rs_commands s' = ?h @ unset_commands ''Wi-Fi''"
    using run_restores_system_proxy [OF _ l _ r] demo_network p ok [of "?h" "unset_commands ''Wi-Fi''"] by (auto simp: unset_commands_def)
  with r show ?thesis by (simp add: demo_start_def)
qed

theorem partial_system_proxy_left_witness:
  "fst (run (demo_mac (\<lambda>h c. ([], if h = [] then None else Some (ExitError 14)))) [] True demo_start) = Some 1 \<and>
   rs_commands (snd (run (demo_mac (\<lambda>h c. ([], if h = [] then None else Some (ExitError 14)))) [] True demo_start)) =
     set_commands ''Wi-Fi'' 8080"
proof -
  let ?e = "demo_mac (\<lambda>h c. ([], if h = [] then None else Some (ExitError 14)))"
  obtain config where l: "loads ?e [] demo_start config" "SystemProxy config" and p: "Port config = 8080" by (rule demo_loads)
  obtain c1 c2 where c: "set_commands ''Wi-Fi'' (word_of_int (Port config)) = [c1, c2]" by (simp add: set_commands_def)
  have "fst (run ?e [] True demo_start) = Some 1 \<and> rs_commands (snd (run ?e [] True demo_start)) = rs_commands demo_start @ [c1, c2]"
    by (rule partial_system_proxy_left [OF _ l demo_network c])
       (simp_all add: demo_mac_def cmd_ok_def demo_start_def)
  with c p show ?thesis by (simp add: demo_start_def)
qed

end
