(* ===== verification/Spec2Isabelle.thy ===== *)
theory Spec2Isabelle
  imports Prelude Go_Strings Sort_Interface Net_IP Addr_Select Addr_Flags Go_IO Tls_Packet Http_Packet
    Dns_Resolver Base64_Url Resolvers Chain Cache Config Cache_Slices Dns Chunks Pipe Relay_Spec Handlers Buffers Proxy Log_Ctx Os_Proxy Terminal Main_Prog
begin

text \<open>
  \<^bold>\<open>SpoofDPI-Turkiye, a verification library.\<close>

  The program is a local HTTP proxy that gets TLS connections past deep packet inspection: it resolves
  names with its own DNS upstreams instead of the provider's resolver, and sends the TLS ClientHello
  in small fragments.  The development models the Go sources under \<open>src/\<close> as HOL definitions and
  proves what makes each part correct.

  \<^bold>\<open>How the parts work together.\<close>  \<open>main.go\<close> parses the arguments, loads the configuration, sets the system proxy
  (macOS) and starts the proxy.  \<open>proxy.Start\<close> accepts connections; \<open>proxy.handle\<close> reads one request
  (\<open>packet.ReadHttpRequest\<close>, \<open>Tidy\<close>), resolves the host (\<open>dns.ResolveHost\<close>) and hands the connection to
  \<open>HttpHandler\<close> or, for CONNECT, to \<open>HttpsHandler\<close>, which reads the ClientHello
  (\<open>packet.ReadTLSMessage\<close>), writes it in fragments when the host matches the patterns, and then
  relays both directions (\<open>pipe\<close>).  A lookup for a bypassed host goes through \<open>resolver.Cache\<close> to
  \<open>ChainResolver\<close>, which races the plain and the DNS-over-HTTPS resolvers; each of these asks for all
  record types in parallel (\<open>lookupAllTypes\<close>) and sorts the addresses by RFC 6724
  (\<open>addrselect\<close>).

  \<^bold>\<open>Theories, from the bottom up.\<close>
  \<^item> \<open>Prelude\<close>: bytes, words, errors as values, strings and bytes; the locales \<open>invariant_system\<close>,
    \<open>measured_system\<close> and \<open>refinement_map\<close> under which every concurrent component is analysed.
  \<^item> \<open>Go_Strings\<close>, \<open>Go_IO\<close>, \<open>Net_IP\<close>, \<open>Base64_Url\<close>, \<open>Sort_Interface\<close>: what the sources use of the Go library
    (\<open>strings\<close>, \<open>strconv\<close>, \<open>net\<close>, \<open>netip\<close>, \<open>bufio\<close>, \<open>io\<close>, \<open>base64\<close>, \<open>sort.Stable\<close>).
    \<open>Sort_Interface\<close> states the contract of \<open>sort.Interface\<close> as a locale and proves Go's insertion sort stable on it.
  \<^item> \<open>Addr_Select\<close>, \<open>Addr_Flags\<close>: \<open>dns/addrselect\<close>.  The comparison of \<open>byRFC6724\<close> is shown to be a
    lexicographic order on ranks, hence a strict weak order, which interprets the sort locale: the
    result is the unique stable sorting.  The policy table gives longest-prefix matches.
  \<^item> \<open>Dns_Resolver\<close>: \<open>dns/resolver/resolver.go\<close>; the goroutines, the channel and the collecting loop are a step
    relation; no run leaves a goroutine behind and the result is independent of their order.
  \<^item> \<open>Resolvers\<close>: \<open>general.go\<close>, \<open>system.go\<close>, \<open>doh.go\<close>; the locale \<open>resolver_interface\<close> is the contract of
    \<open>Resolver\<close>: an address comes from an answer, and never together with an error.
  \<^item> \<open>Chain\<close>, \<open>Cache\<close>: \<open>chain.go\<close> and \<open>cache.go\<close> as step relations; both keep the resolver's contract
    (\<open>sublocale\<close>).  The cache: one lookup at a time per key, bounded size, no stale answer, every
    call returns.
  \<^item> \<open>Cache_Slices\<close>: the cache with its slices in shared memory, to which callers may write, at two levels: the elements
    of a slice and the bytes of an address.  It refines \<open>Cache\<close>; the elements of the
    entries are safe from the callers, the bytes are shared by all copies, and the slice of the call that led a lookup is
    shared with those that wait for it.
  \<^item> \<open>Config\<close>, \<open>Dns\<close>: \<open>util/args.go\<close>, \<open>util/config.go\<close>, \<open>dns/dns.go\<close>; round trip of the command line and the
    configuration it leads to; the bypass chain holds exactly the configured upstreams and never the system resolver.
  \<^item> \<open>Tls_Packet\<close>, \<open>Http_Packet\<close>: \<open>packet/https.go\<close>, \<open>packet/http.go\<close>.
  \<^item> \<open>Chunks\<close>, \<open>Pipe\<close>, \<open>Handlers\<close>: \<open>proxy/handler\<close>; fragments, the relay with its half-closes as a step
    relation of two copy loops, and the two \<open>Serve\<close> methods under the locale \<open>connection_handler\<close>.
  \<^item> \<open>Relay_Spec\<close>: the specification of the relay, two links that pass bytes on in order, lose bytes only by a write that
    returns an error and end when none are left or a write has failed, and the refinement by \<open>Pipe\<close>.
  \<^item> \<open>Buffers\<close>: the buffer pool of \<open>copyWithTimeout\<close> with explicit memory: no two copy loops share a buffer, so the
    relay may be analysed with values.
  \<^item> \<open>Proxy\<close>: \<open>proxy/proxy.go\<close>; accept loop with back-off, \<open>handle\<close>, the loop check.
  \<^item> \<open>Log_Ctx\<close>, \<open>Os_Proxy\<close>, \<open>Terminal\<close>, \<open>Main_Prog\<close>: \<open>util/log\<close>, \<open>util/os.go\<close>, \<open>version\<close> and the banner, \<open>main.go\<close>;
    exit statuses, the system's proxy, what is printed.
  \<^item> This theory: the properties that span all components, from the bytes of the client to the
    bytes of the server, for a tunnel and for a plain request.

  \<^bold>\<open>Conventions.\<close>  A struct is a record with prefixed fields, an error result is \<open>go_error + 'a\<close> or a pair with a
  \<open>go_error option\<close>, a nil slice of patterns is \<open>None\<close>.  Fixed-width integers are words; Go's \<open>int\<close> is
  \<open>int\<close>, where the sources only hold values that were 16-bit flags or lengths.  Functions that
  only compute are executable definitions.  Goroutines are threads of a step relation: a step is one
  turn of a loop or one operation on shared state, and every interleaving is a run; a context that
  ends is a step of the environment.  A connection is the stream its peer will send, the segments
  written to it and which halves are closed; a sink may have a budget after which writes
  fail, and records whether one has.  A read that times out is an end of the stream with its error.  A peer that
  neither sends nor closes is a stream that ends with \<open>NeverReturns\<close>: a read without a deadline then blocks, as the
  outcome \<open>Stuck\<close> of a handler and as a missing step of a copy loop; with a deadline it ends the loop.
  Some records carry a field that the code does not have, and say so: the time at which an answer was stored, whether a
  write has failed, what a caller was given and what callers have written to.

  \<^bold>\<open>Parameters.\<close>  What the program only calls is an argument of the definitions: the DNS and HTTP client libraries,
  \<open>http.ReadRequest\<close>, \<open>net.ParseIP\<close> and the print form of an address, \<open>regexp.Compile\<close>, the
  operating system's resolver, dialled and accepted connections, interface addresses, the lines of
  \<open>/proc/net/if_inet6\<close>, random numbers, the order of a map's iteration, the commands
  of macOS.  The theorems hold for all of them; the few that assume anything of them
  (a map's iteration visits each entry once; writes do not fail) say so.

  \<^bold>\<open>Bounds and termination.\<close>  No definition uses fuel: loops are structural or have a termination proof, and runs of
  the step relations are bounded by measures (\<open>2 n + 2\<close> steps of a lookup for \<open>n\<close> record types,
  \<open>2 n + 1\<close> for a chain of \<open>n\<close> resolvers, \<open>3 n\<close> for \<open>n\<close> calls of the cache, \<open>n + 5\<close> for a relay of \<open>n\<close> bytes).

  \<^bold>\<open>Not modelled.\<close>  Log lines other than those of \<open>main.go\<close>, and how the zerolog and pterm libraries print; the usage text of the flag package;
  the recovery from a panic in \<open>handle\<close> (no definition can panic); a write that blocks because the peer does not read; timeouts of dials and of lookups except as outcomes of the parameters;
  the build files and the installation script.
\<close>

section \<open>From the client to the server\<close>

text \<open>C1: a tunnel carries every byte.  When the request is a CONNECT, the handler reaches the relay, both
  streams come to their end and no write is refused, then the server has received exactly what the
  client sent after its request head (the ClientHello, whatever its fragments, and everything after
  it), the client has received the \<open>200\<close> line and then exactly what the server sent, and both
  connections are closed.\<close>

theorem tunnel_end_to_end:
  assumes "fresh_conn c" and "sk_budget (cn_out c) = None"
    and "\<forall>addr ty sr k. pw_dial w addr = Inr (ty, sr, k) \<longrightarrow> sk_budget k = None \<and> sk_segments k = []"
    and "handle w pxy isTCP c (Relayed l r)" and "admit (pw_ReadRequest w) c = Inr (pkt, c1)" and "IsConnectMethod pkt"
    and "served_ends bufSize timeoutMs (Relayed l r) l' (Some r')"
  shows "\<exists>ip port p br sr k. ReadHttpRequest (pw_ReadRequest w) (cn_in c) = (Inr p, br) \<and> pkt = Tidy p \<and>
    pw_dial w (net_JoinHostPort ip (strconv_Itoa port)) = Inr (tcpConn, sr, k) \<and>
    rd_data (cn_in c) = raw p @ sink_bytes (cn_out r') \<and>
    sink_bytes (cn_out l') = sink_bytes (cn_out c) @ established pkt @ rd_data sr \<and> cn_closed l' \<and> cn_closed r'"
proof (rule handle_relayed_cases [OF assms(4)])
  fix pkt' c1' ip
  assume ad: "admit (pw_ReadRequest w) c = Inr (pkt', c1')" and dis: "Relayed l r = dispatch w pxy isTCP pkt' c1' (Inr ip)"
  from ad assms(5) have eq: "pkt' = pkt" "c1' = c1" by simp_all
  obtain p br where rd: "ReadHttpRequest (pw_ReadRequest w) (cn_in c) = (Inr p, br)" and tidy: "pkt = Tidy p" and c1: "c1 = c\<lparr>cn_in := br\<rparr>"
    using admit_ok [OF assms(5)] by blast
  let ?h = "NewHttpsHandler (px_timeout pxy) (px_windowSize pxy) (px_allowedPattern pxy) (matched_host pxy pkt)"
  have serve: "HttpsHandler_Serve (pw_dial w) ?h c1 pkt ip = Relayed l r"
    by (rule dispatch_connect [OF assms(6)]) (use dis eq in simp)
  have fresh: "fresh_conn c1" using assms(1) c1 by simp
  from https_handler.relay_open [OF fresh serve] have ends: "fresh_conn l" "fresh_conn r" by simp_all
  have budgets: "sk_budget (cn_out l) = None" "sk_budget (cn_out r) = None"
    using https_relayed_budgets [OF serve] assms(2,3) c1 by auto
  note del = relay_delivers [OF ends budgets assms(7)]
  have head: "rd_data (cn_in c) = raw p @ rd_data br" using ReadHttpRequest_head [OF rd] by blast
  show ?thesis
  proof (rule https_relayed_cases [OF fresh serve])
    fix port sr k and m :: TLSMessage
    assume d: "pw_dial w (net_JoinHostPort ip (strconv_Itoa port)) = Inr (tcpConn, sr, k)"
      and m: "rd_data (cn_in c1) = Raw m @ rd_data (cn_in l)" and sr: "cn_in r = sr"
      and lo: "sk_segments (cn_out l) = sk_segments (cn_out c1) @ [established pkt]"
      and ro: "sk_segments (cn_out r) = sk_segments k @ hello_segments ?h (Raw m)"
    have "sink_bytes (cn_out r') = rd_data br"
      using del(1) ro m assms(3) d c1 by (auto simp: sink_bytes_def)
    moreover have "sink_bytes (cn_out l') = sink_bytes (cn_out c) @ established pkt @ rd_data sr"
      using del(2) lo sr c1 by (simp add: sink_bytes_def)
    ultimately have "rd_data (cn_in c) = raw p @ sink_bytes (cn_out r') \<and>
        sink_bytes (cn_out l') = sink_bytes (cn_out c) @ established pkt @ rd_data sr \<and> cn_closed l' \<and> cn_closed r'"
      using head del(3,4) by simp
    with rd tidy d show ?thesis by (intro exI conjI) auto
  qed
qed

theorem tunnel_end_to_end_witness:
  "\<exists>l r l' r'. handle demo_net demo_pxy True demo_caller (Relayed l r) \<and> served_ends 4096 0 (Relayed l r) l' (Some r') \<and>
     (\<exists>hello. sink_bytes (cn_out r') = hello @ [8, 8, 8]) \<and> (\<exists>pre. sink_bytes (cn_out l') = pre @ [7])"
proof -
  obtain l r bs where h: "handle demo_net demo_pxy True demo_caller (Relayed l r)"
    and ad: "admit demo_rr demo_caller = Inr (demo_connect\<lparr>hr_domain := ''a'', raw := bs\<rparr>, demo_client)"
    and "rd_end (cn_in l) = EOF" "rd_end (cn_in r) = EOF" by (rule demo_handled) simp
  then obtain l' r' where e: "served_ends 4096 0 (Relayed l r) l' (Some r')"
    using handle_relay_ends [OF demo_caller_fresh h, of 4096 0] by auto
  have "sk_budget (cn_out demo_caller) = None" by (simp add: demo_caller_def demo_client_def new_conn_def open_sink_def)
  moreover have "\<forall>addr ty sr k. pw_dial demo_net addr = Inr (ty, sr, k) \<longrightarrow> sk_budget k = None \<and> sk_segments k = []"
    by (simp add: demo_net_def demo_dial_def open_sink_def)
  moreover have "IsConnectMethod (demo_connect\<lparr>hr_domain := ''a'', raw := bs\<rparr>)"
    by (simp add: IsConnectMethod_def demo_connect_def)
  moreover have rr: "pw_ReadRequest demo_net = demo_rr" "pw_dial demo_net = demo_dial" by (simp_all add: demo_net_def)
  ultimately obtain ip port p br sr k where p: "ReadHttpRequest demo_rr (cn_in demo_caller) = (Inr p, br)"
    and d: "demo_dial (net_JoinHostPort ip (strconv_Itoa port)) = Inr (tcpConn, sr, k)"
    and up: "rd_data (cn_in demo_caller) = raw p @ sink_bytes (cn_out r')"
    and down: "sink_bytes (cn_out l') = (sink_bytes (cn_out demo_caller) @
       established (demo_connect\<lparr>hr_domain := ''a'', raw := bs\<rparr>)) @ rd_data sr"
    using tunnel_end_to_end [OF demo_caller_fresh _ _ h _ _ e] ad by (auto simp del: split_paired_Ex)
  have "raw p = [71, 13, 10, 13, 10]"
    using p demo_read [of "rd_data (cn_in demo_client)" EOF] by (auto simp: demo_caller_def)
  then have "sink_bytes (cn_out r') = tls_record 0x16 3 1 [1] @ [8, 8, 8]"
    using up by (simp add: demo_caller_def demo_client_def new_conn_def)
  moreover have "rd_data sr = [7]" using d by (auto simp: demo_dial_def split: if_splits)
  ultimately show ?thesis using h e down by (intro exI conjI) (assumption | simp)+
qed

text \<open>C2: a plain request is forwarded.  When the request is not a CONNECT, both streams come to their end and no
  write is refused, then the server has received the request head as \<open>Tidy\<close> has rewritten it and then every
  byte the client sent after the head, unchanged; the client has received exactly what the server
  sent, and both connections are closed.  In particular a second request on the same
  connection goes to the server of the first one, as the client sent it, whatever host it
  names.\<close>

theorem plain_request_end_to_end:
  assumes "fresh_conn c" and "sk_budget (cn_out c) = None"
    and "\<forall>addr ty sr k. pw_dial w addr = Inr (ty, sr, k) \<longrightarrow> sk_budget k = None \<and> sk_segments k = []"
    and "handle w pxy isTCP c (Relayed l r)" and "admit (pw_ReadRequest w) c = Inr (pkt, c1)" and "\<not> IsConnectMethod pkt"
    and "served_ends bufSize timeoutMs (Relayed l r) l' (Some r')"
  shows "\<exists>ip port p br sr k. ReadHttpRequest (pw_ReadRequest w) (cn_in c) = (Inr p, br) \<and> pkt = Tidy p \<and>
    pw_dial w (net_JoinHostPort ip (strconv_Itoa port)) = Inr (tcpConn, sr, k) \<and>
    rd_data (cn_in c) = raw p @ rd_data br \<and> sink_bytes (cn_out r') = raw pkt @ rd_data br \<and>
    sink_bytes (cn_out l') = sink_bytes (cn_out c) @ rd_data sr \<and> cn_closed l' \<and> cn_closed r'"
proof (rule handle_relayed_cases [OF assms(4)])
  fix pkt' c1' ip
  assume ad: "admit (pw_ReadRequest w) c = Inr (pkt', c1')" and dis: "Relayed l r = dispatch w pxy isTCP pkt' c1' (Inr ip)"
  from ad assms(5) have eq: "pkt' = pkt" "c1' = c1" by simp_all
  obtain p br where rd: "ReadHttpRequest (pw_ReadRequest w) (cn_in c) = (Inr p, br)" and tidy: "pkt = Tidy p" and c1: "c1 = c\<lparr>cn_in := br\<rparr>"
    using admit_ok [OF assms(5)] by blast
  have serve: "HttpHandler_Serve (pw_dial w) (NewHttpHandler (px_timeout pxy)) c1 pkt ip = Relayed l r"
    by (rule dispatch_plain [OF assms(6)]) (use dis eq in simp)
  have "fresh_conn c1" using assms(1) c1 by simp
  from http_handler.relay_open [OF this serve] have fresh: "fresh_conn l" "fresh_conn r" by simp_all
  have rb: "sk_budget (cn_out r) = None" using http_relayed_budgets [OF serve] assms(3) by blast
  have head: "rd_data (cn_in c) = raw p @ rd_data br" using ReadHttpRequest_head [OF rd] by blast
  show ?thesis
  proof (rule http_relayed_cases [OF serve])
    fix port sr k
    assume d: "pw_dial w (net_JoinHostPort ip (strconv_Itoa port)) = Inr (tcpConn, sr, k)" and l: "l = c1" and sr: "cn_in r = sr"
      and ro: "sk_segments (cn_out r) = sk_segments k @ [raw pkt]"
    have lb: "sk_budget (cn_out l) = None" using l c1 assms(2) by simp
    note del = relay_delivers [OF fresh lb rb assms(7)]
    have "sk_segments k = []" using assms(3) d by blast
    with del(1) ro l c1 have "sink_bytes (cn_out r') = raw pkt @ rd_data br" by (simp add: sink_bytes_def)
    moreover have "sink_bytes (cn_out l') = sink_bytes (cn_out c) @ rd_data sr" using del(2) l c1 sr by simp
    ultimately show ?thesis using rd tidy d head del(3,4) by (intro exI conjI)
  qed
qed

text \<open>The same client with a plain request.\<close>

definition demo_get :: http_ReadRequest where
  "demo_get s = Inr (demo_req\<lparr>req_Host := ''a:80'', req_Method := ''GET''\<rparr>)"

abbreviation demo_plain :: proxy_world where "demo_plain \<equiv> demo_net\<lparr>pw_ReadRequest := demo_get\<rparr>"

definition demo_plain_request :: HttpRequest where
  "demo_plain_request = \<lparr>raw = [71, 13, 10, 13, 10], hr_method = ''GET'', hr_domain = ''a'', hr_port = ''80'',
     hr_path = ''/'', hr_version = ''HTTP/1.1''\<rparr>"

lemma demo_get_read:
  "ReadHttpRequest demo_get \<lparr>rd_data = [71, 13, 10, 13, 10] @ rest, rd_end = e\<rparr> = (Inr demo_plain_request, \<lparr>rd_data = rest, rd_end = e\<rparr>)"
proof -
  have "net_SplitHostPort ''a:80'' = Inr (''a'', ''80'')"
    using SplitHostPort_JoinHostPort [of "''a''" "''80''"] by (simp add: net_JoinHostPort_def)
  then show ?thesis using demo_head [of rest e]
    by (simp add: ReadHttpRequest_def demo_get_def demo_req_def request_of_def demo_plain_request_def)
qed

lemma demo_plain_handled:
  obtains l r where "handle demo_plain demo_pxy True demo_caller (Relayed l r)"
    and "admit demo_get demo_caller = Inr (Tidy demo_plain_request, demo_client)" and "\<not> IsConnectMethod (Tidy demo_plain_request)"
    and "rd_end (cn_in l) = EOF" and "rd_end (cn_in r) = EOF"
proof -
  let ?pkt = "Tidy demo_plain_request"
  have pkt: "hr_method ?pkt = ''GET''" "hr_domain ?pkt = ''a''" "hr_port ?pkt = ''80''"
    by (simp_all add: Tidy_def Let_def demo_plain_request_def)
  have rd: "ReadHttpRequest demo_get (cn_in demo_caller) = (Inr demo_plain_request, cn_in demo_client)"
    using demo_get_read [of "rd_data (cn_in demo_client)" EOF]
    by (simp add: demo_caller_def) (simp add: demo_client_def new_conn_def)
  have ad: "admit demo_get demo_caller = Inr (?pkt, demo_client)"
    using rd pkt(1) by (simp add: admit_def IsValidMethod_def validMethod_def) (simp add: demo_caller_def)
  have "strconv_Atoi ''80'' = (80, None)" using Atoi_Itoa [of 80] by (simp add: demo_443)
  then have "serve_port 80 ?pkt = Some 80" unfolding serve_port_def pkt(3) by simp
  then obtain r where "HttpHandler_Serve demo_dial (NewHttpHandler (px_timeout demo_pxy)) demo_client ?pkt ''9.9.9.9'' = Relayed demo_client r"
    and e: "rd_end (cn_in r) = EOF"
    by (simp add: HttpHandler_Serve_def dialTCP_def demo_dial_def demo_443 net_JoinHostPort_def Conn_Write_def new_conn_def
        open_sink_def conn_Write_def)
  moreover have "hr_port ?pkt \<noteq> strconv_Itoa (px_port demo_pxy)"
    unfolding pkt(3) by (simp add: New_def demo_config_def zero_Config_def strconv_Itoa_def format_nat.simps)
  moreover have c: "\<not> IsConnectMethod ?pkt" unfolding IsConnectMethod_def pkt(1) by simp
  ultimately have "dispatch demo_plain demo_pxy True ?pkt demo_client (Inr ''9.9.9.9'') = Relayed demo_client r"
    by (simp add: dispatch_def demo_net_def)
  moreover have "ResolveHost demo_world (px_resolver demo_pxy) (hr_domain ?pkt) False (\<not> matched_host demo_pxy ?pkt) (Inr ''9.9.9.9'')"
    using demo_resolves [of "''a''"] demo_matched unfolding pkt(2) by (simp add: New_def)
  ultimately have "handle demo_plain demo_pxy True demo_caller (Relayed demo_client r)"
    unfolding handle_def using ad by (auto simp: demo_net_def)
  then show ?thesis using ad c by (rule that) (simp_all add: e, simp add: demo_client_def new_conn_def)
qed

theorem plain_request_end_to_end_witness:
  "\<exists>l r l' r'. handle demo_plain demo_pxy True demo_caller (Relayed l r) \<and> served_ends 4096 0 (Relayed l r) l' (Some r') \<and>
     sink_bytes (cn_out r') = raw (Tidy demo_plain_request) @ rd_data (cn_in demo_client) \<and> sink_bytes (cn_out l') = [7]"
proof -
  obtain l r where h: "handle demo_plain demo_pxy True demo_caller (Relayed l r)"
    and ad: "admit demo_get demo_caller = Inr (Tidy demo_plain_request, demo_client)" and c: "\<not> IsConnectMethod (Tidy demo_plain_request)"
    and "rd_end (cn_in l) = EOF" "rd_end (cn_in r) = EOF" by (rule demo_plain_handled)
  then obtain l' r' where e: "served_ends 4096 0 (Relayed l r) l' (Some r')"
    using handle_relay_ends [OF demo_caller_fresh h, of 4096 0] by auto
  have b: "sk_budget (cn_out demo_caller) = None" "sink_bytes (cn_out demo_caller) = []"
    by (simp_all add: demo_caller_def demo_client_def new_conn_def open_sink_def sink_bytes_def)
  have d: "\<forall>addr ty sr k. pw_dial demo_plain addr = Inr (ty, sr, k) \<longrightarrow> sk_budget k = None \<and> sk_segments k = []"
    by (simp add: demo_net_def demo_dial_def open_sink_def)
  have w: "pw_ReadRequest demo_plain = demo_get" "pw_dial demo_plain = demo_dial" by (simp_all add: demo_net_def)
  from plain_request_end_to_end [OF demo_caller_fresh b(1) d h _ c e, unfolded w, OF ad]
  obtain ip port p br sr k where p: "ReadHttpRequest demo_get (cn_in demo_caller) = (Inr p, br)"
    and dl: "demo_dial (net_JoinHostPort ip (strconv_Itoa port)) = Inr (tcpConn, sr, k)"
    and up: "sink_bytes (cn_out r') = raw (Tidy demo_plain_request) @ rd_data br"
    and down: "sink_bytes (cn_out l') = sink_bytes (cn_out demo_caller) @ rd_data sr" by blast
  have "rd_data br = rd_data (cn_in demo_client)"
    using p demo_get_read [of "rd_data (cn_in demo_client)" EOF] by (auto simp: demo_caller_def)
  moreover have "rd_data sr = [7]" using dl by (auto simp: demo_dial_def split: if_splits)
  ultimately show ?thesis using h e down up b(2) by (intro exI conjI) (assumption | simp)+
qed

end
